(* ===== verification/Prelude.thy ===== *)
theory Prelude
  imports Main "HOL-Library.Word" "HOL-Library.Signed_Division"
begin

text \<open>
  What every component of the model shares: the machine integer types of the C sources, the
  kernel log, the number formats of \<open>sprintf\<close> that the sources use, and a few lemmas on
  lists and words.

  \<open>unsigned int\<close>, \<open>__u32\<close> and \<open>int\<close> are 32-bit words (\<open>int\<close> is read with
  \<open>sint\<close> where the source compares or prints it as signed), \<open>__u16\<close> and \<open>__u8\<close> are
  words of their width. The target is the little-endian MIPS of the PlayStation 2, so the
  \<open>le16_to_cpu\<close>/\<open>cpu_to_le32\<close> family is the identity.
\<close>

unbundle bit_operations_syntax

named_theorems dump_simps \<open>unfolding rules of the text producing operations\<close>
named_theorems inv_intros \<open>preservation lemmas of the component invariants\<close>

type_synonym u8 = "8 word"
type_synonym u16 = "16 word"
type_synonym u32 = "32 word"

section \<open>The kernel log\<close>

text \<open>
  \<open>printk(KERN_x "...", ...)\<close> is a \<open>Printk\<close> entry (the text without the file and line
  prefix); \<open>printk(p)\<close>, which uses the data \<open>p\<close> itself as the format string, is a
  \<open>Printk_fmt\<close> entry.
\<close>

datatype klevel = KERN_ERR | KERN_WARNING | KERN_INFO | KERN_DEBUG

fun severity :: "klevel \<Rightarrow> nat" where
  "severity KERN_ERR = 3"
| "severity KERN_WARNING = 4"
| "severity KERN_INFO = 6"
| "severity KERN_DEBUG = 7"

lemma severity_inject [simp]: "severity a = severity b \<longleftrightarrow> a = b"
  by (cases a; cases b) simp_all

instantiation klevel :: linorder
begin

definition less_eq_klevel :: "klevel \<Rightarrow> klevel \<Rightarrow> bool" where
  "less_eq_klevel a b \<longleftrightarrow> severity a \<le> severity b"

definition less_klevel :: "klevel \<Rightarrow> klevel \<Rightarrow> bool" where
  "less_klevel a b \<longleftrightarrow> severity a < severity b"

instance
  by standard (auto simp: less_eq_klevel_def less_klevel_def)

end

datatype kmsg = Printk klevel string | Printk_fmt string

fun is_error_msg :: "kmsg \<Rightarrow> bool" where
  "is_error_msg (Printk l _) = (l \<le> KERN_WARNING)"
| "is_error_msg (Printk_fmt _) = False"

section \<open>Number formats of sprintf\<close>

definition digit_char :: "nat \<Rightarrow> char" where
  "digit_char d = char_of (if d < 10 then 48 + d else 87 + d)"

fun digits_base :: "nat \<Rightarrow> nat \<Rightarrow> nat list" where
  "digits_base b n = (if n < b \<or> b < 2 then [n] else digits_base b (n div b) @ [n mod b])"

declare digits_base.simps [simp del]

definition zpad :: "nat \<Rightarrow> string \<Rightarrow> string" where
  "zpad w s = replicate (w - length s) CHR ''0'' @ s"

text \<open>\<open>%u\<close>, \<open>%0wu\<close>, \<open>%x\<close>, \<open>%0wx\<close> and \<open>%d\<close> of a 32-bit argument.\<close>

definition fmt_nat :: "nat \<Rightarrow> string" where
  "fmt_nat n = map digit_char (digits_base 10 n)"

definition fmt_u :: "u32 \<Rightarrow> string" where
  "fmt_u x = fmt_nat (unat x)"

definition fmt_0u :: "nat \<Rightarrow> u32 \<Rightarrow> string" where
  "fmt_0u w x = zpad w (fmt_u x)"

definition fmt_x :: "u32 \<Rightarrow> string" where
  "fmt_x x = map digit_char (digits_base 16 (unat x))"

definition fmt_0x :: "nat \<Rightarrow> u32 \<Rightarrow> string" where
  "fmt_0x w x = zpad w (fmt_x x)"

definition fmt_d :: "u32 \<Rightarrow> string" where
  "fmt_d x = (if sint x < 0 then CHR ''-'' # fmt_nat (nat (- sint x)) else fmt_nat (nat (sint x)))"

subsection \<open>Facts about the formats\<close>

lemma digits_base_nonempty [simp]: "digits_base b n \<noteq> []"
  by (subst digits_base.simps) simp

lemma digits_base_small: "2 \<le> b \<Longrightarrow> \<forall>d \<in> set (digits_base b n). d < b"
proof (induction b n rule: digits_base.induct)
  case (1 b n)
  then show ?case
    by (subst digits_base.simps) auto
qed

lemma digits_base_value:
  "2 \<le> b \<Longrightarrow> foldl (\<lambda>a d. a * b + d) 0 (digits_base b n) = n"
proof (induction b n rule: digits_base.induct)
  case (1 b n)
  then show ?case
    by (subst digits_base.simps) auto
qed

lemma digits_base_length:
  assumes "2 \<le> b" "n < b ^ k" "0 < k"
  shows "length (digits_base b n) \<le> k"
  using assms
proof (induction b n arbitrary: k rule: digits_base.induct)
  case (1 b n)
  show ?case
  proof (cases "n < b \<or> b < 2")
    case True
    with "1.prems" show ?thesis by (subst digits_base.simps) simp
  next
    case False
    then obtain j where k: "k = Suc j" and j: "0 < j"
      using "1.prems" by (cases k; cases "k - 1") auto
    have "n div b < b ^ j"
      using "1.prems" k by (simp add: less_mult_imp_div_less mult.commute)
    then have "length (digits_base b (n div b)) \<le> j"
      using "1.IH"[OF False "1.prems"(1) _ j] by simp
    with False k show ?thesis by (subst digits_base.simps) simp
  qed
qed

lemma digits_base_hd:
  "2 \<le> b \<Longrightarrow> 0 < n \<Longrightarrow> hd (digits_base b n) \<noteq> 0"
proof (induction b n rule: digits_base.induct)
  case (1 b n)
  show ?case
  proof (cases "n < b \<or> b < 2")
    case True
    with "1.prems" show ?thesis by (subst digits_base.simps) simp
  next
    case False
    then have "0 < n div b" using "1.prems" by (simp add: div_greater_zero_iff)
    then have "hd (digits_base b (n div b)) \<noteq> 0" using "1.IH"[OF False "1.prems"(1)] by simp
    with False show ?thesis by (subst digits_base.simps) (simp add: hd_append)
  qed
qed

lemma zpad_length [simp]: "length (zpad w s) = max w (length s)"
  by (simp add: zpad_def)

lemma set_zpad: "set (zpad w s) \<subseteq> insert CHR ''0'' (set s)"
  by (auto simp: zpad_def)

definition is_xdigit_char :: "char \<Rightarrow> bool" where
  "is_xdigit_char c \<longleftrightarrow> c \<in> digit_char ` {..<16}"

lemma fmt_0x_xdigits: "\<forall>c \<in> set (fmt_0x w x). is_xdigit_char c"
proof
  fix c assume "c \<in> set (fmt_0x w x)"
  then have "c = CHR ''0'' \<or> c \<in> set (fmt_x x)"
    using set_zpad by (auto simp: fmt_0x_def)
  moreover have "CHR ''0'' = digit_char 0" by (simp add: digit_char_def char_of_def bit_0)
  moreover have "\<forall>d \<in> set (digits_base 16 (unat x)). d < 16"
    by (rule digits_base_small) simp
  ultimately show "is_xdigit_char c"
    by (auto simp: is_xdigit_char_def fmt_x_def)
qed

lemma unat_u8_u32 [simp]: "unat (ucast (b :: u8) :: u32) = unat b"
  using unsigned_less[of b, where 'a=nat] by (simp add: unsigned_ucast_eq take_bit_eq_mod)

lemma unat_u16_u32 [simp]: "unat (ucast (b :: u16) :: u32) = unat b"
  using unsigned_less[of b, where 'a=nat] by (simp add: unsigned_ucast_eq take_bit_eq_mod)

lemma fmt_02x_byte_length: "length (fmt_0x 2 (ucast (b :: u8))) = 2"
proof -
  have "unat b < 16 ^ 2" using unsigned_less[of b, where 'a=nat] by simp
  then have "length (digits_base 16 (unat b)) \<le> 2"
    by (intro digits_base_length) auto
  then show ?thesis
    by (simp add: fmt_0x_def fmt_x_def)
qed

lemma fmt_nat_length: "n < 10 ^ k \<Longrightarrow> 0 < k \<Longrightarrow> length (fmt_nat n) \<le> k"
  by (simp add: fmt_nat_def digits_base_length)

lemma fmt_u_length: "length (fmt_u x) \<le> 10"
  using unsigned_less[of x, where 'a=nat] by (auto simp: fmt_u_def intro!: fmt_nat_length)

section \<open>Words and lists\<close>

text \<open>The \<open>min\<close> of the sources: on unsigned ints.\<close>

definition min_u :: "u32 \<Rightarrow> u32 \<Rightarrow> u32" where
  "min_u a b = (if a < b then a else b)"

lemma unat_min_u [simp]: "unat (min_u a b) = min (unat a) (unat b)"
  by (simp add: min_u_def word_less_nat_alt)

lemma sint_small:
  assumes "unat (x :: u32) < 2 ^ 31" shows "sint x = int (unat x)"
proof -
  have u: "uint x = int (unat x)" by simp
  have "uint x < 2 ^ 31" unfolding u using assms by (metis of_nat_less_iff of_nat_numeral of_nat_power)
  then have "signed_take_bit 31 (uint x) = uint x"
    by (intro signed_take_bit_int_eq_self order_trans[OF _ uint_ge_0]) simp_all
  then show ?thesis unfolding u[symmetric] by (simp add: sint_uint)
qed

end
