(* ===== verification/Kernel_Env.thy ===== *)
theory Kernel_Env
  imports Prelude
begin

text \<open>
  The part of the Linux kernel the sources are compiled against, which is not in the
  repository: \<open>linux/usb.h\<close> (the pipe macros, the USB constants, the layout of the
  descriptor structs), \<open>isprint\<close> of \<open>linux/ctype.h\<close>, the \<open>KERN_DEBUG\<close> prefix and
  \<open>simple_strtoul\<close>. It is a parameter: a record \<open>kenv\<close> that every definition using it
  takes as its first argument. What the sources rely on is stated as predicates over a \<open>kenv\<close>,
  and \<open>linux_env\<close> is a concrete environment in which all of them hold, used by the witnesses.
\<close>

section \<open>The environment\<close>

datatype (plugins only: code size) kmacro =
    PIPE_ISOCHRONOUS | PIPE_INTERRUPT | PIPE_CONTROL | PIPE_BULK
  | USB_DIR_IN
  | USB_TYPE_STANDARD | USB_TYPE_CLASS | USB_TYPE_VENDOR
  | USB_RECIP_MASK | USB_RECIP_DEVICE | USB_RECIP_INTERFACE | USB_RECIP_ENDPOINT | USB_RECIP_OTHER
  | USB_REQ_GET_STATUS | USB_REQ_CLEAR_FEATURE | USB_REQ_SET_FEATURE | USB_REQ_SET_ADDRESS
  | USB_REQ_GET_DESCRIPTOR | USB_REQ_SET_DESCRIPTOR | USB_REQ_GET_CONFIGURATION
  | USB_REQ_SET_CONFIGURATION | USB_REQ_GET_INTERFACE | USB_REQ_SET_INTERFACE | USB_REQ_SYNCH_FRAME
  | USB_DT_DEVICE | USB_DT_CONFIG | USB_DT_STRING | USB_DT_INTERFACE | USB_DT_ENDPOINT
  | USB_DT_DEVICE_SIZE | USB_DT_CONFIG_SIZE | USB_DT_INTERFACE_SIZE | USB_DT_ENDPOINT_SIZE
  | USB_DT_ENDPOINT_AUDIO_SIZE
  | USB_CLASS_AUDIO | USB_CLASS_COMM | USB_CLASS_HID | USB_CLASS_PRINTER | USB_CLASS_MASS_STORAGE
  | USB_CLASS_HUB | USB_CLASS_VENDOR_SPEC

text \<open>The fields of the packed USB structs: \<open>devrequest\<close>, \<open>usb_descriptor_header\<close> and the
  device, configuration, string, interface and endpoint descriptors.\<close>

datatype (plugins only: code size) usb_field =
    DR_requesttype | DR_request | DR_value | DR_index | DR_length
  | DH_bLength | DH_bDescriptorType
  | DD_bLength | DD_bDescriptorType | DD_bcdUSB | DD_bDeviceClass | DD_bDeviceSubClass
  | DD_bDeviceProtocol | DD_bMaxPacketSize0 | DD_idVendor | DD_idProduct | DD_bcdDevice
  | DD_iManufacturer | DD_iProduct | DD_iSerialNumber | DD_bNumConfigurations
  | CD_bLength | CD_bDescriptorType | CD_wTotalLength | CD_bNumInterfaces | CD_bConfigurationValue
  | CD_iConfiguration | CD_bmAttributes | CD_MaxPower
  | SD_bLength | SD_bDescriptorType | SD_wData
  | ID_bLength | ID_bDescriptorType | ID_bInterfaceNumber | ID_bAlternateSetting | ID_bNumEndpoints
  | ID_bInterfaceClass | ID_bInterfaceSubClass | ID_bInterfaceProtocol | ID_iInterface
  | ED_bLength | ED_bDescriptorType | ED_bEndpointAddress | ED_bmAttributes | ED_wMaxPacketSize
  | ED_bInterval | ED_bRefresh | ED_bSynchAddress

text \<open>
  \<open>field_at f\<close> is the offset and the width in bytes of a struct field. \<open>simple_strtoul s b\<close>
  reads a number in base \<open>b\<close> at the start of the bytes \<open>s\<close>: its value and the number of
  characters it took, or \<open>None\<close> where it would have to read beyond \<open>s\<close>. \<open>behind_copy n\<close> are the
  bytes that follow, in kernel memory, the \<open>kmalloc\<close>ed copy of the transfer buffer of the URB number
  \<open>n\<close>, as far as they can be read: the descriptor dumpers may read on into them.
\<close>

record kenv =
  macro :: "kmacro \<Rightarrow> u32"
  field_at :: "usb_field \<Rightarrow> nat \<times> nat"
  usb_pipetype :: "u32 \<Rightarrow> u32"
  usb_pipeendpoint :: "u32 \<Rightarrow> u32"
  usb_pipedevice :: "u32 \<Rightarrow> u32"
  usb_pipeout :: "u32 \<Rightarrow> u32"
  usb_pipein :: "u32 \<Rightarrow> u32"
  usb_pipeint :: "u32 \<Rightarrow> u32"
  isprint_k :: "u8 \<Rightarrow> bool"
  KERN_DEBUG_str :: string
  simple_strtoul :: "string \<Rightarrow> nat \<Rightarrow> (u32 \<times> nat) option"
  behind_copy :: "u32 \<Rightarrow> u8 list"

section \<open>What the sources rely on\<close>

text \<open>The labels of one \<open>switch\<close> are distinct, or the sources would not compile.\<close>

definition switch_labels :: "kenv \<Rightarrow> bool" where
  "switch_labels K \<longleftrightarrow>
     distinct (map (macro K) [PIPE_ISOCHRONOUS, PIPE_INTERRUPT, PIPE_CONTROL, PIPE_BULK]) \<and>
     distinct (map (macro K) [USB_TYPE_STANDARD, USB_TYPE_CLASS, USB_TYPE_VENDOR]) \<and>
     distinct (map (macro K) [USB_RECIP_DEVICE, USB_RECIP_INTERFACE, USB_RECIP_ENDPOINT,
       USB_RECIP_OTHER]) \<and>
     distinct (map (macro K) [USB_DT_DEVICE, USB_DT_CONFIG, USB_DT_STRING, USB_DT_INTERFACE,
       USB_DT_ENDPOINT])"

text \<open>A pipe is an input or an output pipe, never both.\<close>

definition pipe_directions :: "kenv \<Rightarrow> bool" where
  "pipe_directions K \<longleftrightarrow> (\<forall>p. (usb_pipein K p \<noteq> 0) = (usb_pipeout K p = 0))"

text \<open>Every descriptor starts with \<open>bLength\<close> and \<open>bDescriptorType\<close>, one byte each.\<close>

definition header_layout :: "kenv \<Rightarrow> bool" where
  "header_layout K \<longleftrightarrow>
     field_at K DH_bLength = (0, 1) \<and> field_at K DH_bDescriptorType = (1, 1) \<and>
     field_at K CD_bLength = (0, 1) \<and> field_at K SD_bLength = (0, 1)"

text \<open>
  \<open>simple_strtoul\<close> in base 10 or 0 (automatic): it always needs one more character than the
  number has, it takes nothing where no number starts, and it reads a decimal numeral (in base
  10 also one padded with zeros) that ends before a character that is no letter or digit. It never
  reads past a NUL.
\<close>

definition is_alnum :: "char \<Rightarrow> bool" where
  "is_alnum c \<longleftrightarrow> (let n = (of_char c :: nat) in
     (48 \<le> n \<and> n \<le> 57) \<or> (65 \<le> n \<and> n \<le> 90) \<or> (97 \<le> n \<and> n \<le> 122))"

definition strtoul_ok :: "kenv \<Rightarrow> bool" where
  "strtoul_ok K \<longleftrightarrow>
     (\<forall>s b v n. simple_strtoul K s b = Some (v, n) \<longrightarrow> n < length s) \<and>
     (\<forall>c s b. b \<in> {0, 10} \<and> \<not> is_alnum c \<longrightarrow> simple_strtoul K (c # s) b = Some (0, 0)) \<and>
     (\<forall>m w c s. m < 2 ^ 32 \<and> \<not> is_alnum c \<longrightarrow>
        simple_strtoul K (zpad w (fmt_nat m) @ c # s) 10 =
          Some (of_nat m, length (zpad w (fmt_nat m)))) \<and>
     (\<forall>m c s. m < 2 ^ 32 \<and> \<not> is_alnum c \<longrightarrow>
        simple_strtoul K (fmt_nat m @ c # s) 0 = Some (of_nat m, length (fmt_nat m))) \<and>
     (\<forall>s r b. b \<in> {0, 10} \<and> CHR 0x00 \<notin> set s \<longrightarrow>
        (\<exists>v n. simple_strtoul K (s @ CHR 0x00 # r) b = Some (v, n) \<and> n \<le> length s))"

lemma strtoul_stops:
  "strtoul_ok K \<Longrightarrow> simple_strtoul K s b = Some (v, n) \<Longrightarrow> n < length s"
  by (auto simp: strtoul_ok_def)

lemma strtoul_none_taken:
  "strtoul_ok K \<Longrightarrow> b \<in> {0, 10} \<Longrightarrow> \<not> is_alnum c \<Longrightarrow> simple_strtoul K (c # s) b = Some (0, 0)"
  by (auto simp: strtoul_ok_def)

lemma strtoul_padded:
  "strtoul_ok K \<Longrightarrow> m < 2 ^ 32 \<Longrightarrow> \<not> is_alnum c \<Longrightarrow>
   simple_strtoul K (zpad w (fmt_nat m) @ c # s) 10 = Some (of_nat m, length (zpad w (fmt_nat m)))"
  by (simp add: strtoul_ok_def)

lemma zpad_0 [simp]: "zpad 0 s = s"
  by (simp add: zpad_def)

lemma strtoul_numeral:
  assumes "strtoul_ok K" "b \<in> {0, 10}" "m < 2 ^ 32" "\<not> is_alnum c"
  shows "simple_strtoul K (fmt_nat m @ c # s) b = Some (of_nat m, length (fmt_nat m))"
  using assms strtoul_padded[of K m c 0 s] by (auto simp: strtoul_ok_def)

lemma strtoul_NUL:
  "strtoul_ok K \<Longrightarrow> b \<in> {0, 10} \<Longrightarrow> CHR 0x00 \<notin> set s \<Longrightarrow>
   \<exists>v n. simple_strtoul K (s @ CHR 0x00 # r) b = Some (v, n) \<and> n \<le> length s"
  unfolding strtoul_ok_def by blast

section \<open>A concrete environment\<close>

fun xdigit_value :: "char \<Rightarrow> nat option" where
  "xdigit_value c = (let n = of_char c in
     if 48 \<le> n \<and> n \<le> 57 then Some (n - 48)
     else if 97 \<le> n \<and> n \<le> 102 then Some (n - 87)
     else if 65 \<le> n \<and> n \<le> 70 then Some (n - 55)
     else None)"

fun scan_digits :: "nat \<Rightarrow> u32 \<Rightarrow> nat \<Rightarrow> string \<Rightarrow> (u32 \<times> nat) option" where
  "scan_digits b acc n [] = None"
| "scan_digits b acc n (c # cs) =
     (case xdigit_value c of
        None \<Rightarrow> Some (acc, n)
      | Some d \<Rightarrow> if d < b then scan_digits b (acc * of_nat b + of_nat d) (Suc n) cs
                 else Some (acc, n))"

fun linux_strtoul :: "string \<Rightarrow> nat \<Rightarrow> (u32 \<times> nat) option" where
  "linux_strtoul s b =
     (if b \<noteq> 0 then scan_digits b 0 0 s
      else case s of
        [] \<Rightarrow> None
      | c # cs \<Rightarrow>
          if c \<noteq> CHR ''0'' then scan_digits 10 0 0 s
          else case cs of
            [] \<Rightarrow> None
          | x # ys \<Rightarrow>
              if x \<noteq> CHR ''x'' then scan_digits 8 0 1 cs
              else case ys of
                [] \<Rightarrow> None
              | h # _ \<Rightarrow> if xdigit_value h = None then scan_digits 8 0 1 cs
                        else scan_digits 16 0 2 ys)"

primrec linux_macro :: "kmacro \<Rightarrow> u32" where
  "linux_macro PIPE_ISOCHRONOUS = 0"
| "linux_macro PIPE_INTERRUPT = 1"
| "linux_macro PIPE_CONTROL = 2"
| "linux_macro PIPE_BULK = 3"
| "linux_macro USB_DIR_IN = 0x80"
| "linux_macro USB_TYPE_STANDARD = 0x00"
| "linux_macro USB_TYPE_CLASS = 0x20"
| "linux_macro USB_TYPE_VENDOR = 0x40"
| "linux_macro USB_RECIP_MASK = 0x1f"
| "linux_macro USB_RECIP_DEVICE = 0x00"
| "linux_macro USB_RECIP_INTERFACE = 0x01"
| "linux_macro USB_RECIP_ENDPOINT = 0x02"
| "linux_macro USB_RECIP_OTHER = 0x03"
| "linux_macro USB_REQ_GET_STATUS = 0x00"
| "linux_macro USB_REQ_CLEAR_FEATURE = 0x01"
| "linux_macro USB_REQ_SET_FEATURE = 0x03"
| "linux_macro USB_REQ_SET_ADDRESS = 0x05"
| "linux_macro USB_REQ_GET_DESCRIPTOR = 0x06"
| "linux_macro USB_REQ_SET_DESCRIPTOR = 0x07"
| "linux_macro USB_REQ_GET_CONFIGURATION = 0x08"
| "linux_macro USB_REQ_SET_CONFIGURATION = 0x09"
| "linux_macro USB_REQ_GET_INTERFACE = 0x0A"
| "linux_macro USB_REQ_SET_INTERFACE = 0x0B"
| "linux_macro USB_REQ_SYNCH_FRAME = 0x0C"
| "linux_macro USB_DT_DEVICE = 0x01"
| "linux_macro USB_DT_CONFIG = 0x02"
| "linux_macro USB_DT_STRING = 0x03"
| "linux_macro USB_DT_INTERFACE = 0x04"
| "linux_macro USB_DT_ENDPOINT = 0x05"
| "linux_macro USB_DT_DEVICE_SIZE = 18"
| "linux_macro USB_DT_CONFIG_SIZE = 9"
| "linux_macro USB_DT_INTERFACE_SIZE = 9"
| "linux_macro USB_DT_ENDPOINT_SIZE = 7"
| "linux_macro USB_DT_ENDPOINT_AUDIO_SIZE = 9"
| "linux_macro USB_CLASS_AUDIO = 1"
| "linux_macro USB_CLASS_COMM = 2"
| "linux_macro USB_CLASS_HID = 3"
| "linux_macro USB_CLASS_PRINTER = 7"
| "linux_macro USB_CLASS_MASS_STORAGE = 8"
| "linux_macro USB_CLASS_HUB = 9"
| "linux_macro USB_CLASS_VENDOR_SPEC = 0xff"

primrec linux_field_at :: "usb_field \<Rightarrow> nat \<times> nat" where
  "linux_field_at DR_requesttype = (0, 1)"
| "linux_field_at DR_request = (1, 1)"
| "linux_field_at DR_value = (2, 2)"
| "linux_field_at DR_index = (4, 2)"
| "linux_field_at DR_length = (6, 2)"
| "linux_field_at DH_bLength = (0, 1)"
| "linux_field_at DH_bDescriptorType = (1, 1)"
| "linux_field_at DD_bLength = (0, 1)"
| "linux_field_at DD_bDescriptorType = (1, 1)"
| "linux_field_at DD_bcdUSB = (2, 2)"
| "linux_field_at DD_bDeviceClass = (4, 1)"
| "linux_field_at DD_bDeviceSubClass = (5, 1)"
| "linux_field_at DD_bDeviceProtocol = (6, 1)"
| "linux_field_at DD_bMaxPacketSize0 = (7, 1)"
| "linux_field_at DD_idVendor = (8, 2)"
| "linux_field_at DD_idProduct = (10, 2)"
| "linux_field_at DD_bcdDevice = (12, 2)"
| "linux_field_at DD_iManufacturer = (14, 1)"
| "linux_field_at DD_iProduct = (15, 1)"
| "linux_field_at DD_iSerialNumber = (16, 1)"
| "linux_field_at DD_bNumConfigurations = (17, 1)"
| "linux_field_at CD_bLength = (0, 1)"
| "linux_field_at CD_bDescriptorType = (1, 1)"
| "linux_field_at CD_wTotalLength = (2, 2)"
| "linux_field_at CD_bNumInterfaces = (4, 1)"
| "linux_field_at CD_bConfigurationValue = (5, 1)"
| "linux_field_at CD_iConfiguration = (6, 1)"
| "linux_field_at CD_bmAttributes = (7, 1)"
| "linux_field_at CD_MaxPower = (8, 1)"
| "linux_field_at SD_bLength = (0, 1)"
| "linux_field_at SD_bDescriptorType = (1, 1)"
| "linux_field_at SD_wData = (2, 2)"
| "linux_field_at ID_bLength = (0, 1)"
| "linux_field_at ID_bDescriptorType = (1, 1)"
| "linux_field_at ID_bInterfaceNumber = (2, 1)"
| "linux_field_at ID_bAlternateSetting = (3, 1)"
| "linux_field_at ID_bNumEndpoints = (4, 1)"
| "linux_field_at ID_bInterfaceClass = (5, 1)"
| "linux_field_at ID_bInterfaceSubClass = (6, 1)"
| "linux_field_at ID_bInterfaceProtocol = (7, 1)"
| "linux_field_at ID_iInterface = (8, 1)"
| "linux_field_at ED_bLength = (0, 1)"
| "linux_field_at ED_bDescriptorType = (1, 1)"
| "linux_field_at ED_bEndpointAddress = (2, 1)"
| "linux_field_at ED_bmAttributes = (3, 1)"
| "linux_field_at ED_wMaxPacketSize = (4, 2)"
| "linux_field_at ED_bInterval = (6, 1)"
| "linux_field_at ED_bRefresh = (7, 1)"
| "linux_field_at ED_bSynchAddress = (8, 1)"

definition linux_env :: kenv where
  "linux_env = \<lparr>macro = linux_macro, field_at = linux_field_at,
     usb_pipetype = (\<lambda>p. (drop_bit 30 p) AND 3),
     usb_pipeendpoint = (\<lambda>p. (drop_bit 15 p) AND 0xf),
     usb_pipedevice = (\<lambda>p. (drop_bit 8 p) AND 0x7f),
     usb_pipeout = (\<lambda>p. ((drop_bit 7 p) AND 1) XOR 1),
     usb_pipein = (\<lambda>p. (drop_bit 7 p) AND 1),
     usb_pipeint = (\<lambda>p. if (drop_bit 30 p) AND 3 = 1 then 1 else 0),
     isprint_k = (\<lambda>b. 0x20 \<le> b \<and> b \<le> 0x7e),
     KERN_DEBUG_str = ''<7>'',
     simple_strtoul = linux_strtoul, behind_copy = (\<lambda>_. replicate 32 0)\<rparr>"

end
