(* ===== verification/Alloc_Interface.thy ===== *)
theory Alloc_Interface
  imports Prelude
begin

text \<open>
  The contract between the IOP-memory allocator and its clients (the URB code of the PS2 port and
  the TD/ED code of the OHCI core, which all go through \<open>AllocLocalMem\<close> and \<open>FreeLocalMem\<close>):
  the allocated blocks are a set of address/size pairs, a request adds one fresh block, a release
  takes exactly that block away. The client lemmas are proved here once and used through the
  interpretation on the model of \<open>portable-ohci-ps2.c\<close>.
\<close>

locale block_allocator =
  fixes alloc :: "'e \<Rightarrow> int \<Rightarrow> 's \<Rightarrow> 'x + (int option \<times> 's)"
    and release :: "int \<Rightarrow> 's \<Rightarrow> bool \<times> 's"
    and live :: "'s \<Rightarrow> (int \<times> int) set"
    and inv :: "'s \<Rightarrow> bool"
    and env_ok :: "'e \<Rightarrow> 's \<Rightarrow> bool"
  assumes alloc_inv: "inv s \<Longrightarrow> env_ok e s \<Longrightarrow> 0 < n \<Longrightarrow> alloc e n s = Inr (r, s') \<Longrightarrow> inv s'"
    and alloc_live: "inv s \<Longrightarrow> env_ok e s \<Longrightarrow> 0 < n \<Longrightarrow> alloc e n s = Inr (Some p, s') \<Longrightarrow>
      \<exists>m. n \<le> m \<and> live s' = insert (p, m) (live s) \<and>
          (\<forall>(q, k) \<in> live s. q + k \<le> p \<or> p + m \<le> q)"
    and alloc_none: "inv s \<Longrightarrow> env_ok e s \<Longrightarrow> 0 < n \<Longrightarrow> alloc e n s = Inr (None, s') \<Longrightarrow> live s' = live s"
    and release_inv: "inv s \<Longrightarrow> release p s = (b, s') \<Longrightarrow> inv s'"
    and release_live: "inv s \<Longrightarrow> (p, m) \<in> live s \<Longrightarrow> release p s = (b, s') \<Longrightarrow>
      b \<and> live s' = live s - {(p, m)}"
    and release_miss: "inv s \<Longrightarrow> p \<notin> fst ` live s \<Longrightarrow> release p s = (b, s') \<Longrightarrow> \<not> b \<and> s' = s"
    and live_pos: "inv s \<Longrightarrow> (p, m) \<in> live s \<Longrightarrow> 0 < p \<and> 0 < m"
begin

lemma alloc_fresh:
  assumes "inv s" "env_ok e s" "0 < n" "alloc e n s = Inr (Some p, s')"
  shows "p \<notin> fst ` live s"
proof
  obtain m where m: "n \<le> m" "\<forall>(q, k) \<in> live s. q + k \<le> p \<or> p + m \<le> q"
    using alloc_live[OF assms] by blast
  assume "p \<in> fst ` live s"
  then obtain k where "(p, k) \<in> live s" by auto
  with m assms(3) live_pos[OF assms(1) this] show False by force
qed

lemma alloc_positive:
  assumes "inv s" "env_ok e s" "0 < n" "alloc e n s = Inr (Some p, s')"
  shows "0 < p"
proof -
  obtain m where "live s' = insert (p, m) (live s)" using alloc_live[OF assms] by blast
  then show ?thesis using live_pos[OF alloc_inv[OF assms]] by blast
qed

lemma alloc_release:
  assumes "inv s" "env_ok e s" "0 < n" "alloc e n s = Inr (Some p, s1)" "release p s1 = (b, s2)"
  shows "b \<and> live s2 = live s"
proof -
  obtain m where m: "live s1 = insert (p, m) (live s)" using alloc_live[OF assms(1-4)] by blast
  have "b \<and> live s2 = live s1 - {(p, m)}"
    by (rule release_live[OF alloc_inv[OF assms(1-4)] _ assms(5)]) (simp add: m)
  moreover have "(p, m) \<notin> live s" using alloc_fresh[OF assms(1-4)] by force
  ultimately show ?thesis using m by simp
qed

text \<open>Two requests released in the order they were made leave no block behind.\<close>

lemma alloc2_release2:
  assumes inv: "inv s" and e1: "env_ok e1 s" and n1: "0 < n1"
    and a1: "alloc e1 n1 s = Inr (Some p, s1)"
    and e2: "env_ok e2 s1" and n2: "0 < n2" and a2: "alloc e2 n2 s1 = Inr (Some q, s2)"
    and r1: "release p s2 = (b1, s3)" and r2: "release q s3 = (b2, s4)"
  shows "b1 \<and> b2 \<and> p \<noteq> q \<and> live s4 = live s"
proof -
  note i1 = alloc_inv[OF inv e1 n1 a1]
  note i2 = alloc_inv[OF i1 e2 n2 a2]
  obtain m where m: "live s1 = insert (p, m) (live s)" using alloc_live[OF inv e1 n1 a1] by blast
  obtain k where k: "live s2 = insert (q, k) (live s1)" using alloc_live[OF i1 e2 n2 a2] by blast
  have p: "p \<notin> fst ` live s" by (rule alloc_fresh[OF inv e1 n1 a1])
  have q: "q \<notin> fst ` live s1" by (rule alloc_fresh[OF i1 e2 n2 a2])
  have "b1 \<and> live s3 = live s2 - {(p, m)}"
    by (rule release_live[OF i2 _ r1]) (simp add: m k)
  moreover from this have "b2 \<and> live s4 = live s3 - {(q, k)}"
    using q m k by (intro release_live[OF release_inv[OF i2 r1] _ r2]) auto
  ultimately show ?thesis using p q m k by (auto simp: image_iff)
qed

end

end
