(* ===== verification/Local_Mem.thy ===== *)
theory Local_Mem
  imports Alloc_Interface "HOL-Library.Multiset"
begin

text \<open>
  The IOP-memory allocator of \<open>portable-ohci-ps2.c\<close>: 64K arenas are taken from the IOP heap
  (\<open>GrowLocalMem\<close>) and cut into blocks, which are on \<open>FreeList\<close> or on \<open>AllocList\<close>
  (\<open>AllocLocalMem\<close>, \<open>FreeLocalMem\<close>). Every TD and every DMA buffer of the driver is such
  a block.

  The linked lists of \<open>struct mb\<close> nodes are HOL lists in link order. Addresses are integers,
  0 is \<open>NULL\<close>. The services of the kernel a call may use are arguments: whether each
  \<open>kmalloc\<close> succeeds, what \<open>ps2sif_allociopheap\<close> returns (0 is failure), and the address
  translation \<open>b2v\<close> (\<open>ps2sif_bustovirt\<close>). The model keeps, beside the state of the
  code, the live IOP allocations and the number of live \<open>struct mb\<close> nodes.
\<close>

section \<open>State\<close>

type_synonym addr = int

record mb =
  mb_p :: addr
  mb_size :: int

record local_mem =
  local_mems :: "u32 list"
  nlocal_mems :: nat
  insufficient_local_mem :: nat
  FreeList :: "mb list"
  AllocList :: "mb list"
  iop_live :: "u32 list"
  mb_nodes :: nat
  lm_log :: "kmsg list"

datatype mem_err = Array_overflow

datatype errno = EINVAL | ENODEV | ENOMEM | EBUSY

definition LOCAL_MEM_UNIT :: int where "LOCAL_MEM_UNIT = 64 * 1024"
definition MAX_LOCAL_MEM :: int where "MAX_LOCAL_MEM = 1024 * 1024"

definition MAX_ARENAS :: nat where "MAX_ARENAS = nat (MAX_LOCAL_MEM div LOCAL_MEM_UNIT)"

definition local_mem_init :: local_mem where
  "local_mem_init = \<lparr>local_mems = replicate MAX_ARENAS 0, nlocal_mems = 0,
     insufficient_local_mem = 0, FreeList = [], AllocList = [], iop_live = [], mb_nodes = 0,
     lm_log = []\<rparr>"

text \<open>What the kernel answers during one call.\<close>

record grow_in =
  grow_kmalloc :: bool
  grow_iop :: u32

record alloc_in =
  in_interrupt :: bool
  grow1 :: grow_in
  grow2 :: grow_in
  split_kmalloc :: bool

section \<open>Operations\<close>

definition lm_warn :: "local_mem \<Rightarrow> local_mem" where
  "lm_warn s = s\<lparr>lm_log := lm_log s @ [Printk KERN_WARNING ''GrowLocalMem: failed.'']\<rparr>"

text \<open>\<open>GrowLocalMem\<close>: \<open>None\<close> is the return value 0, \<open>Some e\<close> is \<open>-e\<close>.\<close>

definition GrowLocalMem ::
  "(u32 \<Rightarrow> addr) \<Rightarrow> grow_in \<Rightarrow> local_mem \<Rightarrow> mem_err + (errno option \<times> local_mem)" where
  "GrowLocalMem b2v g s =
     (if MAX_ARENAS < nlocal_mems s then Inr (Some ENOMEM, lm_warn s)
      else if \<not> grow_kmalloc g then Inr (Some ENOMEM, lm_warn s)
      else if length (local_mems s) \<le> nlocal_mems s then Inl Array_overflow
      else let s1 = s\<lparr>local_mems := (local_mems s)[nlocal_mems s := grow_iop g]\<rparr> in
        if grow_iop g = 0 then Inr (Some ENOMEM, lm_warn s1)
        else Inr (None, s1\<lparr>
          iop_live := grow_iop g # iop_live s,
          lm_log := lm_log s @ [Printk KERN_DEBUG ''GrowLocalMem 64K bytes''],
          mb_nodes := Suc (mb_nodes s),
          nlocal_mems := Suc (nlocal_mems s),
          FreeList := \<lparr>mb_p = b2v (grow_iop g), mb_size = LOCAL_MEM_UNIT\<rparr> # FreeList s\<rparr>))"

text \<open>\<open>CleanupLocalMem\<close>: the loop \<open>while (0 < nlocal_mems)\<close>.\<close>

fun cleanup_loop :: "nat \<Rightarrow> local_mem \<Rightarrow> mem_err + local_mem" where
  "cleanup_loop 0 s = Inr s"
| "cleanup_loop (Suc n) s =
     (if length (local_mems s) \<le> n then Inl Array_overflow
      else cleanup_loop n (s\<lparr>nlocal_mems := n, iop_live := remove1 (local_mems s ! n) (iop_live s)\<rparr>))"

definition CleanupLocalMem :: "local_mem \<Rightarrow> mem_err + local_mem" where
  "CleanupLocalMem s = cleanup_loop (nlocal_mems s) s"

text \<open>
  A walk over a list with \<open>prev\<close> and \<open>current\<close> that stops at the first node with some
  property is \<open>List.extract\<close>: the nodes before, the node, the nodes after.
\<close>

definition FreeLocalMem :: "addr \<Rightarrow> local_mem \<Rightarrow> bool \<times> local_mem" where
  "FreeLocalMem p s =
     (if p = 0 then (False, s)
      else case List.extract (\<lambda>m. mb_p m = p) (AllocList s) of
        None \<Rightarrow> (False, s)
      | Some (pre, current, post) \<Rightarrow>
          (case List.extract (\<lambda>m. mb_p m + mb_size m = mb_p current) (FreeList s) of
             Some (fpre, current2, fpost) \<Rightarrow>
               (True, s\<lparr>FreeList := fpre @ current2\<lparr>mb_size := mb_size current2 + mb_size current\<rparr> # fpost,
                        AllocList := pre @ post,
                        mb_nodes := mb_nodes s - 1\<rparr>)
           | None \<Rightarrow>
               (True, s\<lparr>AllocList := pre @ post, FreeList := current # FreeList s\<rparr>)))"

text \<open>\<open>((size + 255)/256)*256\<close>, with the division of C.\<close>

definition size256 :: "int \<Rightarrow> int" where
  "size256 n = ((n + 255) sdiv 256) * 256"

text \<open>The part of \<open>AllocLocalMem\<close> before the lock: grow when an earlier request found too
  little memory (never in an interrupt).\<close>

definition alloc_grow :: "(u32 \<Rightarrow> addr) \<Rightarrow> bool \<Rightarrow> grow_in \<Rightarrow> local_mem \<Rightarrow> mem_err + local_mem" where
  "alloc_grow b2v irq g s =
     (if \<not> irq \<and> insufficient_local_mem s \<noteq> 0
      then (case GrowLocalMem b2v g (s\<lparr>insufficient_local_mem := 0\<rparr>) of
              Inl e \<Rightarrow> Inl e | Inr (_, s') \<Rightarrow> Inr s')
      else Inr s)"

text \<open>The walk over \<open>FreeList\<close>: \<open>None\<close> where no block is large enough (the loop ends),
  otherwise the pointer that is returned.\<close>

definition alloc_scan :: "bool \<Rightarrow> int \<Rightarrow> local_mem \<Rightarrow> (addr option \<times> local_mem) option" where
  "alloc_scan kmalloc_ok n s =
     (case List.extract (\<lambda>m. mb_size m = n \<or> n < mb_size m) (FreeList s) of
        None \<Rightarrow> None
      | Some (pre, current, post) \<Rightarrow>
          if mb_size current = n
          then Some (Some (mb_p current),
                 s\<lparr>FreeList := pre @ post, AllocList := current # AllocList s\<rparr>)
          else let p = mb_p current + (mb_size current - n);
                   s1 = s\<lparr>FreeList := pre @ current\<lparr>mb_size := mb_size current - n\<rparr> # post\<rparr>
            in if \<not> kmalloc_ok then Some (None, s1)
               else Some (Some p, s1\<lparr>AllocList := \<lparr>mb_p = p, mb_size = n\<rparr> # AllocList s,
                                     mb_nodes := Suc (mb_nodes s)\<rparr>))"

definition AllocLocalMem ::
  "(u32 \<Rightarrow> addr) \<Rightarrow> alloc_in \<Rightarrow> int \<Rightarrow> local_mem \<Rightarrow> mem_err + (addr option \<times> local_mem)" where
  "AllocLocalMem b2v e sz s =
     (let n = size256 sz in
      case alloc_grow b2v (in_interrupt e) (grow1 e) s of
        Inl x \<Rightarrow> Inl x
      | Inr s1 \<Rightarrow>
        (case alloc_scan (split_kmalloc e) n s1 of
           Some r \<Rightarrow> Inr r
         | None \<Rightarrow>
           (case alloc_grow b2v (in_interrupt e) (grow2 e)
                   (s1\<lparr>insufficient_local_mem := Suc (insufficient_local_mem s1)\<rparr>) of
              Inl x \<Rightarrow> Inl x
            | Inr s2 \<Rightarrow>
              (case alloc_scan (split_kmalloc e) n s2 of
                 Some r \<Rightarrow> Inr r
               | None \<Rightarrow> Inr (None, s2\<lparr>insufficient_local_mem := Suc (insufficient_local_mem s2)\<rparr>)))))"

subsection \<open>The controller and device structures\<close>

text \<open>\<open>Portable_AllocateOhci\<close>: \<open>addr\<close> is what the second \<open>ps2sif_allociopheap\<close> returns.
  On its failure \<open>kfree(FreeList)\<close> frees the first node of the list.\<close>

definition Portable_AllocateOhci ::
  "(u32 \<Rightarrow> addr) \<Rightarrow> grow_in \<Rightarrow> u32 \<Rightarrow> local_mem \<Rightarrow> mem_err + (addr option \<times> local_mem)" where
  "Portable_AllocateOhci b2v g a s =
     (case GrowLocalMem b2v g s of
        Inl e \<Rightarrow> Inl e
      | Inr (Some _, s1) \<Rightarrow> Inr (None, s1)
      | Inr (None, s1) \<Rightarrow>
          if a = 0
          then (case CleanupLocalMem s1 of
                  Inl e \<Rightarrow> Inl e
                | Inr s2 \<Rightarrow> Inr (None, s2\<lparr>FreeList := [],
                      mb_nodes := mb_nodes s2 - (if FreeList s2 = [] then 0 else 1)\<rparr>))
          else Inr (Some (b2v a), s1\<lparr>iop_live := a # iop_live s1\<rparr>))"

definition Portable_FreeOhci ::
  "(addr \<Rightarrow> u32) \<Rightarrow> addr option \<Rightarrow> local_mem \<Rightarrow> mem_err + local_mem" where
  "Portable_FreeOhci v2b ohci s =
     (let s1 = (case ohci of None \<Rightarrow> s | Some p \<Rightarrow> s\<lparr>iop_live := remove1 (v2b p) (iop_live s)\<rparr>) in
      case CleanupLocalMem s1 of
        Inl e \<Rightarrow> Inl e
      | Inr s2 \<Rightarrow>
          let s3 = s2\<lparr>mb_nodes := mb_nodes s2 - length (FreeList s2), FreeList := []\<rparr> in
          Inr (s3\<lparr>mb_nodes := mb_nodes s3 - length (AllocList s3), AllocList := []\<rparr>))"

definition Portable_AllocateDevice ::
  "(u32 \<Rightarrow> addr) \<Rightarrow> u32 \<Rightarrow> local_mem \<Rightarrow> addr option \<times> local_mem" where
  "Portable_AllocateDevice b2v a s =
     (if a \<noteq> 0 then (Some (b2v a), s\<lparr>iop_live := a # iop_live s\<rparr>) else (None, s))"

definition Portable_FreeDevice :: "(addr \<Rightarrow> u32) \<Rightarrow> addr option \<Rightarrow> local_mem \<Rightarrow> local_mem" where
  "Portable_FreeDevice v2b dev s =
     (case dev of None \<Rightarrow> s | Some p \<Rightarrow> s\<lparr>iop_live := remove1 (v2b p) (iop_live s)\<rparr>)"

section \<open>The invariant\<close>

text \<open>
  Every block has a positive size that is a multiple of 256, lies in memory taken from the IOP
  heap, and no two blocks (free or allocated) overlap. One \<open>struct mb\<close> node is live per block.
\<close>

definition block_range :: "mb \<Rightarrow> int set" where
  "block_range m = {mb_p m ..< mb_p m + mb_size m}"

definition apart :: "mb \<Rightarrow> mb \<Rightarrow> bool" where
  "apart a b \<longleftrightarrow> mb_p a + mb_size a \<le> mb_p b \<or> mb_p b + mb_size b \<le> mb_p a"

definition good_block :: "mb \<Rightarrow> bool" where
  "good_block m \<longleftrightarrow> 0 < mb_p m \<and> 0 < mb_size m \<and> 256 dvd mb_size m"

definition arena_block :: "(u32 \<Rightarrow> addr) \<Rightarrow> u32 \<Rightarrow> mb" where
  "arena_block b2v a = \<lparr>mb_p = b2v a, mb_size = LOCAL_MEM_UNIT\<rparr>"

definition arenas :: "local_mem \<Rightarrow> u32 list" where
  "arenas s = take (nlocal_mems s) (local_mems s)"

definition arena_bytes :: "(u32 \<Rightarrow> addr) \<Rightarrow> local_mem \<Rightarrow> int set" where
  "arena_bytes b2v s = (\<Union>a \<in> set (arenas s). block_range (arena_block b2v a))"

definition bytes_of :: "mb list \<Rightarrow> int set" where
  "bytes_of ms = (\<Union>m \<in> set ms. block_range m)"

definition mb_blocks :: "local_mem \<Rightarrow> mb list" where
  "mb_blocks s = FreeList s @ AllocList s"

definition blocks_ok :: "mb list \<Rightarrow> int set \<Rightarrow> bool" where
  "blocks_ok ms A \<longleftrightarrow>
     (\<forall>m \<in> set ms. good_block m) \<and> sorted_wrt apart ms \<and> bytes_of ms \<subseteq> A"

definition lm_inv :: "(u32 \<Rightarrow> addr) \<Rightarrow> local_mem \<Rightarrow> bool" where
  "lm_inv b2v s \<longleftrightarrow>
     blocks_ok (mb_blocks s) (arena_bytes b2v s) \<and>
     length (local_mems s) = MAX_ARENAS \<and> nlocal_mems s \<le> MAX_ARENAS \<and>
     mb_nodes s = length (mb_blocks s)"

text \<open>What the driver relies on of the IOP heap: a new arena has a positive address and is apart
  from the arenas it already has.\<close>

definition fresh_arena :: "(u32 \<Rightarrow> addr) \<Rightarrow> u32 list \<Rightarrow> u32 \<Rightarrow> bool" where
  "fresh_arena b2v as a \<longleftrightarrow> a = 0 \<or>
     (0 < b2v a \<and> (\<forall>x \<in> set as. apart (arena_block b2v x) (arena_block b2v a)))"

definition iop_heap_ok :: "(u32 \<Rightarrow> addr) \<Rightarrow> alloc_in \<Rightarrow> local_mem \<Rightarrow> bool" where
  "iop_heap_ok b2v e s \<longleftrightarrow>
     fresh_arena b2v (arenas s) (grow_iop (grow1 e)) \<and>
     fresh_arena b2v (grow_iop (grow1 e) # arenas s) (grow_iop (grow2 e))"

subsection \<open>Blocks and lists\<close>

lemma apart_sym: "apart a b = apart b a"
  by (auto simp: apart_def)

lemma apart_disjoint: "apart a b \<Longrightarrow> block_range a \<inter> block_range b = {}"
  by (auto simp: apart_def block_range_def)

lemma disjoint_apart:
  assumes "good_block a" "good_block b" "block_range a \<inter> block_range b = {}"
  shows "apart a b"
proof (rule ccontr)
  assume "\<not> apart a b"
  then have "max (mb_p a) (mb_p b) \<in> block_range a \<inter> block_range b"
    using assms(1,2) by (auto simp: apart_def block_range_def good_block_def max_def)
  with assms(3) show False by simp
qed

lemma sorted_wrt_apart_move:
  "sorted_wrt apart (xs @ m # ys) \<longleftrightarrow> sorted_wrt apart (m # xs @ ys)"
  by (auto simp: sorted_wrt_append apart_sym)

lemma sorted_wrt_apart_perm:
  "mset xs = mset ys \<Longrightarrow> sorted_wrt apart xs \<longleftrightarrow> sorted_wrt apart ys"
proof (induction xs arbitrary: ys)
  case Nil
  then show ?case by simp
next
  case (Cons m xs)
  then obtain ps qs where ys: "ys = ps @ m # qs"
    by (metis list.set_intros(1) mset_eq_setD split_list)
  with Cons.prems have xs: "mset xs = mset (ps @ qs)" by simp
  from Cons.IH[OF xs] mset_eq_setD[OF xs] show ?case
    unfolding ys sorted_wrt_apart_move by simp
qed

lemma bytes_of_simps [simp]:
  "bytes_of [] = {}" "bytes_of (m # ms) = block_range m \<union> bytes_of ms"
  "bytes_of (ms @ ns) = bytes_of ms \<union> bytes_of ns"
  by (auto simp: bytes_of_def)

lemma extract_Some_list:
  "List.extract P xs = Some (ys, y, zs) \<Longrightarrow> xs = ys @ y # zs \<and> P y \<and> (\<forall>x \<in> set ys. \<not> P x)"
  by (simp add: extract_Some_iff)

lemma size256_round:
  assumes "0 < n" shows "n \<le> size256 n" "256 dvd size256 n" "0 < size256 n" "size256 n < n + 256"
proof -
  have "(n + 255) sdiv 256 = (n + 255) div 256"
    using assms by (simp add: signed_divide_int_def sgn_if)
  then show "n \<le> size256 n" "256 dvd size256 n" "0 < size256 n" "size256 n < n + 256"
    using assms by (auto simp: size256_def)
qed

lemma blocks_ok_perm: "mset xs = mset ys \<Longrightarrow> blocks_ok xs A \<longleftrightarrow> blocks_ok ys A"
  using sorted_wrt_apart_perm[of xs ys] mset_eq_setD[of xs ys]
  by (auto simp: blocks_ok_def bytes_of_def)

lemma blocks_ok_drop: "blocks_ok (m # ms) A \<Longrightarrow> blocks_ok ms A"
  by (auto simp: blocks_ok_def)

lemma apart_sub:
  "apart m x \<Longrightarrow> mb_p m \<le> mb_p c \<Longrightarrow> mb_p c + mb_size c \<le> mb_p m + mb_size m \<Longrightarrow> apart c x"
  unfolding apart_def by linarith

lemma apart_join:
  "apart a x \<Longrightarrow> apart b x \<Longrightarrow> 0 < mb_size x \<Longrightarrow> mb_p a + mb_size a = mb_p b \<Longrightarrow>
   mb_p c = mb_p a \<Longrightarrow> mb_size c = mb_size a + mb_size b \<Longrightarrow> apart c x"
  unfolding apart_def by linarith

lemma bytes_split:
  "0 \<le> n \<Longrightarrow> n \<le> mb_size m \<Longrightarrow>
   block_range (m\<lparr>mb_size := mb_size m - n\<rparr>) \<union>
   block_range \<lparr>mb_p = mb_p m + (mb_size m - n), mb_size = n\<rparr> = block_range m"
  by (auto simp: block_range_def)

lemma bytes_merge:
  "0 \<le> mb_size a \<Longrightarrow> 0 \<le> mb_size b \<Longrightarrow> mb_p a + mb_size a = mb_p b \<Longrightarrow>
   block_range (a\<lparr>mb_size := mb_size a + mb_size b\<rparr>) = block_range a \<union> block_range b"
  by (auto simp: block_range_def)

lemma blocks_ok_split:
  assumes ok: "blocks_ok (m # ms) A" and n: "0 < n" "n < mb_size m" "256 dvd n"
  shows "blocks_ok (m\<lparr>mb_size := mb_size m - n\<rparr> #
           \<lparr>mb_p = mb_p m + (mb_size m - n), mb_size = n\<rparr> # ms) A" (is "blocks_ok (?l # ?r # ms) A")
proof -
  have m: "good_block m" "\<forall>x \<in> set ms. apart m x" "bytes_of (m # ms) \<subseteq> A"
    and ms: "\<forall>x \<in> set ms. good_block x" "sorted_wrt apart ms"
    using ok by (auto simp: blocks_ok_def)
  have "good_block ?l" "good_block ?r"
    using m(1) n by (auto simp: good_block_def dvd_diff)
  moreover have "apart ?l ?r" by (simp add: apart_def)
  moreover have "\<forall>x \<in> set ms. apart ?l x" "\<forall>x \<in> set ms. apart ?r x"
    using m(2) n by (auto elim!: apart_sub)
  moreover have "bytes_of (?l # ?r # ms) \<subseteq> A"
    using bytes_split[of n m] m(3) n by auto
  ultimately show ?thesis using ms by (simp add: blocks_ok_def)
qed

lemma blocks_ok_merge:
  assumes ok: "blocks_ok (a # b # ms) A" and ab: "mb_p a + mb_size a = mb_p b"
  shows "blocks_ok (a\<lparr>mb_size := mb_size a + mb_size b\<rparr> # ms) A" (is "blocks_ok (?c # ms) A")
proof -
  have g: "good_block a" "good_block b" "bytes_of (a # b # ms) \<subseteq> A"
    and ms: "\<forall>x \<in> set ms. good_block x" "sorted_wrt apart ms"
    and ap: "\<forall>x \<in> set ms. apart a x" "\<forall>x \<in> set ms. apart b x"
    using ok by (auto simp: blocks_ok_def)
  have "good_block ?c" using g by (simp add: good_block_def)
  moreover have "\<forall>x \<in> set ms. apart ?c x"
    using ap ms(1) ab by (auto intro!: apart_join[of a _ b ?c] simp: good_block_def)
  moreover have "bytes_of (?c # ms) \<subseteq> A"
    using bytes_merge[of a b] g ab by (auto simp: good_block_def)
  ultimately show ?thesis using ms by (simp add: blocks_ok_def)
qed

lemma blocks_ok_add:
  assumes ok: "blocks_ok ms A" and g: "good_block m" and disj: "block_range m \<inter> A = {}"
  shows "blocks_ok (m # ms) (block_range m \<union> A)"
proof -
  have "apart m x" if "x \<in> set ms" for x
    using ok g disj that by (intro disjoint_apart) (auto simp: blocks_ok_def bytes_of_def)
  then show ?thesis using ok g by (auto simp: blocks_ok_def)
qed

subsection \<open>What each operation does\<close>

lemma FreeLocalMem_cases:
  assumes "FreeLocalMem p s = (r, s')"
  obtains (miss) "\<not> r" "s' = s" "p = 0 \<or> (\<forall>m \<in> set (AllocList s). mb_p m \<noteq> p)"
  | (merge) pre cur post fpre c2 fpost where "r" "p \<noteq> 0"
      "AllocList s = pre @ cur # post" "mb_p cur = p"
      "FreeList s = fpre @ c2 # fpost" "mb_p c2 + mb_size c2 = mb_p cur"
      "s' = s\<lparr>FreeList := fpre @ c2\<lparr>mb_size := mb_size c2 + mb_size cur\<rparr> # fpost,
              AllocList := pre @ post, mb_nodes := mb_nodes s - 1\<rparr>"
  | (push) pre cur post where "r" "p \<noteq> 0" "AllocList s = pre @ cur # post" "mb_p cur = p"
      "s' = s\<lparr>AllocList := pre @ post, FreeList := cur # FreeList s\<rparr>"
proof (cases "p = 0 \<or> List.extract (\<lambda>m. mb_p m = p) (AllocList s) = None")
  case True
  then have "(r, s') = (False, s)" using assms by (auto simp: FreeLocalMem_def split: if_splits)
  moreover have "p = 0 \<or> (\<forall>m \<in> set (AllocList s). mb_p m \<noteq> p)"
    using True by (auto simp: extract_None_iff)
  ultimately show thesis using miss by simp
next
  case False
  then obtain pre cur post where ex: "List.extract (\<lambda>m. mb_p m = p) (AllocList s) = Some (pre, cur, post)"
    and p: "p \<noteq> 0" by auto
  note cur = extract_Some_list[OF ex]
  show thesis
  proof (cases "List.extract (\<lambda>m. mb_p m + mb_size m = mb_p cur) (FreeList s)")
    case None
    then show thesis using assms p ex cur push by (auto simp: FreeLocalMem_def)
  next
    case (Some t)
    then obtain fpre c2 fpost where
      ex2: "List.extract (\<lambda>m. mb_p m + mb_size m = mb_p cur) (FreeList s) = Some (fpre, c2, fpost)"
      by (cases t) auto
    show thesis using assms p ex cur ex2 extract_Some_list[OF ex2] merge
      by (auto simp: FreeLocalMem_def)
  qed
qed

lemma alloc_scan_cases:
  assumes "alloc_scan k n s = Some (r, s')"
  obtains (exact) pre cur post where "FreeList s = pre @ cur # post" "mb_size cur = n"
      "r = Some (mb_p cur)" "s' = s\<lparr>FreeList := pre @ post, AllocList := cur # AllocList s\<rparr>"
  | (lost) pre cur post where "FreeList s = pre @ cur # post" "n < mb_size cur" "\<not> k"
      "r = None" "s' = s\<lparr>FreeList := pre @ cur\<lparr>mb_size := mb_size cur - n\<rparr> # post\<rparr>"
  | (split) pre cur post where "FreeList s = pre @ cur # post" "n < mb_size cur" "k"
      "r = Some (mb_p cur + (mb_size cur - n))"
      "s' = s\<lparr>FreeList := pre @ cur\<lparr>mb_size := mb_size cur - n\<rparr> # post,
         AllocList := \<lparr>mb_p = mb_p cur + (mb_size cur - n), mb_size = n\<rparr> # AllocList s,
         mb_nodes := Suc (mb_nodes s)\<rparr>"
proof -
  from assms obtain pre cur post where
    ex: "List.extract (\<lambda>m. mb_size m = n \<or> n < mb_size m) (FreeList s) = Some (pre, cur, post)"
    by (auto simp: alloc_scan_def split: option.splits)
  note cur = extract_Some_list[OF ex]
  consider (eq) "mb_size cur = n" | (fail) "mb_size cur \<noteq> n" "\<not> k" | (cut) "mb_size cur \<noteq> n" k
    by blast
  then show thesis
  proof cases
    case eq
    with assms ex have "r = Some (mb_p cur) \<and>
        s' = s\<lparr>FreeList := pre @ post, AllocList := cur # AllocList s\<rparr>"
      by (simp add: alloc_scan_def)
    with eq cur show thesis by (intro exact[of pre cur post]) simp_all
  next
    case fail
    with assms ex have "r = None \<and>
        s' = s\<lparr>FreeList := pre @ cur\<lparr>mb_size := mb_size cur - n\<rparr> # post\<rparr>"
      by (simp add: alloc_scan_def Let_def)
    with fail cur show thesis by (intro lost[of pre cur post]) simp_all
  next
    case cut
    with assms ex have "r = Some (mb_p cur + (mb_size cur - n)) \<and>
        s' = s\<lparr>FreeList := pre @ cur\<lparr>mb_size := mb_size cur - n\<rparr> # post,
         AllocList := \<lparr>mb_p = mb_p cur + (mb_size cur - n), mb_size = n\<rparr> # AllocList s,
         mb_nodes := Suc (mb_nodes s)\<rparr>"
      by (simp add: alloc_scan_def Let_def)
    with cut cur show thesis by (intro split[of pre cur post]) simp_all
  qed
qed

lemma alloc_scan_None: "alloc_scan k n s = None \<longleftrightarrow> (\<forall>m \<in> set (FreeList s). mb_size m < n)"
  by (auto simp: alloc_scan_def extract_None_iff Let_def dest!: extract_Some_list
      split: option.splits)

lemma GrowLocalMem_cases:
  assumes "GrowLocalMem b2v g s = Inr (r, s')"
  obtains (fail) e where "r = Some e" "FreeList s' = FreeList s" "AllocList s' = AllocList s"
      "arenas s' = arenas s" "nlocal_mems s' = nlocal_mems s" "mb_nodes s' = mb_nodes s"
      "length (local_mems s') = length (local_mems s)" "iop_live s' = iop_live s"
      "insufficient_local_mem s' = insufficient_local_mem s"
  | (ok) "r = None" "grow_iop g \<noteq> 0" "nlocal_mems s < length (local_mems s)"
      "FreeList s' = arena_block b2v (grow_iop g) # FreeList s" "AllocList s' = AllocList s"
      "arenas s' = arenas s @ [grow_iop g]" "nlocal_mems s' = Suc (nlocal_mems s)"
      "mb_nodes s' = Suc (mb_nodes s)" "length (local_mems s') = length (local_mems s)"
      "iop_live s' = grow_iop g # iop_live s"
      "insufficient_local_mem s' = insufficient_local_mem s"
  using assms
  by (auto simp: GrowLocalMem_def Let_def lm_warn_def arenas_def arena_block_def take_Suc_conv_app_nth
        split: if_splits)

lemma GrowLocalMem_no_overflow:
  "length (local_mems s) = MAX_ARENAS \<Longrightarrow>
   GrowLocalMem b2v g s = Inl x \<Longrightarrow> nlocal_mems s = MAX_ARENAS \<and> grow_kmalloc g"
  by (auto simp: GrowLocalMem_def Let_def split: if_splits)

subsection \<open>Every operation keeps the invariant\<close>

lemma lm_inv_blocks:
  "lm_inv b2v s \<Longrightarrow> blocks_ok ms (arena_bytes b2v s) \<Longrightarrow> mset (mb_blocks s') = mset ms \<Longrightarrow>
   arenas s' = arenas s \<Longrightarrow> length (local_mems s') = length (local_mems s) \<Longrightarrow>
   nlocal_mems s' = nlocal_mems s \<Longrightarrow> mb_nodes s' = length ms \<Longrightarrow> lm_inv b2v s'"
  using blocks_ok_perm[of "mb_blocks s'" ms] mset_eq_length[of "mb_blocks s'" ms]
  by (simp add: lm_inv_def arena_bytes_def)

lemma FreeLocalMem_inv [inv_intros]:
  assumes inv: "lm_inv b2v s" and free: "FreeLocalMem p s = (r, s')"
  shows "lm_inv b2v s'"
  using free
proof (cases rule: FreeLocalMem_cases)
  case miss
  with inv show ?thesis by simp
next
  case (merge pre cur post fpre c2 fpost)
  let ?R = "fpre @ fpost @ pre @ post"
  have "blocks_ok (mb_blocks s) (arena_bytes b2v s)" using inv by (simp add: lm_inv_def)
  then have "blocks_ok (c2 # cur # ?R) (arena_bytes b2v s)"
    using merge by (subst (asm) blocks_ok_perm) (auto simp: mb_blocks_def)
  from blocks_ok_merge[OF this merge(6)] show ?thesis
    using merge inv by (intro lm_inv_blocks[OF inv])
      (auto simp: mb_blocks_def arenas_def lm_inv_def)
next
  case (push pre cur post)
  let ?R = "FreeList s @ pre @ post"
  have "blocks_ok (mb_blocks s) (arena_bytes b2v s)" using inv by (simp add: lm_inv_def)
  then have "blocks_ok (cur # ?R) (arena_bytes b2v s)"
    using push by (subst (asm) blocks_ok_perm) (auto simp: mb_blocks_def)
  then show ?thesis
    using push inv by (intro lm_inv_blocks[OF inv])
      (auto simp: mb_blocks_def arenas_def lm_inv_def)
qed

lemma alloc_scan_inv:
  assumes inv: "lm_inv b2v s" and scan: "alloc_scan k n s = Some (r, s')" and n: "0 < n" "256 dvd n"
  shows "lm_inv b2v s'"
proof -
  have ok: "blocks_ok (mb_blocks s) (arena_bytes b2v s)" using inv by (simp add: lm_inv_def)
  from scan show ?thesis
  proof (cases rule: alloc_scan_cases)
    case (exact pre cur post)
    then show ?thesis using inv ok
      by (intro lm_inv_blocks[OF inv ok]) (auto simp: mb_blocks_def arenas_def lm_inv_def)
  next
    case (lost pre cur post)
    then have "blocks_ok (cur # pre @ post @ AllocList s) (arena_bytes b2v s)"
      using ok by (subst (asm) blocks_ok_perm) (auto simp: mb_blocks_def)
    from blocks_ok_split[OF this n(1) lost(2) n(2)]
    have "blocks_ok (cur\<lparr>mb_size := mb_size cur - n\<rparr> # pre @ post @ AllocList s) (arena_bytes b2v s)"
      by (auto simp: blocks_ok_def)
    then show ?thesis using lost inv
      by (intro lm_inv_blocks[OF inv]) (auto simp: mb_blocks_def arenas_def lm_inv_def)
  next
    case (split pre cur post)
    then have "blocks_ok (cur # pre @ post @ AllocList s) (arena_bytes b2v s)"
      using ok by (subst (asm) blocks_ok_perm) (auto simp: mb_blocks_def)
    from blocks_ok_split[OF this n(1) split(2) n(2)] show ?thesis using split inv
      by (intro lm_inv_blocks[OF inv]) (auto simp: mb_blocks_def arenas_def lm_inv_def)
  qed
qed

lemma GrowLocalMem_inv [inv_intros]:
  assumes inv: "lm_inv b2v s" and grow: "GrowLocalMem b2v g s = Inr (r, s')"
    and fresh: "fresh_arena b2v (arenas s) (grow_iop g)"
  shows "lm_inv b2v s'"
  using grow
proof (cases rule: GrowLocalMem_cases)
  case fail
  with inv show ?thesis by (simp add: lm_inv_def arena_bytes_def mb_blocks_def)
next
  case ok
  let ?m = "arena_block b2v (grow_iop g)"
  have g: "good_block ?m" and ap: "\<forall>x \<in> set (arenas s). apart (arena_block b2v x) ?m"
    using fresh ok(2) by (auto simp: fresh_arena_def good_block_def arena_block_def LOCAL_MEM_UNIT_def)
  then have "block_range ?m \<inter> arena_bytes b2v s = {}"
    using apart_disjoint[of _ ?m] by (fastforce simp: arena_bytes_def)
  from blocks_ok_add[OF _ g this, of "mb_blocks s"] show ?thesis
    using inv ok by (simp add: lm_inv_def mb_blocks_def arena_bytes_def Un_commute)
qed

lemma lm_inv_insufficient [simp]: "lm_inv b2v (s\<lparr>insufficient_local_mem := k\<rparr>) = lm_inv b2v s"
  by (simp add: lm_inv_def mb_blocks_def arena_bytes_def arenas_def)

text \<open>The growing part of a request: it keeps the invariant and the allocated blocks, and adds at
  most the arena the IOP heap gave.\<close>

lemma alloc_grow_inv:
  assumes inv: "lm_inv b2v s" and grow: "alloc_grow b2v irq g s = Inr s'"
    and fresh: "fresh_arena b2v (arenas s) (grow_iop g)"
  shows "lm_inv b2v s' \<and> AllocList s' = AllocList s \<and>
    set (arenas s') \<subseteq> insert (grow_iop g) (set (arenas s)) \<and> nlocal_mems s' \<le> Suc (nlocal_mems s)"
proof (cases "\<not> irq \<and> insufficient_local_mem s \<noteq> 0")
  case True
  let ?s0 = "s\<lparr>insufficient_local_mem := 0\<rparr>"
  from grow True obtain r where g: "GrowLocalMem b2v g ?s0 = Inr (r, s')"
    by (auto simp: alloc_grow_def split: sum.splits)
  have a: "arenas ?s0 = arenas s" by (simp add: arenas_def)
  have "lm_inv b2v s'"
    using GrowLocalMem_inv[OF _ g] inv fresh by (simp add: a)
  moreover from g have "AllocList s' = AllocList s \<and>
      set (arenas s') \<subseteq> insert (grow_iop g) (set (arenas s)) \<and> nlocal_mems s' \<le> Suc (nlocal_mems s)"
    by (cases rule: GrowLocalMem_cases) (auto simp: a)
  ultimately show ?thesis by simp
next
  case False
  with grow inv show ?thesis by (auto simp: alloc_grow_def split: if_splits)
qed

lemma fresh_arena_mono:
  "fresh_arena b2v as a \<Longrightarrow> set bs \<subseteq> set as \<Longrightarrow> fresh_arena b2v bs a"
  by (auto simp: fresh_arena_def)

text \<open>A request is: grow, scan, and where nothing was found grow and scan once more.\<close>

lemma AllocLocalMem_cases:
  assumes "AllocLocalMem b2v e n s = Inr (r, s')"
  obtains (first) s1 where "alloc_grow b2v (in_interrupt e) (grow1 e) s = Inr s1"
      "alloc_scan (split_kmalloc e) (size256 n) s1 = Some (r, s')"
  | (second) s1 s2 where "alloc_grow b2v (in_interrupt e) (grow1 e) s = Inr s1"
      "alloc_grow b2v (in_interrupt e) (grow2 e)
         (s1\<lparr>insufficient_local_mem := Suc (insufficient_local_mem s1)\<rparr>) = Inr s2"
      "alloc_scan (split_kmalloc e) (size256 n) s2 = Some (r, s')"
  | (none) s1 s2 where "alloc_grow b2v (in_interrupt e) (grow1 e) s = Inr s1"
      "alloc_grow b2v (in_interrupt e) (grow2 e)
         (s1\<lparr>insufficient_local_mem := Suc (insufficient_local_mem s1)\<rparr>) = Inr s2"
      "alloc_scan (split_kmalloc e) (size256 n) s2 = None"
      "r = None" "s' = s2\<lparr>insufficient_local_mem := Suc (insufficient_local_mem s2)\<rparr>"
  using assms by (auto simp: AllocLocalMem_def Let_def split: sum.splits option.splits)

text \<open>Common form: the request reaches a state with the invariant and the old allocated blocks,
  and then either scans successfully or gives up.\<close>

lemma AllocLocalMem_reach:
  assumes inv: "lm_inv b2v s" and iop: "iop_heap_ok b2v e s"
    and alloc: "AllocLocalMem b2v e n s = Inr (r, s')"
  obtains sm where "lm_inv b2v sm" "AllocList sm = AllocList s"
      "alloc_scan (split_kmalloc e) (size256 n) sm = Some (r, s') \<or>
       (r = None \<and> s' = sm\<lparr>insufficient_local_mem := Suc (insufficient_local_mem sm)\<rparr>)"
proof -
  have f1: "fresh_arena b2v (arenas s) (grow_iop (grow1 e))"
    and f2: "fresh_arena b2v (grow_iop (grow1 e) # arenas s) (grow_iop (grow2 e))"
    using iop by (auto simp: iop_heap_ok_def)
  have step2: "lm_inv b2v s2 \<and> AllocList s2 = AllocList s"
    if g1: "alloc_grow b2v (in_interrupt e) (grow1 e) s = Inr s1"
      and g2: "alloc_grow b2v (in_interrupt e) (grow2 e)
         (s1\<lparr>insufficient_local_mem := Suc (insufficient_local_mem s1)\<rparr>) = Inr s2" for s1 s2
  proof -
    let ?s1 = "s1\<lparr>insufficient_local_mem := Suc (insufficient_local_mem s1)\<rparr>"
    note i1 = alloc_grow_inv[OF inv g1 f1]
    have "fresh_arena b2v (arenas ?s1) (grow_iop (grow2 e))"
      using i1 by (intro fresh_arena_mono[OF f2]) (auto simp: arenas_def)
    from alloc_grow_inv[OF _ g2 this] i1 show ?thesis by simp
  qed
  from alloc show thesis
  proof (cases rule: AllocLocalMem_cases)
    case (first s1)
    then show thesis using alloc_grow_inv[OF inv first(1) f1] that by blast
  next
    case (second s1 s2)
    then show thesis using step2 that by blast
  next
    case (none s1 s2)
    then show thesis using step2 that by blast
  qed
qed

lemma AllocLocalMem_inv [inv_intros]:
  assumes "lm_inv b2v s" "iop_heap_ok b2v e s" "AllocLocalMem b2v e n s = Inr (r, s')" "0 < n"
  shows "lm_inv b2v s'"
  using assms(1-3)
proof (cases rule: AllocLocalMem_reach)
  case (1 sm)
  then show ?thesis
    using alloc_scan_inv[OF 1(1) _ size256_round(3)[OF assms(4)] size256_round(2)[OF assms(4)]] by auto
qed

text \<open>A request never gives an arena back.\<close>

lemma alloc_grow_arenas:
  assumes "alloc_grow b2v irq g s = Inr s'"
  shows "set (arenas s) \<subseteq> set (arenas s')"
proof (cases "\<not> irq \<and> insufficient_local_mem s \<noteq> 0")
  case True
  then obtain r where "GrowLocalMem b2v g (s\<lparr>insufficient_local_mem := 0\<rparr>) = Inr (r, s')"
    using assms by (auto simp: alloc_grow_def split: sum.splits)
  then show ?thesis by (cases rule: GrowLocalMem_cases) (auto simp: arenas_def)
qed (use assms in \<open>auto simp: alloc_grow_def split: if_splits\<close>)

lemma alloc_scan_arenas: "alloc_scan k n s = Some (r, s') \<Longrightarrow> arenas s' = arenas s"
  by (erule alloc_scan_cases) (auto simp: arenas_def)

lemma arenas_insufficient [simp]: "arenas (s\<lparr>insufficient_local_mem := k\<rparr>) = arenas s"
  by (simp add: arenas_def)

lemma AllocLocalMem_arenas:
  assumes "AllocLocalMem b2v e n s = Inr (r, s')"
  shows "arena_bytes b2v s \<subseteq> arena_bytes b2v s'"
proof -
  from assms have "set (arenas s) \<subseteq> set (arenas s')"
  proof (cases rule: AllocLocalMem_cases)
    case (first s1)
    then show ?thesis using alloc_grow_arenas[OF first(1)] alloc_scan_arenas[OF first(2)] by simp
  next
    case (second s1 s2)
    from alloc_grow_arenas[OF second(1)] alloc_grow_arenas[OF second(2)]
    show ?thesis using alloc_scan_arenas[OF second(3)] by simp
  next
    case (none s1 s2)
    from alloc_grow_arenas[OF none(1)] alloc_grow_arenas[OF none(2)]
    show ?thesis using none(5) by simp
  qed
  then show ?thesis by (auto simp: arena_bytes_def)
qed

section \<open>The allocator contract\<close>

definition lm_live :: "local_mem \<Rightarrow> (int \<times> int) set" where
  "lm_live s = (\<lambda>m. (mb_p m, mb_size m)) ` set (AllocList s)"

text \<open>The bytes on the free list and the bytes handed out.\<close>

definition free_bytes :: "local_mem \<Rightarrow> int set" where
  "free_bytes s = bytes_of (FreeList s)"

lemma lm_inv_good: "lm_inv b2v s \<Longrightarrow> m \<in> set (AllocList s) \<Longrightarrow> good_block m"
  by (auto simp: lm_inv_def blocks_ok_def mb_blocks_def)

lemma mb_p_unique:
  assumes "lm_inv b2v s" "AllocList s = pre @ cur # post" "m \<in> set (pre @ post)"
  shows "mb_p m \<noteq> mb_p cur"
proof -
  have "apart cur m" "good_block cur" "good_block m"
    using assms by (auto simp: lm_inv_def blocks_ok_def mb_blocks_def sorted_wrt_append apart_sym)
  then show ?thesis by (auto simp: apart_def good_block_def)
qed

lemma FreeLocalMem_found:
  assumes inv: "lm_inv b2v s" and m: "m \<in> set (AllocList s)"
    and free: "FreeLocalMem (mb_p m) s = (r, s')"
  obtains pre post where r "AllocList s = pre @ m # post" "AllocList s' = pre @ post"
    "free_bytes s' = free_bytes s \<union> block_range m"
  using free
proof (cases rule: FreeLocalMem_cases)
  case miss
  with m lm_inv_good[OF inv m] show ?thesis by (auto simp: good_block_def)
next
  case (merge pre cur post fpre c2 fpost)
  have "m \<notin> set (pre @ post)" using mb_p_unique[OF inv merge(3)] merge(4) by auto
  then have [simp]: "cur = m" using m merge(3) by auto
  have "good_block c2" "good_block m"
    using inv merge by (auto simp: lm_inv_def blocks_ok_def mb_blocks_def)
  then have "block_range (c2\<lparr>mb_size := mb_size c2 + mb_size m\<rparr>) = block_range c2 \<union> block_range m"
    using merge(6) by (intro bytes_merge) (auto simp: good_block_def)
  then have "free_bytes s' = free_bytes s \<union> block_range m"
    using merge(5,7) by (simp add: free_bytes_def Un_ac)
  then show ?thesis using merge by (intro that[of pre post]) simp_all
next
  case (push pre cur post)
  have "m \<notin> set (pre @ post)" using mb_p_unique[OF inv push(3)] push(4) by auto
  then have [simp]: "cur = m" using m push(3) by auto
  show ?thesis using push by (intro that[of pre post]) (simp_all add: free_bytes_def Un_commute)
qed

lemma lm_live_remove:
  assumes "lm_inv b2v s" "AllocList s = pre @ cur # post"
  shows "(\<lambda>m. (mb_p m, mb_size m)) ` set (pre @ post) = lm_live s - {(mb_p cur, mb_size cur)}"
  using mb_p_unique[OF assms] by (fastforce simp: lm_live_def assms(2))

lemma FreeLocalMem_lm_live:
  assumes inv: "lm_inv b2v s" and m: "(p, k) \<in> lm_live s" and free: "FreeLocalMem p s = (r, s')"
  shows "r \<and> lm_live s' = lm_live s - {(p, k)}"
proof -
  from m obtain m where mm: "m \<in> set (AllocList s)" and pk: "p = mb_p m" "k = mb_size m"
    by (auto simp: lm_live_def)
  from FreeLocalMem_found[OF inv mm] free pk obtain pre post where
    r and A: "AllocList s = pre @ m # post" "AllocList s' = pre @ post" by metis
  with lm_live_remove[OF inv A(1)] pk show ?thesis by (simp add: lm_live_def)
qed

text \<open>A successful scan hands out a block cut from the free bytes and apart from every block
  handed out before.\<close>

lemma alloc_scan_live:
  assumes inv: "lm_inv b2v s" and scan: "alloc_scan k n s = Some (Some p, s')"
    and n: "0 < n" "256 dvd n"
  shows "AllocList s' = \<lparr>mb_p = p, mb_size = n\<rparr> # AllocList s \<and>
    free_bytes s = free_bytes s' \<union> {p..<p + n} \<and> free_bytes s' \<inter> {p..<p + n} = {}"
proof -
  have inv': "lm_inv b2v s'" by (rule alloc_scan_inv[OF inv scan n])
  from scan have A: "AllocList s' = \<lparr>mb_p = p, mb_size = n\<rparr> # AllocList s \<and>
    free_bytes s = free_bytes s' \<union> {p..<p + n}"
  proof (cases rule: alloc_scan_cases)
    case (exact pre cur post)
    then show ?thesis by (auto simp: free_bytes_def block_range_def)
  next
    case (split pre cur post)
    then show ?thesis using bytes_split[of n cur] n by (auto simp: free_bytes_def block_range_def)
  qed simp
  have "block_range x \<inter> {p..<p + n} = {}" if "x \<in> set (FreeList s')" for x
    using inv' A that apart_disjoint[of x "\<lparr>mb_p = p, mb_size = n\<rparr>"]
    by (auto simp: lm_inv_def blocks_ok_def mb_blocks_def sorted_wrt_append block_range_def)
  with A show ?thesis by (auto simp: free_bytes_def bytes_of_def)
qed

lemma AllocLocalMem_Some:
  assumes inv: "lm_inv b2v s" and iop: "iop_heap_ok b2v e s" and n: "0 < n"
    and alloc: "AllocLocalMem b2v e n s = Inr (Some p, s')"
  shows "AllocList s' = \<lparr>mb_p = p, mb_size = size256 n\<rparr> # AllocList s"
  using inv iop alloc
proof (cases rule: AllocLocalMem_reach)
  case (1 sm)
  then have "alloc_scan (split_kmalloc e) (size256 n) sm = Some (Some p, s')" by simp
  from alloc_scan_live[OF 1(1) this size256_round(3)[OF n] size256_round(2)[OF n]] 1(2)
  show ?thesis by simp
qed

lemma AllocLocalMem_None:
  assumes "lm_inv b2v s" "iop_heap_ok b2v e s" "AllocLocalMem b2v e n s = Inr (None, s')"
  shows "AllocList s' = AllocList s"
  using assms
proof (cases rule: AllocLocalMem_reach)
  case (1 sm)
  then show ?thesis by (auto elim: alloc_scan_cases)
qed

lemma alloc_head_apart:
  assumes "lm_inv b2v s'" "AllocList s' = m # as" "x \<in> set as" shows "apart x m"
  using assms by (auto simp: lm_inv_def blocks_ok_def mb_blocks_def sorted_wrt_append apart_sym)

text \<open>The block of a successful request, for its user.\<close>

lemma AllocLocalMem_block:
  assumes inv: "lm_inv b2v s" and iop: "iop_heap_ok b2v e s" and n: "0 < n"
    and alloc: "AllocLocalMem b2v e n s = Inr (Some p, s')"
  shows "lm_inv b2v s'" "{p..<p + size256 n} \<subseteq> arena_bytes b2v s'"
    "\<And>m. m \<in> set (AllocList s) \<Longrightarrow> block_range m \<inter> {p..<p + size256 n} = {}"
    "free_bytes s' \<inter> {p..<p + size256 n} = {}"
    "{p..<p + n} \<subseteq> {p..<p + size256 n}"
proof -
  note inv' = AllocLocalMem_inv[OF inv iop alloc n]
  note A = AllocLocalMem_Some[OF inv iop n alloc]
  show "lm_inv b2v s'" by (rule inv')
  show "{p..<p + size256 n} \<subseteq> arena_bytes b2v s'"
    using inv' A by (auto simp: lm_inv_def blocks_ok_def mb_blocks_def block_range_def)
  show "block_range m \<inter> {p..<p + size256 n} = {}" if "m \<in> set (AllocList s)" for m
    using apart_disjoint[OF alloc_head_apart[OF inv' A that]] by (simp add: block_range_def)
  show "free_bytes s' \<inter> {p..<p + size256 n} = {}"
    using inv' A apart_disjoint[of _ "\<lparr>mb_p = p, mb_size = size256 n\<rparr>"]
    by (fastforce simp: lm_inv_def blocks_ok_def mb_blocks_def sorted_wrt_append free_bytes_def
        bytes_of_def block_range_def)
  show "{p..<p + n} \<subseteq> {p..<p + size256 n}" using size256_round(1)[OF n] by auto
qed

interpretation lm: block_allocator "AllocLocalMem b2v" FreeLocalMem lm_live "lm_inv b2v" "iop_heap_ok b2v"
  for b2v
proof unfold_locales
  fix s e n p s'
  assume a: "lm_inv b2v s" "iop_heap_ok b2v e s" "(0::int) < n"
    and al: "AllocLocalMem b2v e n s = Inr (Some p, s')"
  have inv': "lm_inv b2v s'" by (rule AllocLocalMem_inv[OF a(1,2) al a(3)])
  note A = AllocLocalMem_Some[OF a al]
  from alloc_head_apart[OF inv' A]
  have "\<forall>(q, k) \<in> lm_live s. q + k \<le> p \<or> p + size256 n \<le> q"
    by (auto simp: lm_live_def apart_def)
  then show "\<exists>m. n \<le> m \<and> lm_live s' = insert (p, m) (lm_live s) \<and>
      (\<forall>(q, k) \<in> lm_live s. q + k \<le> p \<or> p + m \<le> q)"
    using A size256_round(1)[OF a(3)] by (intro exI[of _ "size256 n"]) (auto simp: lm_live_def)
next
  fix s p m assume "lm_inv b2v s" "(p, m) \<in> lm_live s"
  then show "0 < p \<and> 0 < m"
    by (auto simp: lm_live_def good_block_def dest: lm_inv_good)
next
  fix s p b s' assume "lm_inv b2v s" "p \<notin> fst ` lm_live s" "FreeLocalMem p s = (b, s')"
  then show "\<not> b \<and> s' = s"
    by (elim FreeLocalMem_cases) (auto simp: lm_live_def image_image)
next
  fix s e n s' assume "lm_inv b2v s" "iop_heap_ok b2v e s" "AllocLocalMem b2v e n s = Inr (None, s')"
  then show "lm_live s' = lm_live s" by (simp add: lm_live_def AllocLocalMem_None)
qed (auto intro: AllocLocalMem_inv FreeLocalMem_inv dest: FreeLocalMem_lm_live)

section \<open>Reachable allocator states\<close>

inductive lm_reach :: "(u32 \<Rightarrow> addr) \<Rightarrow> local_mem \<Rightarrow> bool" for b2v where
  start: "lm_reach b2v local_mem_init"
| grow: "lm_reach b2v s \<Longrightarrow> fresh_arena b2v (arenas s) (grow_iop g) \<Longrightarrow>
    GrowLocalMem b2v g s = Inr (r, s') \<Longrightarrow> lm_reach b2v s'"
| alloc: "lm_reach b2v s \<Longrightarrow> iop_heap_ok b2v e s \<Longrightarrow> 0 < n \<Longrightarrow>
    AllocLocalMem b2v e n s = Inr (r', s') \<Longrightarrow> lm_reach b2v s'"
| free: "lm_reach b2v s \<Longrightarrow> FreeLocalMem p s = (b, s') \<Longrightarrow> lm_reach b2v s'"

lemma lm_inv_init: "lm_inv b2v local_mem_init"
  by (simp add: lm_inv_def local_mem_init_def mb_blocks_def blocks_ok_def)

lemma lm_reach_inv: "lm_reach b2v s \<Longrightarrow> lm_inv b2v s"
  by (induction rule: lm_reach.induct) (auto intro: lm_inv_init inv_intros)

subsection \<open>A concrete run for the witnesses\<close>

definition id_b2v :: "u32 \<Rightarrow> addr" where "id_b2v a = uint a"

definition ok_grow :: "u32 \<Rightarrow> grow_in" where
  "ok_grow a = \<lparr>grow_kmalloc = True, grow_iop = a\<rparr>"

definition ok_alloc :: alloc_in where
  "ok_alloc = \<lparr>in_interrupt = False, grow1 = ok_grow 0x20000, grow2 = ok_grow 0x40000,
     split_kmalloc = True\<rparr>"

definition one_arena :: local_mem where
  "one_arena = local_mem_init\<lparr>local_mems := 0x10000 # replicate 15 0, nlocal_mems := 1,
     FreeList := [\<lparr>mb_p = 0x10000, mb_size = 0x10000\<rparr>], iop_live := [0x10000], mb_nodes := 1\<rparr>"

lemmas run_defs = one_arena_def local_mem_init_def ok_alloc_def ok_grow_def id_b2v_def
  MAX_ARENAS_def MAX_LOCAL_MEM_def LOCAL_MEM_UNIT_def

lemma one_arena_inv: "lm_inv id_b2v one_arena"
  by (simp add: lm_inv_def blocks_ok_def good_block_def mb_blocks_def arena_bytes_def arenas_def
      arena_block_def block_range_def run_defs)

lemma one_arena_iop: "iop_heap_ok id_b2v ok_alloc one_arena"
  by (simp add: iop_heap_ok_def fresh_arena_def arenas_def arena_block_def apart_def run_defs)

lemma one_arena_alloc:
  "AllocLocalMem id_b2v ok_alloc 300 one_arena = Inr (Some 0x1FE00, one_arena\<lparr>
     FreeList := [\<lparr>mb_p = 0x10000, mb_size = 0xFE00\<rparr>],
     AllocList := [\<lparr>mb_p = 0x1FE00, mb_size = 0x200\<rparr>], mb_nodes := 2\<rparr>)"
  by (simp add: AllocLocalMem_def alloc_grow_def alloc_scan_def size256_def extract_Cons_code
      signed_divide_int_def run_defs)

text \<open>The state after that request, and the release of the block.\<close>

definition one_block :: local_mem where
  "one_block = one_arena\<lparr>FreeList := [\<lparr>mb_p = 0x10000, mb_size = 0xFE00\<rparr>],
     AllocList := [\<lparr>mb_p = 0x1FE00, mb_size = 0x200\<rparr>], mb_nodes := 2\<rparr>"

lemma one_block_inv: "lm_inv id_b2v one_block"
  unfolding one_block_def
  by (rule AllocLocalMem_inv[OF one_arena_inv one_arena_iop one_arena_alloc]) simp

lemma one_block_free:
  "FreeLocalMem (mb_p \<lparr>mb_p = 0x1FE00, mb_size = 0x200\<rparr>) one_block =
     (True, one_arena\<lparr>FreeList := [\<lparr>mb_p = 0x10000, mb_size = 0x10000\<rparr>]\<rparr>)"
  by (simp add: FreeLocalMem_def one_block_def extract_Cons_code one_arena_def local_mem_init_def)

lemma replicate_arenas: "replicate MAX_ARENAS (x :: u32) = x # replicate 15 x"
  using replicate_Suc[of 15 x] by (simp add: run_defs)

section \<open>Properties\<close>

text \<open>C11. \<open>AllocLocalMem\<close>: a successful request for \<open>n\<close> bytes puts a block of
  \<open>size256 n \<ge> n\<close> bytes on \<open>AllocList\<close>, which lies inside the arenas, overlaps none of the
  blocks handed out before nor anything still free, and the allocator invariant is kept.\<close>

theorem AllocLocalMem_correct:
  assumes inv: "lm_inv b2v s" and iop: "iop_heap_ok b2v e s" and n: "0 < n"
    and alloc: "AllocLocalMem b2v e n s = Inr (Some p, s')"
  shows "lm_inv b2v s' \<and>
    AllocList s' = \<lparr>mb_p = p, mb_size = size256 n\<rparr> # AllocList s \<and>
    n \<le> size256 n \<and> {p..<p + size256 n} \<subseteq> arena_bytes b2v s' \<and>
    (\<forall>m \<in> set (AllocList s). block_range m \<inter> {p..<p + size256 n} = {}) \<and>
    free_bytes s' \<inter> {p..<p + size256 n} = {}"
  using AllocLocalMem_block[OF inv iop n alloc] AllocLocalMem_Some[OF inv iop n alloc]
    size256_round(1)[OF n] by blast

theorem AllocLocalMem_correct_witness:
  "lm_inv id_b2v one_arena \<and> iop_heap_ok id_b2v ok_alloc one_arena \<and>
   {0x1FE00..<0x1FE00 + size256 300} \<subseteq> arena_bytes id_b2v one_block"
proof -
  have n: "(0::int) < 300" by simp
  from AllocLocalMem_correct[OF one_arena_inv one_arena_iop n one_arena_alloc]
    one_arena_inv one_arena_iop show ?thesis unfolding one_block_def by blast
qed

text \<open>C12. \<open>FreeLocalMem\<close> of a block that is on \<open>AllocList\<close> returns 1, takes exactly this
  block off the list, gives exactly its bytes back to the free list (joined to a free block that
  ends where it starts, if there is one) and keeps the allocator invariant.\<close>

theorem FreeLocalMem_correct:
  assumes inv: "lm_inv b2v s" and m: "m \<in> set (AllocList s)"
    and free: "FreeLocalMem (mb_p m) s = (r, s')"
  shows "r \<and> lm_inv b2v s' \<and> mset (AllocList s) = add_mset m (mset (AllocList s')) \<and>
    free_bytes s' = free_bytes s \<union> block_range m"
  using FreeLocalMem_inv[OF inv free]
  by (rule_tac FreeLocalMem_found[OF inv m free]) simp_all

theorem FreeLocalMem_correct_witness:
  "lm_inv id_b2v one_block \<and> free_bytes (one_arena\<lparr>FreeList := [\<lparr>mb_p = 0x10000, mb_size = 0x10000\<rparr>]\<rparr>)
     = free_bytes one_block \<union> block_range \<lparr>mb_p = 0x1FE00, mb_size = 0x200\<rparr>"
proof -
  have m: "\<lparr>mb_p = 0x1FE00, mb_size = 0x200\<rparr> \<in> set (AllocList one_block)"
    by (simp add: one_block_def)
  show ?thesis
    using FreeLocalMem_correct[OF one_block_inv m one_block_free] one_block_inv by blast
qed

text \<open>C13. In every state the allocator can reach from the start, by growing, allocating and
  freeing in any order, no two blocks overlap, every block lies in memory taken from the IOP heap,
  and exactly one \<open>struct mb\<close> node is live per block.\<close>

theorem allocator_reachable_safe:
  assumes "lm_reach b2v s"
  shows "(\<forall>i j. i < j \<and> j < length (mb_blocks s) \<longrightarrow>
            block_range (mb_blocks s ! i) \<inter> block_range (mb_blocks s ! j) = {}) \<and>
         bytes_of (mb_blocks s) \<subseteq> arena_bytes b2v s \<and> mb_nodes s = length (mb_blocks s)"
proof -
  have "blocks_ok (mb_blocks s) (arena_bytes b2v s)" "mb_nodes s = length (mb_blocks s)"
    using lm_reach_inv[OF assms] by (auto simp: lm_inv_def)
  then show ?thesis
    using apart_disjoint by (auto simp: blocks_ok_def sorted_wrt_iff_nth_less)
qed

definition grown :: local_mem where
  "grown = one_arena\<lparr>lm_log := [Printk KERN_DEBUG ''GrowLocalMem 64K bytes'']\<rparr>"

lemma grown_grow: "GrowLocalMem id_b2v (ok_grow 0x10000) local_mem_init = Inr (None, grown)"
  unfolding GrowLocalMem_def local_mem_init_def grown_def one_arena_def replicate_arenas
  by (simp add: ok_grow_def id_b2v_def MAX_ARENAS_def MAX_LOCAL_MEM_def LOCAL_MEM_UNIT_def)

lemma grown_reach: "lm_reach id_b2v grown"
  by (rule lm_reach.grow[OF lm_reach.start _ grown_grow])
     (simp add: fresh_arena_def arenas_def local_mem_init_def ok_grow_def id_b2v_def)

theorem allocator_reachable_safe_witness:
  "lm_reach id_b2v grown \<and> mb_nodes grown = length (mb_blocks grown)"
  using allocator_reachable_safe[OF grown_reach] grown_reach by blast

text \<open>\<open>AllocLocalMem\<close> returns \<open>NULL\<close> only when the node for the block could not be
  allocated, or when after its one retry every free block is too small; and it never fails to find
  memory where growing is allowed and works and the request fits an arena.\<close>

lemma alloc_grow_ok:
  assumes inv: "lm_inv b2v s" and irq: "\<not> irq" and ins: "insufficient_local_mem s \<noteq> 0"
    and room: "nlocal_mems s < MAX_ARENAS" and g: "grow_kmalloc g" "grow_iop g \<noteq> 0"
  obtains s' where "alloc_grow b2v irq g s = Inr s'"
    "FreeList s' = arena_block b2v (grow_iop g) # FreeList s"
proof -
  have "length (local_mems s) = MAX_ARENAS" using inv by (simp add: lm_inv_def)
  then show thesis using assms that
    by (simp add: alloc_grow_def GrowLocalMem_def Let_def arena_block_def)
qed

lemma alloc_scan_head:
  assumes "FreeList s = m # ms" "n \<le> mb_size m" "k"
  obtains p s' where "alloc_scan k n s = Some (Some p, s')"
  using assms by (cases "mb_size m = n") (auto simp: alloc_scan_def extract_Cons_code Let_def)

lemma alloc_scan_kmalloc: "alloc_scan True n s = Some (r, s') \<Longrightarrow> r \<noteq> None"
  by (erule alloc_scan_cases) auto

theorem AllocLocalMem_NULL:
  assumes inv: "lm_inv b2v s" and iop: "iop_heap_ok b2v e s"
    and alloc: "AllocLocalMem b2v e n s = Inr (None, s')"
  shows "(\<not> split_kmalloc e \<or> (\<forall>m \<in> set (FreeList s'). mb_size m < size256 n)) \<and>
    (0 < n \<and> n \<le> LOCAL_MEM_UNIT \<and> \<not> in_interrupt e \<and> split_kmalloc e \<longrightarrow>
       \<not> (nlocal_mems s + 2 \<le> MAX_ARENAS \<and> grow_kmalloc (grow2 e) \<and> grow_iop (grow2 e) \<noteq> 0))"
proof -
  have f1: "fresh_arena b2v (arenas s) (grow_iop (grow1 e))"
    using iop by (simp add: iop_heap_ok_def)
  from alloc show ?thesis
  proof (cases rule: AllocLocalMem_cases)
    case (first s1)
    then have "\<not> split_kmalloc e" using alloc_scan_kmalloc by (cases "split_kmalloc e") auto
    then show ?thesis by simp
  next
    case (second s1 s2)
    then have "\<not> split_kmalloc e" using alloc_scan_kmalloc by (cases "split_kmalloc e") auto
    then show ?thesis by simp
  next
    case (none s1 s2)
    let ?s1 = "s1\<lparr>insufficient_local_mem := Suc (insufficient_local_mem s1)\<rparr>"
    note i1 = alloc_grow_inv[OF inv none(1) f1]
    have "False" if c: "0 < n" "n \<le> LOCAL_MEM_UNIT" "\<not> in_interrupt e" "split_kmalloc e"
      "nlocal_mems s + 2 \<le> MAX_ARENAS" "grow_kmalloc (grow2 e)" "grow_iop (grow2 e) \<noteq> 0"
    proof -
      obtain s3 where s3: "alloc_grow b2v (in_interrupt e) (grow2 e) ?s1 = Inr s3"
        "FreeList s3 = arena_block b2v (grow_iop (grow2 e)) # FreeList ?s1"
        by (rule alloc_grow_ok[of b2v ?s1 "in_interrupt e" "grow2 e"]) (use i1 c in auto)
      have "size256 n \<le> LOCAL_MEM_UNIT"
        using size256_round(2,4)[OF c(1)] c(2)
        by (simp add: LOCAL_MEM_UNIT_def) presburger
      then have "size256 n \<le> mb_size (arena_block b2v (grow_iop (grow2 e)))"
        by (simp add: arena_block_def)
      from alloc_scan_head[OF s3(2) this c(4)] none(2,3) s3(1) show False by auto
    qed
    moreover from none(3) have "\<forall>m \<in> set (FreeList s'). mb_size m < size256 n"
      by (simp add: none(5) alloc_scan_None)
    ultimately show ?thesis by blast
  qed
qed

definition no_kmalloc :: alloc_in where
  "no_kmalloc = ok_alloc\<lparr>split_kmalloc := False\<rparr>"

lemma one_arena_leak:
  "AllocLocalMem id_b2v no_kmalloc 300 one_arena =
     Inr (None, one_arena\<lparr>FreeList := [\<lparr>mb_p = 0x10000, mb_size = 0xFE00\<rparr>]\<rparr>)"
  by (simp add: AllocLocalMem_def alloc_grow_def alloc_scan_def size256_def extract_Cons_code
      signed_divide_int_def no_kmalloc_def run_defs)

lemma no_kmalloc_iop: "iop_heap_ok id_b2v no_kmalloc one_arena"
  using one_arena_iop by (simp add: iop_heap_ok_def no_kmalloc_def)

definition irq_alloc :: alloc_in where
  "irq_alloc = ok_alloc\<lparr>in_interrupt := True\<rparr>"

lemma irq_alloc_NULL:
  "AllocLocalMem id_b2v irq_alloc 0x20000 one_arena =
     Inr (None, one_arena\<lparr>insufficient_local_mem := Suc (Suc 0)\<rparr>)"
proof -
  have scan: "alloc_scan k 0x20000 (one_arena\<lparr>insufficient_local_mem := j\<rparr>) = None" for k j
    by (simp add: alloc_scan_None one_arena_def)
  have grow: "alloc_grow id_b2v True g s = Inr s" for g s
    by (simp add: alloc_grow_def)
  have scan0: "alloc_scan k 0x20000 one_arena = None" for k
    by (simp add: alloc_scan_None one_arena_def)
  have f: "in_interrupt irq_alloc" "size256 0x20000 = 0x20000" "insufficient_local_mem one_arena = 0"
    by (simp_all add: irq_alloc_def size256_def signed_divide_int_def one_arena_def local_mem_init_def)
  show ?thesis by (simp add: AllocLocalMem_def grow Let_def scan scan0 f cong: sum.case_cong)
qed

lemma irq_alloc_iop: "iop_heap_ok id_b2v irq_alloc one_arena"
  using one_arena_iop by (simp add: iop_heap_ok_def irq_alloc_def)

theorem AllocLocalMem_NULL_witness:
  "iop_heap_ok id_b2v irq_alloc one_arena \<and> (0x10000 :: int) < size256 0x20000"
  using AllocLocalMem_NULL[OF one_arena_inv irq_alloc_iop irq_alloc_NULL] irq_alloc_iop
  by (simp add: irq_alloc_def run_defs)

text \<open>Where \<open>AllocLocalMem\<close> has cut a block off a larger one and the \<open>kmalloc\<close> of its node
  fails, it returns \<open>NULL\<close> but leaves the free block shortened: the cut bytes are on no list any
  more, so they are lost until the driver is removed.\<close>

theorem AllocLocalMem_kmalloc_failure_leaks:
  assumes inv: "lm_inv b2v s" and ins: "insufficient_local_mem s = 0"
    and lst: "FreeList s = m # ms" and big: "size256 n < mb_size m" and n: "0 < n"
    and fail: "\<not> split_kmalloc e"
  shows "\<exists>s'. AllocLocalMem b2v e n s = Inr (None, s') \<and> AllocList s' = AllocList s \<and>
    free_bytes s = free_bytes s' \<union> {mb_p m + mb_size m - size256 n ..< mb_p m + mb_size m} \<and>
    free_bytes s' \<inter> {mb_p m + mb_size m - size256 n ..< mb_p m + mb_size m} = {}"
proof -
  let ?s' = "s\<lparr>FreeList := m\<lparr>mb_size := mb_size m - size256 n\<rparr> # ms\<rparr>"
  have g: "good_block m" "\<forall>x \<in> set ms. block_range m \<inter> block_range x = {}"
    using inv lst apart_disjoint by (auto simp: lm_inv_def blocks_ok_def mb_blocks_def)
  have "AllocLocalMem b2v e n s = Inr (None, ?s')"
    using assms by (simp add: AllocLocalMem_def alloc_grow_def alloc_scan_def Let_def
        extract_Cons_code)
  moreover have "free_bytes s = free_bytes ?s' \<union> {mb_p m + mb_size m - size256 n ..< mb_p m + mb_size m}"
    using lst big size256_round(3)[OF n] by (auto simp: free_bytes_def block_range_def)
  moreover have "free_bytes ?s' \<inter> {mb_p m + mb_size m - size256 n ..< mb_p m + mb_size m} = {}"
    using g big size256_round(3)[OF n] unfolding free_bytes_def bytes_of_def
    by (fastforce simp: block_range_def good_block_def)
  ultimately show ?thesis by auto
qed

theorem AllocLocalMem_kmalloc_failure_leaks_witness:
  "\<exists>s'. AllocLocalMem id_b2v no_kmalloc 300 one_arena = Inr (None, s') \<and>
     AllocList s' = AllocList one_arena"
  using AllocLocalMem_kmalloc_failure_leaks[OF one_arena_inv, of "\<lparr>mb_p = 0x10000, mb_size = 0x10000\<rparr>" "[]" 300 no_kmalloc]
  by (auto simp: one_arena_def local_mem_init_def no_kmalloc_def size256_def signed_divide_int_def)

text \<open>\<open>GrowLocalMem\<close> checks \<open>16 < nlocal_mems\<close> before it stores into
  \<open>local_mems[nlocal_mems]\<close>, an array of 16: in a well-formed state it writes past the array
  exactly when all 16 arenas are in use.\<close>

theorem GrowLocalMem_overflow_iff:
  assumes "lm_inv b2v s"
  shows "GrowLocalMem b2v g s = Inl Array_overflow \<longleftrightarrow> nlocal_mems s = MAX_ARENAS \<and> grow_kmalloc g"
  using assms by (auto simp: GrowLocalMem_def lm_inv_def Let_def)

definition full_arenas :: local_mem where
  "full_arenas = local_mem_init\<lparr>nlocal_mems := 16\<rparr>"

lemma full_arenas_inv: "lm_inv id_b2v full_arenas"
  by (simp add: lm_inv_def full_arenas_def mb_blocks_def blocks_ok_def run_defs)

theorem GrowLocalMem_overflow_iff_witness:
  "lm_inv id_b2v full_arenas \<and> GrowLocalMem id_b2v (ok_grow 0x10000) full_arenas = Inl Array_overflow"
  using GrowLocalMem_overflow_iff[OF full_arenas_inv, of "ok_grow 0x10000"] full_arenas_inv
  by (simp add: full_arenas_def run_defs)

text \<open>Releasing the controller (\<open>Portable_FreeOhci\<close>) never runs past \<open>local_mems\<close>,
  returns the controller structure and every arena to the IOP heap and nothing else, empties both
  lists and frees every \<open>struct mb\<close> node.\<close>

lemma cleanup_loop_result:
  "n \<le> length (local_mems s) \<Longrightarrow>
   \<exists>s'. cleanup_loop n s = Inr s' \<and>
     mset (iop_live s') = mset (iop_live s) - mset (take n (local_mems s)) \<and>
     FreeList s' = FreeList s \<and> AllocList s' = AllocList s \<and> mb_nodes s' = mb_nodes s \<and>
     nlocal_mems s' = (if n = 0 then nlocal_mems s else 0)"
proof (induction n arbitrary: s)
  case 0
  then show ?case by simp
next
  case (Suc n)
  let ?s = "s\<lparr>nlocal_mems := n, iop_live := remove1 (local_mems s ! n) (iop_live s)\<rparr>"
  have "n \<le> length (local_mems ?s)" using Suc.prems by simp
  from Suc.IH[OF this] show ?case
    using Suc.prems by (auto simp: take_Suc_conv_app_nth)
qed

theorem Portable_FreeOhci_releases_all:
  assumes inv: "lm_inv b2v s"
    and iop: "mset (iop_live s) = add_mset (v2b p) (mset (arenas s) + M)"
  shows "\<exists>s'. Portable_FreeOhci v2b (Some p) s = Inr s' \<and> mset (iop_live s') = M \<and>
    FreeList s' = [] \<and> AllocList s' = [] \<and> nlocal_mems s' = 0 \<and> mb_nodes s' = 0"
proof -
  let ?s = "s\<lparr>iop_live := remove1 (v2b p) (iop_live s)\<rparr>"
  have len: "nlocal_mems s \<le> length (local_mems s)" and nodes: "mb_nodes s = length (mb_blocks s)"
    using inv by (auto simp: lm_inv_def)
  then have "nlocal_mems s \<le> length (local_mems ?s)" by simp
  from cleanup_loop_result[OF this] obtain s2 where
    s2: "cleanup_loop (nlocal_mems s) ?s = Inr s2"
      "mset (iop_live s2) = mset (iop_live ?s) - mset (arenas s)"
      "FreeList s2 = FreeList s" "AllocList s2 = AllocList s" "mb_nodes s2 = mb_nodes s"
      "nlocal_mems s2 = 0"
    by (auto simp: arenas_def split: if_splits)
  then show ?thesis
    using nodes iop by (simp add: Portable_FreeOhci_def CleanupLocalMem_def Let_def mb_blocks_def)
qed

theorem Portable_FreeOhci_releases_all_witness:
  "\<exists>s'. Portable_FreeOhci (\<lambda>p. word_of_int p) (Some 0x80000)
      (one_block\<lparr>iop_live := [0x80000, 0x10000]\<rparr>) = Inr s' \<and> mset (iop_live s') = {#} \<and>
    FreeList s' = [] \<and> AllocList s' = [] \<and> nlocal_mems s' = 0 \<and> mb_nodes s' = 0"
proof (rule Portable_FreeOhci_releases_all[of id_b2v])
  show "lm_inv id_b2v (one_block\<lparr>iop_live := [0x80000, 0x10000]\<rparr>)"
    using one_block_inv by (simp add: lm_inv_def mb_blocks_def arena_bytes_def arenas_def)
  show "mset (iop_live (one_block\<lparr>iop_live := [0x80000, 0x10000]\<rparr>)) =
    add_mset (word_of_int 0x80000) (mset (arenas (one_block\<lparr>iop_live := [0x80000, 0x10000]\<rparr>)) + {#})"
    by (simp add: arenas_def one_block_def one_arena_def)
qed

end
