(* ===== verification/Urb.thy ===== *)
theory Urb
  imports Kernel_Env Local_Mem
begin

text \<open>
  The USB request block: the fields of \<open>urb_t\<close> and of the \<open>usb_device\<close> it points to that
  the sources use (both structs are declared in \<open>linux/usb.h\<close>). Pointers are addresses, 0 is
  \<open>NULL\<close>; \<open>urb_dev\<close> is \<open>None\<close> for a \<open>NULL\<close> device pointer and \<open>dev_bus\<close> tells
  whether the device's bus pointer is set. Memory is a function from addresses to bytes.
\<close>

type_synonym memory = "addr \<Rightarrow> u8"

record usb_device =
  devnum :: u32
  dev_bus :: bool

record urb =
  urb_dev :: "usb_device option"
  urb_pipe :: u32
  urb_transfer_flags :: u32
  urb_transfer_buffer :: addr
  urb_transfer_buffer_length :: u32
  urb_actual_length :: u32
  urb_setup_packet :: addr
  urb_interval :: u32
  urb_complete :: bool

definition memcpy :: "addr \<Rightarrow> addr \<Rightarrow> int \<Rightarrow> memory \<Rightarrow> memory" where
  "memcpy d s n m = (\<lambda>a. if d \<le> a \<and> a < d + n then m (s + (a - d)) else m a)"

lemma memcpy_in: "d \<le> a \<Longrightarrow> a < d + n \<Longrightarrow> memcpy d s n m a = m (s + (a - d))"
  by (simp add: memcpy_def)

lemma memcpy_out: "a \<notin> {d..<d + n} \<Longrightarrow> memcpy d s n m a = m a"
  by (auto simp: memcpy_def)

text \<open>The bytes of a C object as a list.\<close>

definition bytes_at :: "memory \<Rightarrow> addr \<Rightarrow> nat \<Rightarrow> u8 list" where
  "bytes_at m a n = map (\<lambda>i. m (a + int i)) [0..<n]"

lemma length_bytes_at [simp]: "length (bytes_at m a n) = n"
  by (simp add: bytes_at_def)

lemma nth_bytes_at [simp]: "i < n \<Longrightarrow> bytes_at m a n ! i = m (a + int i)"
  by (simp add: bytes_at_def)

lemma bytes_at_memcpy: "bytes_at (memcpy d s (int n) m) d n = bytes_at m s n"
  by (rule nth_equalityI) (auto simp: memcpy_in)

lemma bytes_at_memcpy_other:
  "{a..<a + int n} \<inter> {d..<d + k} = {} \<Longrightarrow> bytes_at (memcpy d s k m) a n = bytes_at m a n"
  by (rule nth_equalityI) (auto intro!: memcpy_out)

text \<open>Bytes copied first are still there after a copy to another place.\<close>

lemma bytes_at_two:
  assumes "int n \<le> k" "{d..<d + k} \<inter> {d2..<d2 + k2} = {}"
  shows "bytes_at (memcpy d2 s2 k2 (memcpy d s k m)) d n = bytes_at m s n"
proof (rule nth_equalityI)
  fix i assume "i < length (bytes_at (memcpy d2 s2 k2 (memcpy d s k m)) d n)"
  then have i: "i < n" by simp
  then have "d + int i \<in> {d..<d + k}" using assms(1) by auto
  with assms(2) have "d + int i \<notin> {d2..<d2 + k2}" by blast
  then have "memcpy d2 s2 k2 (memcpy d s k m) (d + int i) = memcpy d s k m (d + int i)"
    by (rule memcpy_out)
  also have "\<dots> = m (s + int i)" using i assms(1) by (simp add: memcpy_in)
  finally show "bytes_at (memcpy d2 s2 k2 (memcpy d s k m)) d n ! i = bytes_at m s n ! i"
    using i by simp
qed simp

end
