(* ===== verification/Settings.thy ===== *)
theory Settings
  imports Urb
begin

text \<open>
  The device settings of the dumper (\<open>side_dumper.h\<close> and the four settings functions of
  \<open>side_dumper_core.c\<close>): the array \<open>aDevSettings\<close> and the kernel log are the record
  \<open>settings_state\<close>, which the dumper's full state extends. The three operations that change
  a device have one contract, the locale \<open>device_op\<close>.
\<close>

section \<open>State\<close>

text \<open>The only function the sources store in \<open>pfnDumper\<close>; \<open>None\<close> is \<open>NULL\<close>.\<close>

datatype dumper_fn = Fn_DumpUrbToPrintk

record settings =
  oEnabled :: u32
  oAsync :: u32
  pfnDumper :: "dumper_fn option"
  uOutLimit :: u32
  uInLimit :: u32

record settings_state =
  aDevSettings :: "settings list"
  klog :: "kmsg list"

definition N_DEVICES :: nat where "N_DEVICES = 16"

definition UINT_MAX :: u32 where "UINT_MAX = - 1"

definition default_settings :: settings where
  "default_settings = \<lparr>oEnabled = 0, oAsync = 0, pfnDumper = Some Fn_DumpUrbToPrintk,
     uOutLimit = UINT_MAX, uInLimit = UINT_MAX\<rparr>"

definition zero_settings :: settings where
  "zero_settings = \<lparr>oEnabled = 0, oAsync = 0, pfnDumper = None, uOutLimit = 0, uInLimit = 0\<rparr>"

definition settings_init :: settings_state where
  "settings_init = \<lparr>aDevSettings = replicate N_DEVICES default_settings, klog = []\<rparr>"

definition log_msg :: "kmsg \<Rightarrow> 'a settings_state_scheme \<Rightarrow> 'a settings_state_scheme" where
  "log_msg m s = s\<lparr>klog := klog s @ [m]\<rparr>"

section \<open>Operations\<close>

definition SideDumper_Enable :: "u32 \<Rightarrow> 'a settings_state_scheme \<Rightarrow> 'a settings_state_scheme" where
  "SideDumper_Enable u s =
     (if unat u < N_DEVICES
      then log_msg (Printk KERN_INFO (''side_dumper: USB device #'' @ fmt_u u @ '' enabled.''))
             (s\<lparr>aDevSettings := (aDevSettings s)[unat u := (aDevSettings s ! unat u)\<lparr>oEnabled := 1\<rparr>]\<rparr>)
      else s)"

definition SideDumper_Disable :: "u32 \<Rightarrow> 'a settings_state_scheme \<Rightarrow> 'a settings_state_scheme" where
  "SideDumper_Disable u s =
     (if unat u < N_DEVICES
      then log_msg (Printk KERN_INFO (''side_dumper: USB device #'' @ fmt_u u @ '' disabled.''))
             (s\<lparr>aDevSettings := (aDevSettings s)[unat u := (aDevSettings s ! unat u)\<lparr>oEnabled := 0\<rparr>]\<rparr>)
      else s)"

text \<open>The argument \<open>p\<close> is what \<open>pSettings\<close> points to, \<open>None\<close> for \<open>NULL\<close>.\<close>

definition SideDumper_SetDeviceSettings ::
  "u32 \<Rightarrow> settings option \<Rightarrow> 'a settings_state_scheme \<Rightarrow> 'a settings_state_scheme" where
  "SideDumper_SetDeviceSettings u p s =
     (case p of
        None \<Rightarrow> s
      | Some d \<Rightarrow>
          if unat u < N_DEVICES
          then log_msg (Printk KERN_INFO (''side_dumper: USB device #'' @ fmt_u u @ '' set.''))
                 (s\<lparr>aDevSettings := (aDevSettings s)[unat u := d]\<rparr>)
          else s)"

text \<open>The result is the return value (\<open>None\<close> for 0, \<open>Some e\<close> for \<open>-e\<close>) and what
  \<open>pSettings\<close> points to afterwards.\<close>

definition SideDumper_GetDeviceSettings ::
  "u32 \<Rightarrow> settings option \<Rightarrow> 'a settings_state_scheme \<Rightarrow> errno option \<times> settings option" where
  "SideDumper_GetDeviceSettings u p s =
     (case p of
        None \<Rightarrow> (Some EINVAL, None)
      | Some _ \<Rightarrow>
          if unat u < N_DEVICES then (None, Some (aDevSettings s ! unat u))
          else (Some ENODEV, Some zero_settings))"

section \<open>The table of devices\<close>

definition settings_ok :: "'a settings_state_scheme \<Rightarrow> bool" where
  "settings_ok s \<longleftrightarrow> length (aDevSettings s) = N_DEVICES"

text \<open>What a client sees of a device: its settings, or nothing where the getter fails.\<close>

definition device :: "'a settings_state_scheme \<Rightarrow> u32 \<Rightarrow> settings option" where
  "device s u = (case SideDumper_GetDeviceSettings u (Some zero_settings) s of
     (None, d) \<Rightarrow> d | (Some _, _) \<Rightarrow> None)"

lemma device_simp: "device s u = (if unat u < N_DEVICES then Some (aDevSettings s ! unat u) else None)"
  by (simp add: device_def SideDumper_GetDeviceSettings_def)

lemma settings_init_ok: "settings_ok settings_init"
  by (simp add: settings_ok_def settings_init_def)

lemma log_msg_simps [simp]:
  "aDevSettings (log_msg m s) = aDevSettings s" "klog (log_msg m s) = klog s @ [m]"
  "settings_ok (log_msg m s) = settings_ok s" "device (log_msg m s) = device s"
  by (simp_all add: log_msg_def settings_ok_def fun_eq_iff device_simp)

text \<open>
  The contract of an operation that acts on the device it is given: the device is changed by
  \<open>f\<close>, every other device is not, and doing it twice is doing it once.
\<close>

locale device_op =
  fixes lookup :: "'s \<Rightarrow> u32 \<Rightarrow> 'd option"
    and ok :: "'s \<Rightarrow> bool"
    and op :: "u32 \<Rightarrow> 's \<Rightarrow> 's"
    and f :: "'d \<Rightarrow> 'd"
  assumes op_ok: "ok s \<Longrightarrow> ok (op u s)"
    and op_hit: "ok s \<Longrightarrow> lookup (op u s) u = map_option f (lookup s u)"
    and op_miss: "ok s \<Longrightarrow> v \<noteq> u \<Longrightarrow> lookup (op u s) v = lookup s v"
    and f_idem: "f (f d) = f d"
begin

lemma op_lookup: "ok s \<Longrightarrow> lookup (op u s) v = (if v = u then map_option f (lookup s v) else lookup s v)"
  using op_hit op_miss by simp

lemma fold_ok: "ok s \<Longrightarrow> ok (fold op us s)"
  by (induction us arbitrary: s) (auto intro: op_ok)

lemma map_f_idem: "map_option f (map_option f d) = map_option f d"
  by (cases d) (simp_all add: f_idem)

lemma fold_lookup:
  "ok s \<Longrightarrow> lookup (fold op us s) v =
     (if v \<in> set us then map_option f (lookup s v) else lookup s v)"
proof (induction us arbitrary: s)
  case (Cons u us)
  then show ?case using op_ok[of s u] by (auto simp: op_lookup map_f_idem)
qed simp

end

lemma unat_eq_u32 [simp]: "unat u = unat v \<longleftrightarrow> u = (v :: u32)"
  by (simp add: word_unat_eq_iff)

interpretation en: device_op device settings_ok SideDumper_Enable "oEnabled_update (\<lambda>_. 1)"
  by unfold_locales
    (auto simp: SideDumper_Enable_def log_msg_def settings_ok_def device_simp nth_list_update)

interpretation dis: device_op device settings_ok SideDumper_Disable "oEnabled_update (\<lambda>_. 0)"
  by unfold_locales
    (auto simp: SideDumper_Disable_def log_msg_def settings_ok_def device_simp nth_list_update)

interpretation setd: device_op device settings_ok
  "\<lambda>u. SideDumper_SetDeviceSettings u (Some d)" "\<lambda>_. d" for d
  by unfold_locales
    (auto simp: SideDumper_SetDeviceSettings_def log_msg_def settings_ok_def device_simp
      nth_list_update)

declare en.op_ok [inv_intros] dis.op_ok [inv_intros] setd.op_ok [inv_intros]

text \<open>An enabled device is one the entry points do not ignore.\<close>

definition enabled :: "'a settings_state_scheme \<Rightarrow> u32 \<Rightarrow> bool" where
  "enabled s u \<longleftrightarrow> (case device s u of None \<Rightarrow> False | Some d \<Rightarrow> oEnabled d \<noteq> 0)"

lemma enabled_en:
  "settings_ok s \<Longrightarrow> enabled (fold SideDumper_Enable us s) v \<longleftrightarrow>
     enabled s v \<or> (v \<in> set us \<and> unat v < N_DEVICES)"
  by (auto simp: enabled_def en.fold_lookup split: option.splits) (auto simp: device_simp split: if_splits)

lemma enabled_dis:
  "settings_ok s \<Longrightarrow> enabled (fold SideDumper_Disable us s) v \<longleftrightarrow> enabled s v \<and> v \<notin> set us"
  by (auto simp: enabled_def dis.fold_lookup split: option.splits)

end
