(* ===== verification/Strtoul.thy ===== *)
theory Strtoul
  imports Kernel_Env
begin

text \<open>
  The concrete \<open>simple_strtoul\<close> of \<open>linux_env\<close> has the properties the parsers of the proc
  file system rely on.
\<close>

lemma of_char_digit: "d < 10 \<Longrightarrow> (of_char (digit_char d) :: nat) = 48 + d"
  by (simp add: digit_char_def)

lemma xdigit_digit: "d < 10 \<Longrightarrow> xdigit_value (digit_char d) = Some d"
  by (simp add: of_char_digit)

lemma xdigit_none: "\<not> is_alnum c \<Longrightarrow> xdigit_value c = None"
  by (auto simp: is_alnum_def Let_def)

lemma digit_char_0: "digit_char 0 = CHR ''0''"
  by (simp add: digit_char_def char_of_def bit_0)

lemma digit_char_neq_0:
  assumes "0 < d" "d < 10" shows "digit_char d \<noteq> CHR ''0''"
proof
  assume "digit_char d = CHR ''0''"
  then have "(of_char (digit_char d) :: nat) = of_char (digit_char 0)" by (simp add: digit_char_0)
  with assms show False by (simp add: of_char_digit)
qed

lemma fmt_nat_zpad: "zpad w (fmt_nat m) =
    map digit_char (replicate (w - length (digits_base 10 m)) 0 @ digits_base 10 m)"
  by (simp add: zpad_def fmt_nat_def digit_char_0)

lemma scan_digits_run:
  assumes "\<forall>d \<in> set ds. d < 10" "xdigit_value c = None"
  shows "scan_digits 10 acc n (map digit_char ds @ c # s) =
    Some (foldl (\<lambda>a d. a * 10 + of_nat d) acc ds, n + length ds)"
  using assms by (induction ds arbitrary: acc n) (simp_all add: xdigit_digit del: xdigit_value.simps)

lemma foldl_of_nat:
  "foldl (\<lambda>a d. a * 10 + of_nat d) (of_nat k :: u32) ds = of_nat (foldl (\<lambda>a d. a * 10 + d) k ds)"
proof (induction ds arbitrary: k)
  case (Cons d ds)
  have "of_nat k * 10 + of_nat d = (of_nat (k * 10 + d) :: u32)" by simp
  with Cons show ?case by (simp only: foldl.simps)
qed simp

lemma foldl_zeros: "foldl (\<lambda>a d. a * 10 + d) 0 (replicate k 0 @ ds) = foldl (\<lambda>a d. a * 10 + d) (0 :: nat) ds"
  by (induction k) simp_all

lemma scan_digits_bound: "scan_digits b acc n s = Some (v, k) \<Longrightarrow> k < n + length s"
  by (induction b acc n s rule: scan_digits.induct) (auto split: option.splits if_splits simp del: xdigit_value.simps)

lemma scan_padded:
  assumes "\<not> is_alnum c"
  shows "scan_digits 10 0 0 (zpad w (fmt_nat m) @ c # s) = Some (of_nat m, length (zpad w (fmt_nat m)))"
proof -
  let ?ds = "replicate (w - length (digits_base 10 m)) 0 @ digits_base 10 m"
  have "\<forall>d \<in> set (digits_base 10 m). d < 10" by (rule digits_base_small) simp
  then have ds: "\<forall>d \<in> set ?ds. d < 10" by auto
  have "foldl (\<lambda>a d. a * 10 + of_nat d) (0 :: u32) ?ds = of_nat (foldl (\<lambda>a d. a * 10 + d) 0 ?ds)"
    using foldl_of_nat[of 0 ?ds] by simp
  also have "\<dots> = of_nat m"
    using digits_base_value[of 10 m] by (simp only: foldl_zeros)
  finally show ?thesis
    using scan_digits_run[OF ds xdigit_none[OF assms], of 0 0 s] by (simp only: fmt_nat_zpad length_map add_0)
qed

lemma linux_strtoul_bound: "linux_strtoul s b = Some (v, n) \<Longrightarrow> n < length s"
  by (auto split: list.splits if_splits dest!: scan_digits_bound simp del: xdigit_value.simps scan_digits.simps)

lemma linux_strtoul_none:
  "b \<in> {0, 10} \<Longrightarrow> \<not> is_alnum c \<Longrightarrow> linux_strtoul (c # s) b = Some (0, 0)"
  using xdigit_none[of c] by (auto simp: is_alnum_def simp del: xdigit_value.simps)

lemma linux_strtoul_auto:
  assumes c: "\<not> is_alnum c"
  shows "linux_strtoul (fmt_nat m @ c # s) 0 = Some (of_nat m, length (fmt_nat m))"
proof (cases "m = 0")
  case True
  have "fmt_nat 0 = ''0''" by (simp add: fmt_nat_def digits_base.simps digit_char_0)
  moreover have "c \<noteq> CHR ''x''" using c by (auto simp: is_alnum_def)
  ultimately show ?thesis using True xdigit_none[OF c] by (simp del: xdigit_value.simps)
next
  case False
  obtain d ds where ds: "digits_base 10 m = d # ds" by (cases "digits_base 10 m") auto
  have "d < 10" "d \<noteq> 0"
    using ds digits_base_small[of 10 m] digits_base_hd[of 10 m] False by auto
  then have "digit_char d \<noteq> CHR ''0''" by (simp add: digit_char_neq_0)
  moreover have "fmt_nat m = digit_char d # map digit_char ds" by (simp add: fmt_nat_def ds)
  ultimately have "linux_strtoul (fmt_nat m @ c # s) 0 = scan_digits 10 0 0 (fmt_nat m @ c # s)"
    by simp
  then show ?thesis using scan_padded[OF c, of 0 m s] by simp
qed

lemma xdigit_NUL: "xdigit_value (CHR 0x00) = None"
  by (simp add: of_char_def horner_sum_foldr)

lemma scan_digits_NUL:
  "\<exists>v m. scan_digits b acc n (s @ CHR 0x00 # r) = Some (v, m) \<and> m \<le> n + length s"
proof (induction s arbitrary: acc n)
  case Nil
  then show ?case by (simp add: xdigit_NUL del: xdigit_value.simps)
next
  case (Cons c s)
  from Cons.IH[of "acc * of_nat b + of_nat k" "Suc n" for k] show ?case
    by (auto split: option.splits simp del: xdigit_value.simps)
qed

lemma linux_strtoul_NUL:
  assumes s: "CHR 0x00 \<notin> set s"
  shows "\<exists>v n. linux_strtoul (s @ CHR 0x00 # r) b = Some (v, n) \<and> n \<le> length s"
proof (cases "b \<noteq> 0 \<or> s = [] \<or> hd s \<noteq> CHR ''0''")
  case True
  then show ?thesis
    using scan_digits_NUL[of b 0 0 s r] scan_digits_NUL[of 10 0 0 s r]
    by (cases s) (auto simp del: scan_digits.simps)
next
  case False
  then obtain t where t: "s = CHR ''0'' # t" "b = 0" by (cases s) auto
  show ?thesis
  proof (cases t)
    case Nil
    then show ?thesis using t scan_digits_NUL[of 8 0 1 "[]" r] by (auto simp del: scan_digits.simps)
  next
    case (Cons x u)
    then show ?thesis
      using t scan_digits_NUL[of 8 0 1 t r] scan_digits_NUL[of 16 0 2 u r] xdigit_NUL
      by (cases u) (auto simp del: scan_digits.simps xdigit_value.simps)
  qed
qed

lemma linux_strtoul_10: "linux_strtoul s 10 = scan_digits 10 0 0 s"
  by simp

lemma linux_strtoul_eq: "simple_strtoul linux_env = linux_strtoul"
  by (simp add: linux_env_def)

declare linux_strtoul.simps [simp del]

lemma linux_strtoul_ok: "strtoul_ok linux_env"
  unfolding strtoul_ok_def linux_strtoul_eq
proof (intro conjI allI impI; (elim conjE)?)
  show "n < length s" if "linux_strtoul s b = Some (v, n)" for s b v n
    using that by (rule linux_strtoul_bound)
  show "linux_strtoul (c # s) b = Some (0, 0)" if "b \<in> {0, 10}" "\<not> is_alnum c" for c s b
    using that by (rule linux_strtoul_none)
  show "linux_strtoul (zpad w (fmt_nat m) @ c # s) 10 = Some (of_nat m, length (zpad w (fmt_nat m)))"
    if "\<not> is_alnum c" for m w c s
    unfolding linux_strtoul_10 using that by (rule scan_padded)
  show "linux_strtoul (fmt_nat m @ c # s) 0 = Some (of_nat m, length (fmt_nat m))"
    if "\<not> is_alnum c" for m c s
    using that by (rule linux_strtoul_auto)
  show "\<exists>v n. linux_strtoul (s @ CHR 0x00 # r) b = Some (v, n) \<and> n \<le> length s"
    if "CHR 0x00 \<notin> set s" for s r b
    using that by (rule linux_strtoul_NUL)
qed

end
