(* ===== verification/Procfs.thy ===== *)
theory Procfs
  imports Settings Strtoul
begin

text \<open>
  The proc file system interface (\<open>side_dumper_procfs.c\<close>): the parsers behind \<open>enabled\<close>,
  \<open>disabled\<close> and \<open>device_settings/device_xx\<close>, the texts they print, and the creation and
  removal of the entries.

  The write functions copy at most 255 bytes into the 256-byte stack array \<open>a\<close> and never
  terminate it. The array is a string of 256 characters whose part behind the copied bytes is a
  parameter (\<open>stack\<close>, what the array held before); pointers into it are indices, and reading
  at an index beyond the array is the error \<open>Out_of_array\<close>.
\<close>

section \<open>The parsers\<close>

datatype proc_err = Out_of_array

definition BUF_SIZE :: nat where "BUF_SIZE = 256"

definition buf_end :: "u32 \<Rightarrow> nat" where
  "buf_end cnt = unat (min_u cnt (of_nat BUF_SIZE - 1))"

text \<open>\<open>copy_from_user(a, buffer, n)\<close>: what is readable of the user's \<open>n\<close> bytes.\<close>

definition copy_from_user :: "nat \<Rightarrow> string \<Rightarrow> string \<Rightarrow> string" where
  "copy_from_user n user stack = take n user @ drop (length (take n user)) stack"

definition is_delimitor :: "char \<Rightarrow> bool" where
  "is_delimitor c \<longleftrightarrow> c = CHR '' '' \<or> c = CHR 0x09 \<or> c = CHR '','' \<or> c = CHR '':'' \<or> c = CHR 0x0A"

function EatDelimitor :: "string \<Rightarrow> nat \<Rightarrow> proc_err + nat" where
  "EatDelimitor a p =
     (if p < length a
      then if is_delimitor (a ! p) then EatDelimitor a (p + 1) else Inr p
      else Inl Out_of_array)"
  by pat_completeness auto
termination by (relation "measure (\<lambda>(a, p). length a - p)") auto

declare EatDelimitor.simps [simp del]

lemma EatDelimitor_stop: "EatDelimitor a p = Inr q \<Longrightarrow> p \<le> q \<and> q < length a \<and> \<not> is_delimitor (a ! q)"
  by (induction a p rule: EatDelimitor.induct) (subst (asm) (2) EatDelimitor.simps, auto split: if_splits)

text \<open>
  The loop of \<open>Write_Enabled\<close> and of \<open>Write_Disabled\<close>, from \<open>pCur\<close>; \<open>op\<close> is the
  function it calls on every number.
\<close>

function write_loop ::
  "kenv \<Rightarrow> (u32 \<Rightarrow> 's \<Rightarrow> 's) \<Rightarrow> string \<Rightarrow> nat \<Rightarrow> nat \<Rightarrow> 's \<Rightarrow> proc_err + 's" where
  "write_loop K op a pEnd pCur s =
     (case EatDelimitor a pCur of
        Inl e \<Rightarrow> Inl e
      | Inr p \<Rightarrow>
          (case simple_strtoul K (drop p a) 10 of
             None \<Rightarrow> Inl Out_of_array
           | Some (uDev, n) \<Rightarrow>
               if n = 0 \<or> pEnd \<le> p then Inr s
               else write_loop K op a pEnd (p + n) (op uDev s)))"
  by pat_completeness auto
termination
  by (relation "measure (\<lambda>(K, op, a, pEnd, p, s). length a - p)") (auto dest: EatDelimitor_stop)

declare write_loop.simps [simp del]

text \<open>The result is the return value and the state.\<close>

definition Write_Enabled ::
  "kenv \<Rightarrow> string \<Rightarrow> string \<Rightarrow> u32 \<Rightarrow> 'a settings_state_scheme \<Rightarrow>
   proc_err + (u32 \<times> 'a settings_state_scheme)" where
  "Write_Enabled K stack user cnt s =
     (let pEnd = buf_end cnt; a = copy_from_user pEnd user stack in
      case write_loop K SideDumper_Enable a pEnd 0 s of
        Inl e \<Rightarrow> Inl e | Inr s' \<Rightarrow> Inr (cnt, s'))"

definition Write_Disabled ::
  "kenv \<Rightarrow> string \<Rightarrow> string \<Rightarrow> u32 \<Rightarrow> 'a settings_state_scheme \<Rightarrow>
   proc_err + (u32 \<times> 'a settings_state_scheme)" where
  "Write_Disabled K stack user cnt s =
     (let pEnd = buf_end cnt; a = copy_from_user pEnd user stack in
      case write_loop K SideDumper_Disable a pEnd 0 s of
        Inl e \<Rightarrow> Inl e | Inr s' \<Rightarrow> Inr (cnt, s'))"

text \<open>\<open>memcmp(a + p, s, strlen(s)) == 0\<close>. The kernel's \<open>memcmp\<close> (\<open>lib/string.c\<close>, not in the
  repository) compares from the first byte on and stops at the first that differs; C itself would
  let it read all of them. The model relies on this where a name is longer than what is left of the
  array.\<close>

fun memcmp_eq :: "string \<Rightarrow> nat \<Rightarrow> string \<Rightarrow> proc_err + bool" where
  "memcmp_eq a p [] = Inr True"
| "memcmp_eq a p (c # cs) =
     (if p < length a then if a ! p = c then memcmp_eq a (Suc p) cs else Inr False
      else Inl Out_of_array)"

text \<open>The C string at \<open>p\<close>, as \<open>%s\<close> prints it.\<close>

definition cstr_at :: "string \<Rightarrow> nat \<Rightarrow> proc_err + string" where
  "cstr_at a p =
     (let t = takeWhile (\<lambda>c. c \<noteq> CHR 0x00) (drop p a) in
      if length t < length (drop p a) then Inr t else Inl Out_of_array)"

definition szEnabled :: string where "szEnabled = ''Enabled:''"
definition szAsync :: string where "szAsync = ''Async:''"
definition szOutLimit :: string where "szOutLimit = ''OutLimit:''"
definition szInLimit :: string where "szInLimit = ''InLimit:''"

text \<open>
  The chain of \<open>memcmp\<close> tests: the name found at \<open>p\<close> with the base its number is read in and
  the update of the settings; \<open>None\<close> is the final \<open>else\<close>.
\<close>

fun find_setting ::
  "string \<Rightarrow> nat \<Rightarrow> (string \<times> nat \<times> (u32 \<Rightarrow> settings \<Rightarrow> settings)) list \<Rightarrow>
   proc_err + (string \<times> nat \<times> (u32 \<Rightarrow> settings \<Rightarrow> settings)) option" where
  "find_setting a p [] = Inr None"
| "find_setting a p (x # xs) =
     (case memcmp_eq a p (fst x) of
        Inl e \<Rightarrow> Inl e
      | Inr True \<Rightarrow> Inr (Some x)
      | Inr False \<Rightarrow> find_setting a p xs)"

definition setting_table :: "(string \<times> nat \<times> (u32 \<Rightarrow> settings \<Rightarrow> settings)) list" where
  "setting_table =
     [(szEnabled, 10, \<lambda>v d. d\<lparr>oEnabled := v\<rparr>), (szAsync, 10, \<lambda>v d. d\<lparr>oAsync := v\<rparr>),
      (szOutLimit, 0, \<lambda>v d. d\<lparr>uOutLimit := v\<rparr>), (szInLimit, 0, \<lambda>v d. d\<lparr>uInLimit := v\<rparr>)]"

lemma memcmp_eq_True: "memcmp_eq a p cs = Inr True \<Longrightarrow> p + length cs \<le> length a \<or> cs = []"
proof (induction cs arbitrary: p)
  case (Cons c cs)
  then have "p < length a" "memcmp_eq a (Suc p) cs = Inr True" by (auto split: if_splits)
  with Cons.IH[of "Suc p"] show ?case by auto
qed simp

lemma find_setting_in:
  "find_setting a p xs = Inr (Some x) \<Longrightarrow> x \<in> set xs \<and> memcmp_eq a p (fst x) = Inr True"
  by (induction xs) (auto split: sum.splits bool.splits)

lemma setting_table_nonempty: "x \<in> set setting_table \<Longrightarrow> fst x \<noteq> []"
  by (auto simp: setting_table_def szEnabled_def szAsync_def szOutLimit_def szInLimit_def)

lemma find_setting_step:
  assumes "find_setting a p setting_table = Inr (Some (nm, b, f))"
  shows "nm \<noteq> []" "p + length nm \<le> length a"
  using find_setting_in[OF assms] setting_table_nonempty[of "(nm, b, f)"] memcmp_eq_True by auto

text \<open>The loop of \<open>Write_DeviceSettings\<close>, with the local settings \<open>d\<close>.\<close>

function settings_loop ::
  "kenv \<Rightarrow> u32 \<Rightarrow> string \<Rightarrow> nat \<Rightarrow> nat \<Rightarrow> settings \<Rightarrow> 'a settings_state_scheme \<Rightarrow>
   proc_err + 'a settings_state_scheme" where
  "settings_loop K uDev a pEnd pCur d s =
     (case EatDelimitor a pCur of
        Inl e \<Rightarrow> Inl e
      | Inr p \<Rightarrow>
          if pEnd \<le> p then Inr s
          else (case find_setting a p setting_table of
             Inl e \<Rightarrow> Inl e
           | Inr None \<Rightarrow>
               (case cstr_at a p of
                  Inl e \<Rightarrow> Inl e
                | Inr t \<Rightarrow>
                    Inr (log_msg (Printk KERN_WARNING
                           (''SideDumper: unknown setting '' @ [CHR 0x27] @ t @ [CHR 0x27])) s))
           | Inr (Some (nm, b, f)) \<Rightarrow>
               (case simple_strtoul K (drop (p + length nm) a) b of
                  None \<Rightarrow> Inl Out_of_array
                | Some (v, n) \<Rightarrow>
                    let d' = f v d in
                    if n = 0 then Inr s
                    else settings_loop K uDev a pEnd (p + length nm + n) d'
                           (SideDumper_SetDeviceSettings uDev (Some d') s))))"
  by pat_completeness auto
termination
  by (relation "measure (\<lambda>(K, u, a, pEnd, p, d, s). length a - p)")
    (auto dest: EatDelimitor_stop)

declare settings_loop.simps [simp del]

text \<open>The return value is \<open>-EINVAL\<close> (\<open>Inl\<close>) or \<open>count\<close>.\<close>

definition Write_DeviceSettings ::
  "kenv \<Rightarrow> string \<Rightarrow> string \<Rightarrow> u32 \<Rightarrow> u32 \<Rightarrow> 'a settings_state_scheme \<Rightarrow>
   proc_err + ((errno + u32) \<times> 'a settings_state_scheme)" where
  "Write_DeviceSettings K stack user cnt uDev s =
     (let pEnd = buf_end cnt in
      case SideDumper_GetDeviceSettings uDev (Some zero_settings) s of
        (None, Some d) \<Rightarrow>
          (case settings_loop K uDev (copy_from_user pEnd user stack) pEnd 0 d s of
             Inl e \<Rightarrow> Inl e | Inr s' \<Rightarrow> Inr (Inr cnt, s'))
      | _ \<Rightarrow> Inr (Inl EINVAL, s))"

section \<open>The texts\<close>

definition g_uMaxDevNumber :: nat where "g_uMaxDevNumber = 100"
definition g_uDeviceAllNumber :: u32 where "g_uDeviceAllNumber = 9999"

text \<open>
  The loops \<open>for(uDev = 1; uDev < g_uMaxDevNumber; uDev++)\<close> that stop at the first device the
  getter refuses: the text from device \<open>u\<close> on.
\<close>

function list_devices ::
  "(settings \<Rightarrow> bool) \<Rightarrow> 'a settings_state_scheme \<Rightarrow> nat \<Rightarrow> string" where
  "list_devices P s u =
     (if u < g_uMaxDevNumber
      then (case SideDumper_GetDeviceSettings (of_nat u) (Some zero_settings) s of
              (None, Some d) \<Rightarrow>
                (if P d then fmt_0u 2 (of_nat u) @ '' '' else []) @ list_devices P s (Suc u)
            | _ \<Rightarrow> [])
      else [])"
  by pat_completeness auto
termination by (relation "measure (\<lambda>(P, s, u). g_uMaxDevNumber - u)") auto

declare list_devices.simps [simp del]

text \<open>The page a read function leaves; the value it returns is the length of the page.\<close>

definition Read_Enabled :: "'a settings_state_scheme \<Rightarrow> string" where
  "Read_Enabled s = ''SideDumper: enabled devices = [ '' @
     list_devices (\<lambda>d. oEnabled d \<noteq> 0) s 1 @ '']'' @ [CHR 0x0A]"

definition Read_Disabled :: "'a settings_state_scheme \<Rightarrow> string" where
  "Read_Disabled s = ''SideDumper: disabled devices = [ '' @
     list_devices (\<lambda>d. oEnabled d = 0) s 1 @ '']'' @ [CHR 0x0A]"

definition settings_text :: "settings \<Rightarrow> string" where
  "settings_text d = ''Enabled:'' @ fmt_u (oEnabled d) @ '' Async:'' @ fmt_u (oAsync d) @
     '' OutLimit:'' @ fmt_u (uOutLimit d) @ '' InLimit:'' @ fmt_u (uInLimit d)"

definition PrintSettings :: "u32 \<Rightarrow> 'a settings_state_scheme \<Rightarrow> string" where
  "PrintSettings uDev s =
     (case SideDumper_GetDeviceSettings uDev (Some zero_settings) s of
        (None, Some d) \<Rightarrow>
          ''SideDumper: device_'' @ fmt_0u 2 uDev @ '' settings = [ '' @ settings_text d @ '' ]'' @
          [CHR 0x0A]
      | _ \<Rightarrow> [])"

function print_all :: "'a settings_state_scheme \<Rightarrow> nat \<Rightarrow> string" where
  "print_all s u =
     (if u < g_uMaxDevNumber
      then (let t = PrintSettings (of_nat u) s in
            if length t = 0 then [] else t @ print_all s (Suc u))
      else [])"
  by pat_completeness auto
termination by (relation "measure (\<lambda>(s, u). g_uMaxDevNumber - u)") auto

declare print_all.simps [simp del]

definition Read_DeviceSettings :: "u32 \<Rightarrow> 'a settings_state_scheme \<Rightarrow> string" where
  "Read_DeviceSettings uDev s =
     (if uDev = g_uDeviceAllNumber then print_all s 1 else PrintSettings uDev s)"

section \<open>What the parsers do\<close>

lemma is_alnum_not_delimitor: "is_alnum c \<Longrightarrow> \<not> is_delimitor c"
  by (auto simp: is_alnum_def is_delimitor_def Let_def)

lemma alnum_NUL: "\<not> is_alnum (CHR 0x00)" and delimitor_NUL: "\<not> is_delimitor (CHR 0x00)"
  and alnum_space: "\<not> is_alnum (CHR '' '')" and delimitor_space: "is_delimitor (CHR '' '')"
  by (simp_all add: is_alnum_def is_delimitor_def)

lemma digit_alnum: "d < 10 \<Longrightarrow> is_alnum (digit_char d)"
  by (simp add: is_alnum_def of_char_digit)

lemma zpad_alnum: "\<forall>c \<in> set (zpad w (fmt_nat m)). is_alnum c"
  using digits_base_small[of 10 m] by (auto simp: fmt_nat_zpad intro!: digit_alnum)

lemma zpad_nonempty [simp]: "zpad w (fmt_nat m) \<noteq> []"
  by (simp add: zpad_def fmt_nat_def)

lemma fmt_nat_alnum: "\<forall>c \<in> set (fmt_nat m). is_alnum c"
  using zpad_alnum[of 0 m] by simp

lemma fmt_nat_nonempty [simp]: "fmt_nat m \<noteq> []"
  by (simp add: fmt_nat_def)

text \<open>\<open>EatDelimitor\<close> at a character: skipping a delimiter, stopping at anything else.\<close>

lemma Eat_stop: "\<not> is_delimitor c \<Longrightarrow> EatDelimitor (pre @ c # r) (length pre) = Inr (length pre)"
  by (subst EatDelimitor.simps) simp

lemma Eat_skip:
  "is_delimitor c \<Longrightarrow>
   EatDelimitor (pre @ c # r) (length pre) = EatDelimitor (pre @ c # r) (Suc (length pre))"
  by (subst EatDelimitor.simps) simp

lemma Eat_space_stop:
  assumes "\<not> is_delimitor c"
  shows "EatDelimitor (pre @ CHR '' '' # c # r) (length pre) = Inr (Suc (length pre))"
  using Eat_skip[OF delimitor_space, of pre "c # r"] Eat_stop[OF assms, of "pre @ '' ''" r] by simp

subsection \<open>Lists of devices\<close>

definition device_list :: "nat \<Rightarrow> u32 list \<Rightarrow> string" where
  "device_list w us = concat (map (\<lambda>u. fmt_0u w u @ '' '') us)"

lemma device_list_simps [simp]:
  "device_list w [] = []" "device_list w (u # us) = fmt_0u w u @ '' '' @ device_list w us"
  by (simp_all add: device_list_def)

lemma device_list_hd:
  assumes "t = device_list w us @ CHR 0x00 # r"
  obtains c t' where "t = c # t'" "\<not> is_delimitor c"
proof (cases us)
  case Nil
  then show thesis using assms delimitor_NUL by (intro that) simp_all
next
  case (Cons u vs)
  obtain c cs where c: "fmt_0u w u = c # cs"
    using zpad_nonempty[of w "unat u"] by (cases "fmt_0u w u") (auto simp: fmt_0u_def fmt_u_def)
  then have "is_alnum c" using zpad_alnum[of w "unat u"] by (auto simp: fmt_0u_def fmt_u_def)
  with c Cons assms show thesis by (intro that is_alnum_not_delimitor) auto
qed

lemma strtoul_device:
  assumes "strtoul_ok K" "\<not> is_alnum c"
  shows "simple_strtoul K (fmt_0u w u @ c # s) 10 = Some (u, length (fmt_0u w u))"
proof -
  have "unat u < 2 ^ 32" using unsigned_less[of u, where 'a = nat] by simp
  from strtoul_padded[OF assms(1) this assms(2), of w s] show ?thesis
    by (simp add: fmt_0u_def fmt_u_def)
qed

lemma write_loop_device_list:
  assumes K: "strtoul_ok K"
  shows "EatDelimitor (pre @ device_list w us @ CHR 0x00 # r) p = Inr (length pre) \<Longrightarrow>
    write_loop K op (pre @ device_list w us @ CHR 0x00 # r) (length pre + length (device_list w us)) p s =
      Inr (fold op us s)"
proof (induction us arbitrary: pre p s)
  case Nil
  then show ?case
    using strtoul_none_taken[OF K _ alnum_NUL, of 10 r] by (subst write_loop.simps) simp
next
  case (Cons u us)
  let ?n = "fmt_0u w u" and ?t = "device_list w us @ CHR 0x00 # r"
  let ?a = "(pre @ ?n) @ CHR '' '' # ?t"
  obtain c t' where c: "?t = c # t'" "\<not> is_delimitor c" by (rule device_list_hd[OF refl])
  have eat: "EatDelimitor ?a (length pre + length ?n) = Inr (Suc (length pre + length ?n))"
    using Eat_space_stop[OF c(2), of "pre @ ?n" t'] by (simp add: c(1))
  have ne: "?n \<noteq> []" by (simp add: fmt_0u_def fmt_u_def)
  have "write_loop K op ?a (length pre + length (device_list w (u # us))) p s =
      write_loop K op ?a (length pre + length (device_list w (u # us))) (length pre + length ?n) (op u s)"
    using Cons.prems strtoul_device[OF K alnum_space, of w u ?t] ne
    by (subst write_loop.simps) simp
  also have "\<dots> = Inr (fold op us (op u s))"
    using Cons.IH[of "pre @ ?n @ '' ''" "length pre + length ?n" "op u s"] eat by (simp add: add.assoc)
  finally show ?case by simp
qed

lemma buf_end_le: "buf_end c \<le> 255"
  by (simp add: buf_end_def BUF_SIZE_def min_le_iff_disj)

lemma buf_end_of_nat: "n \<le> 255 \<Longrightarrow> buf_end (of_nat n) = n"
  by (simp add: buf_end_def BUF_SIZE_def unat_of_nat)

lemma copy_all:
  assumes "length stack = BUF_SIZE" "length user \<le> 255" "stack ! length user = c"
  obtains r where "copy_from_user (length user) user stack = user @ c # r"
proof -
  have "length user < length stack" using assms by (simp add: BUF_SIZE_def)
  then have "drop (length user) stack = c # drop (Suc (length user)) stack"
    using assms(3) by (metis Cons_nth_drop_Suc)
  then show thesis by (intro that) (simp add: copy_from_user_def)
qed

lemma write_list:
  assumes K: "strtoul_ok K" and st: "length stack = BUF_SIZE"
    and len: "length (device_list w us) \<le> 255" and nul: "stack ! length (device_list w us) = CHR 0x00"
  shows "write_loop K op (copy_from_user (length (device_list w us)) (device_list w us) stack)
     (length (device_list w us)) 0 s = Inr (fold op us s)"
proof -
  obtain r where a: "copy_from_user (length (device_list w us)) (device_list w us) stack =
      device_list w us @ CHR 0x00 # r"
    by (rule copy_all[OF st len nul])
  obtain c t' where c: "device_list w us @ CHR 0x00 # r = c # t'" "\<not> is_delimitor c"
    by (rule device_list_hd[OF refl])
  then have "EatDelimitor (device_list w us @ CHR 0x00 # r) 0 = Inr 0"
    using Eat_stop[OF c(2), of "[]" t'] by simp
  then show ?thesis unfolding a using write_loop_device_list[OF K, of "[]" w us r 0 op s] by simp
qed

text \<open>C34. Writing a list of device numbers, each followed by a space and printed as the read
  functions print them, enables (for \<open>enabled\<close>) or disables (for \<open>disabled\<close>) exactly the
  devices of the list that exist, changes no other device, and returns the whole count: when the
  byte that happens to follow the text in the uninitialised array is a NUL.\<close>

theorem Write_lists:
  assumes K: "strtoul_ok K" and ok: "settings_ok s" and st: "length stack = BUF_SIZE"
    and len: "length (device_list w us) \<le> 255" and nul: "stack ! length (device_list w us) = CHR 0x00"
  shows "(\<exists>s1. Write_Enabled K stack (device_list w us) (of_nat (length (device_list w us))) s =
            Inr (of_nat (length (device_list w us)), s1) \<and>
          (\<forall>v. enabled s1 v \<longleftrightarrow> enabled s v \<or> (v \<in> set us \<and> unat v < N_DEVICES))) \<and>
         (\<exists>s2. Write_Disabled K stack (device_list w us) (of_nat (length (device_list w us))) s =
            Inr (of_nat (length (device_list w us)), s2) \<and>
          (\<forall>v. enabled s2 v \<longleftrightarrow> enabled s v \<and> v \<notin> set us))"
  using enabled_en[OF ok, of us] enabled_dis[OF ok, of us]
  by (auto simp: Write_Enabled_def Write_Disabled_def Let_def buf_end_of_nat[OF len]
      write_list[OF K st len nul])

definition zero_stack :: string where "zero_stack = replicate BUF_SIZE (CHR 0x00)"

lemma zero_stack_ok: "length zero_stack = BUF_SIZE" "n < BUF_SIZE \<Longrightarrow> zero_stack ! n = CHR 0x00"
  by (simp_all add: zero_stack_def)

lemma list_3_12: "device_list 2 [3, 12] = ''03 12 ''"
  by (simp add: fmt_0u_def fmt_u_def fmt_nat_def zpad_def digits_base.simps digit_char_def char_of_def
      bit_iff_odd)

theorem Write_lists_witness:
  "\<exists>s1. Write_Enabled linux_env zero_stack ''03 12 '' 6 settings_init = Inr (6, s1) \<and> enabled s1 12"
  using Write_lists[OF linux_strtoul_ok settings_init_ok zero_stack_ok(1), of 2 "[3, 12]"]
    zero_stack_ok(2)[of 6]
  unfolding list_3_12 by (simp add: BUF_SIZE_def N_DEVICES_def numeral_eq_Suc) auto

text \<open>C35. The array is not terminated, so a number is read on into what the stack held before: if
  the text the user wrote is the beginning of the numeral of \<open>m\<close> and the bytes left on the stack
  happen to be its end, device \<open>m\<close> is enabled (writing \<open>1\<close> may enable device 15).\<close>

theorem Write_Enabled_reads_stack:
  assumes K: "strtoul_ok K" and ok: "settings_ok s"
    and user: "user \<noteq> []" "length user < length (fmt_nat m)" "length user \<le> 255"
    and arr: "user @ drop (length user) stack = fmt_nat m @ CHR 0x00 # r" and m: "m < N_DEVICES"
  shows "\<exists>s'. Write_Enabled K stack user (of_nat (length user)) s = Inr (of_nat (length user), s') \<and>
    (\<forall>v. enabled s' v \<longleftrightarrow> enabled s v \<or> v = of_nat m)"
proof -
  let ?a = "fmt_nat m @ CHR 0x00 # r" and ?k = "length user"
  obtain c cs where c: "fmt_nat m = c # cs" using fmt_nat_nonempty by (cases "fmt_nat m") auto
  then have "\<not> is_delimitor c" using fmt_nat_alnum[of m] is_alnum_not_delimitor by simp
  then have eat0: "EatDelimitor ?a 0 = Inr 0" using Eat_stop[of c "[]" "cs @ CHR 0x00 # r"] c by simp
  have eat1: "EatDelimitor ?a (length (fmt_nat m)) = Inr (length (fmt_nat m))"
    by (rule Eat_stop[OF delimitor_NUL])
  have num: "simple_strtoul K ?a 10 = Some (of_nat m, length (fmt_nat m))"
    using m by (intro strtoul_numeral[OF K _ _ alnum_NUL]) (simp_all add: N_DEVICES_def)
  have stop: "write_loop K op ?a ?k (length (fmt_nat m)) t = Inr t" for op t
    using eat1 strtoul_none_taken[OF K _ alnum_NUL, of 10 r] by (subst write_loop.simps) simp
  have "write_loop K SideDumper_Enable ?a ?k 0 s = Inr (SideDumper_Enable (of_nat m) s)"
    using eat0 num user stop by (subst write_loop.simps) simp
  moreover have "unat (of_nat m :: u32) < N_DEVICES" using m by (simp add: N_DEVICES_def unat_of_nat)
  ultimately show ?thesis
    using enabled_en[OF ok, of "[of_nat m]"] arr
    by (simp add: Write_Enabled_def Let_def buf_end_of_nat[OF user(3)] copy_from_user_def) blast
qed

definition stack_x5 :: string where "stack_x5 = ''x5'' @ replicate 254 (CHR 0x00)"

lemma fmt_15: "fmt_nat 15 = ''15''"
  by (simp add: fmt_nat_def digits_base.simps digit_char_def char_of_def bit_iff_odd)

theorem Write_Enabled_reads_stack_witness:
  "\<exists>s'. Write_Enabled linux_env stack_x5 ''1'' 1 settings_init = Inr (1, s') \<and> enabled s' 15"
proof -
  have a: "''1'' @ drop (length ''1'') stack_x5 = fmt_nat 15 @ CHR 0x00 # replicate 253 (CHR 0x00)"
    using replicate_Suc[of 253 "CHR 0x00"] by (simp add: stack_x5_def fmt_15)
  have h: "''1'' \<noteq> []" "length ''1'' < length (fmt_nat 15)" "length ''1'' \<le> 255" "(15::nat) < N_DEVICES"
    by (simp_all add: fmt_15 N_DEVICES_def)
  show ?thesis
    using Write_Enabled_reads_stack[OF linux_strtoul_ok settings_init_ok h(1-3) a h(4)] by auto
qed

subsection \<open>Staying inside the array\<close>

lemma EatDelimitor_fails_iff:
  "EatDelimitor a p = Inl Out_of_array \<longleftrightarrow> (\<forall>q. p \<le> q \<and> q < length a \<longrightarrow> is_delimitor (a ! q))"
proof (induction a p rule: EatDelimitor.induct)
  case (1 a p)
  show ?case
  proof (cases "p < length a \<and> is_delimitor (a ! p)")
    case True
    then have "(\<forall>q. p \<le> q \<and> q < length a \<longrightarrow> is_delimitor (a ! q)) \<longleftrightarrow>
        (\<forall>q. p + 1 \<le> q \<and> q < length a \<longrightarrow> is_delimitor (a ! q))"
      by (metis Suc_eq_plus1 Suc_leD le_antisym not_less_eq_eq)
    with True 1 show ?thesis by (subst EatDelimitor.simps) simp
  next
    case False
    then show ?thesis by (subst EatDelimitor.simps) auto
  qed
qed

lemma EatDelimitor_err: "EatDelimitor a p = Inl e \<Longrightarrow> EatDelimitor a p = Inl Out_of_array"
  by (cases e) simp

lemma Eat_before_NUL:
  assumes "a ! z = CHR 0x00" "z < length a" "p \<le> z"
  obtains q where "EatDelimitor a p = Inr q" "p \<le> q" "q \<le> z"
proof -
  have "EatDelimitor a p = Inr q \<Longrightarrow> q \<le> z" for q
    using assms
  proof (induction a p rule: EatDelimitor.induct)
    case (1 a p)
    show ?case
    proof (cases "is_delimitor (a ! p)")
      case True
      with "1.prems" delimitor_NUL have "p \<noteq> z" by metis
      with True 1 show ?thesis by (subst (asm) (2) EatDelimitor.simps) simp
    next
      case False
      with 1 show ?thesis by (subst (asm) (2) EatDelimitor.simps) simp
    qed
  qed
  moreover have "\<not> is_delimitor (a ! z)" using assms(1) delimitor_NUL by metis
  then have "EatDelimitor a p \<noteq> Inl Out_of_array"
    using assms unfolding EatDelimitor_fails_iff by blast
  ultimately show thesis
    using EatDelimitor_err EatDelimitor_stop that by (cases "EatDelimitor a p") blast+
qed

lemma NUL_split:
  assumes "a ! z = CHR 0x00" "z < length a" "q \<le> z"
  obtains t r where "drop q a = t @ CHR 0x00 # r" "CHR 0x00 \<notin> set t" "q + length t \<le> z"
proof -
  let ?d = "drop q a" and ?P = "\<lambda>c. c \<noteq> CHR 0x00"
  have nth: "?d ! (z - q) = CHR 0x00" "z - q < length ?d" using assms by simp_all
  then have "CHR 0x00 \<in> set ?d" by (metis nth_mem)
  then have ne: "dropWhile ?P ?d \<noteq> []" by simp
  have "?d = takeWhile ?P ?d @ CHR 0x00 # tl (dropWhile ?P ?d)"
    using hd_dropWhile[OF ne] ne by (metis takeWhile_dropWhile_id list.collapse)
  moreover have "length (takeWhile ?P ?d) \<le> z - q"
    using nth by (metis (mono_tags, lifting) linorder_not_le nth_mem set_takeWhileD takeWhile_nth)
  ultimately show thesis using assms(3) by (intro that) (auto dest: set_takeWhileD)
qed

lemma strtoul_before_NUL:
  assumes "strtoul_ok K" "b \<in> {0, 10}" "a ! z = CHR 0x00" "z < length a" "q \<le> z"
  obtains v n where "simple_strtoul K (drop q a) b = Some (v, n)" "q + n \<le> z"
proof -
  obtain t r where t: "drop q a = t @ CHR 0x00 # r" "CHR 0x00 \<notin> set t" "q + length t \<le> z"
    by (rule NUL_split[OF assms(3-5)])
  obtain v n where "simple_strtoul K (t @ CHR 0x00 # r) b = Some (v, n)" "n \<le> length t"
    using strtoul_NUL[OF assms(1,2) t(2)] by blast
  with t that show thesis by simp
qed

lemma memcmp_before_NUL:
  "a ! z = CHR 0x00 \<Longrightarrow> z < length a \<Longrightarrow> q \<le> z \<Longrightarrow> CHR 0x00 \<notin> set nm \<Longrightarrow>
   \<exists>b. memcmp_eq a q nm = Inr b \<and> (b \<longrightarrow> q + length nm \<le> z)"
proof (induction nm arbitrary: q)
  case (Cons c cs)
  show ?case
  proof (cases "a ! q = c")
    case True
    with Cons.prems have "q \<noteq> z" by auto
    with Cons.IH[of "Suc q"] Cons.prems show ?thesis by auto
  qed (use Cons.prems in auto)
qed auto

lemma find_before_NUL:
  assumes "a ! z = CHR 0x00" "z < length a" "q \<le> z" "\<forall>x \<in> set xs. CHR 0x00 \<notin> set (fst x)"
  shows "\<exists>o'. find_setting a q xs = Inr o' \<and> (\<forall>x. o' = Some x \<longrightarrow> x \<in> set xs \<and> q + length (fst x) \<le> z)"
  using assms(4)
proof (induction xs)
  case (Cons x xs)
  with memcmp_before_NUL[OF assms(1-3), of "fst x"] obtain b where
    "memcmp_eq a q (fst x) = Inr b" "b \<longrightarrow> q + length (fst x) \<le> z" by auto
  with Cons show ?case by (cases b) auto
qed simp

lemma setting_table_ok:
  "x \<in> set setting_table \<Longrightarrow> CHR 0x00 \<notin> set (fst x) \<and> fst (snd x) \<in> {0, 10}"
  by (auto simp: setting_table_def szEnabled_def szAsync_def szOutLimit_def szInLimit_def)

lemma write_loop_before_NUL:
  assumes K: "strtoul_ok K" and z: "a ! z = CHR 0x00" "z < length a"
  shows "p \<le> z \<Longrightarrow> \<exists>s'. write_loop K op a e p s = Inr s'"
proof (induction "z - p" arbitrary: p s rule: less_induct)
  case less
  obtain q where q: "EatDelimitor a p = Inr q" "p \<le> q" "q \<le> z"
    by (rule Eat_before_NUL[OF z less.prems])
  obtain v n where v: "simple_strtoul K (drop q a) 10 = Some (v, n)" "q + n \<le> z"
    by (rule strtoul_before_NUL[OF K _ z q(3), of 10]) simp
  show ?case
  proof (cases "n = 0 \<or> e \<le> q")
    case True
    with q v show ?thesis by (subst write_loop.simps) simp
  next
    case False
    then have "0 < n" by simp
    then have "z - (q + n) < z - p" using q(2) v(2) by linarith
    from less.hyps[OF this v(2)] False q v show ?thesis by (subst write_loop.simps) simp
  qed
qed

lemma takeWhile_NUL: "CHR 0x00 \<notin> set t \<Longrightarrow> takeWhile (\<lambda>c. c \<noteq> CHR 0x00) (t @ CHR 0x00 # r) = t"
  by (induction t) auto

lemma settings_loop_before_NUL:
  assumes K: "strtoul_ok K" and z: "a ! z = CHR 0x00" "z < length a"
  shows "p \<le> z \<Longrightarrow> \<exists>s'. settings_loop K u a e p d s = Inr s'"
proof (induction "z - p" arbitrary: p d s rule: less_induct)
  case less
  obtain q where q: "EatDelimitor a p = Inr q" "p \<le> q" "q \<le> z"
    by (rule Eat_before_NUL[OF z less.prems])
  obtain o' where o': "find_setting a q setting_table = Inr o'"
    "\<And>x. o' = Some x \<Longrightarrow> x \<in> set setting_table \<and> q + length (fst x) \<le> z"
    using find_before_NUL[OF z q(3), of setting_table] setting_table_ok by blast
  show ?case
  proof (cases "e \<le> q")
    case True
    with q show ?thesis by (subst settings_loop.simps) simp
  next
    case e: False
    show ?thesis
    proof (cases o')
      case None
      obtain t r where "drop q a = t @ CHR 0x00 # r" "CHR 0x00 \<notin> set t"
        by (rule NUL_split[OF z q(3)])
      then have "cstr_at a q = Inr t" by (simp add: cstr_at_def Let_def takeWhile_NUL)
      with None q e o' show ?thesis by (subst settings_loop.simps) simp
    next
      case (Some x)
      obtain nm b f where x: "x = (nm, b, f)" by (cases x) auto
      have b: "b \<in> {0, 10}" and nm: "q + length nm \<le> z"
        using o'(2)[OF Some] setting_table_ok[of x] x by auto
      obtain v n where v: "simple_strtoul K (drop (q + length nm) a) b = Some (v, n)"
        "q + length nm + n \<le> z"
        by (rule strtoul_before_NUL[OF K b z nm])
      show ?thesis
      proof (cases "n = 0")
        case True
        with q e o' Some x v show ?thesis by (subst settings_loop.simps) (simp add: Let_def)
      next
        case False
        then have "0 < n" by simp
        then have "z - (q + length nm + n) < z - p" using q(2) v(2) by linarith
        from less.hyps[OF this v(2)] False q e o' Some x v show ?thesis
          by (subst settings_loop.simps) (simp add: Let_def)
      qed
    qed
  qed
qed

lemma copied_last:
  assumes "length stack = BUF_SIZE" "stack ! 255 = CHR 0x00"
  shows "copy_from_user (buf_end c) user stack ! 255 = CHR 0x00"
    "255 < length (copy_from_user (buf_end c) user stack)"
  using assms buf_end_le[of c] by (simp_all add: copy_from_user_def BUF_SIZE_def nth_append min_def)

text \<open>C36. One NUL in the last byte of the array (which the code never writes) is enough to make
  all three write functions safe for every input: no read goes beyond the array.\<close>

theorem Write_functions_in_bounds:
  assumes K: "strtoul_ok K" and st: "length stack = BUF_SIZE" "stack ! 255 = CHR 0x00"
  shows "Write_Enabled K stack user c s \<noteq> Inl Out_of_array \<and>
    Write_Disabled K stack user c s \<noteq> Inl Out_of_array \<and>
    Write_DeviceSettings K stack user c u s \<noteq> Inl Out_of_array"
proof -
  note z = copied_last[OF st, of c user]
  obtain s1 s2 where
    "write_loop K SideDumper_Enable (copy_from_user (buf_end c) user stack) (buf_end c) 0 s = Inr s1"
    "write_loop K SideDumper_Disable (copy_from_user (buf_end c) user stack) (buf_end c) 0 s = Inr s2"
    using write_loop_before_NUL[OF K z, of 0 SideDumper_Enable "buf_end c" s]
      write_loop_before_NUL[OF K z, of 0 SideDumper_Disable "buf_end c" s] by auto
  moreover have
    "settings_loop K u (copy_from_user (buf_end c) user stack) (buf_end c) 0 d s \<noteq> Inl Out_of_array" for d
    using settings_loop_before_NUL[OF K z, of 0 u "buf_end c" d s] by auto
  ultimately show ?thesis
    by (auto simp: Write_Enabled_def Write_Disabled_def Write_DeviceSettings_def Let_def
        split: option.splits sum.splits prod.splits)
qed

theorem Write_functions_in_bounds_witness:
  "Write_DeviceSettings linux_env zero_stack ''Enabled:'' 8 1 settings_init \<noteq> Inl Out_of_array"
  using Write_functions_in_bounds[OF linux_strtoul_ok zero_stack_ok(1) zero_stack_ok(2),
    of "''Enabled:''" 8 settings_init 1]
  by (simp add: BUF_SIZE_def)

text \<open>Without it the functions do read beyond the array: 255 or more bytes of blanks and
  commas and a stack that happens to end in one more send \<open>EatDelimitor\<close> past the end, whatever
  the state and the device (if it exists).\<close>

theorem Write_functions_overrun:
  assumes st: "length stack = BUF_SIZE" "is_delimitor (stack ! 255)"
    and user: "255 \<le> length user" "\<forall>c \<in> set user. is_delimitor c" and u: "unat u < N_DEVICES"
  shows "Write_Enabled K stack user (- 1) s = Inl Out_of_array \<and>
    Write_Disabled K stack user (- 1) s = Inl Out_of_array \<and>
    Write_DeviceSettings K stack user (- 1) u s = Inl Out_of_array"
proof -
  let ?a = "copy_from_user 255 user stack"
  have e: "buf_end (- 1) = 255"
    by (simp add: buf_end_def BUF_SIZE_def unsigned_minus_1_eq_mask mask_eq_exp_minus_1)
  have "length ?a = 256" using st user by (simp add: copy_from_user_def BUF_SIZE_def)
  moreover have "is_delimitor (?a ! q)" if "q < 256" for q
  proof (cases "q < 255")
    case True
    then have "?a ! q = user ! q" using user by (simp add: copy_from_user_def nth_append)
    with True user show ?thesis by simp
  next
    case False
    with that have "q = 255" by simp
    then show ?thesis using st user by (simp add: copy_from_user_def nth_append BUF_SIZE_def)
  qed
  ultimately have "EatDelimitor ?a 0 = Inl Out_of_array" by (simp add: EatDelimitor_fails_iff)
  then show ?thesis
    using u by (simp add: Write_Enabled_def Write_Disabled_def Write_DeviceSettings_def Let_def e
        write_loop.simps settings_loop.simps SideDumper_GetDeviceSettings_def)
qed

theorem Write_functions_overrun_witness:
  "Write_Enabled linux_env (replicate 256 (CHR '' '')) (replicate 300 (CHR '','')) (- 1) settings_init =
     Inl Out_of_array"
  using Write_functions_overrun[of "replicate 256 (CHR '' '')" "replicate 300 (CHR '','')" 1 linux_env settings_init]
  by (simp add: BUF_SIZE_def is_delimitor_def N_DEVICES_def)

subsection \<open>Settings\<close>

lemma memcmp_hit: "memcmp_eq (pre @ nm @ r) (length pre) nm = Inr True"
proof (induction nm arbitrary: pre)
  case (Cons c nm)
  then show ?case using Cons.IH[of "pre @ [c]"] by simp
qed simp

lemma memcmp_miss: "c \<noteq> c' \<Longrightarrow> memcmp_eq (pre @ c # r) (length pre) (c' # cs) = Inr False"
  by simp

lemmas setting_names = szEnabled_def szAsync_def szOutLimit_def szInLimit_def

lemma find_Enabled: "find_setting (pre @ ''Enabled:'' @ r) (length pre) setting_table =
    Inr (Some (szEnabled, 10, \<lambda>v d. d\<lparr>oEnabled := v\<rparr>))"
  using memcmp_hit[of pre "''Enabled:''" r] by (simp add: setting_table_def setting_names)

lemma find_Async: "find_setting (pre @ ''Async:'' @ r) (length pre) setting_table =
    Inr (Some (szAsync, 10, \<lambda>v d. d\<lparr>oAsync := v\<rparr>))"
  using memcmp_hit[of pre "''Async:''" r] by (simp add: setting_table_def setting_names)

lemma find_OutLimit: "find_setting (pre @ ''OutLimit:'' @ r) (length pre) setting_table =
    Inr (Some (szOutLimit, 0, \<lambda>v d. d\<lparr>uOutLimit := v\<rparr>))"
  using memcmp_hit[of pre "''OutLimit:''" r] by (simp add: setting_table_def setting_names)

lemma find_InLimit: "find_setting (pre @ ''InLimit:'' @ r) (length pre) setting_table =
    Inr (Some (szInLimit, 0, \<lambda>v d. d\<lparr>uInLimit := v\<rparr>))"
  using memcmp_hit[of pre "''InLimit:''" r] by (simp add: setting_table_def setting_names)

lemma settings_step:
  assumes K: "strtoul_ok K" and eat: "EatDelimitor a p = Inr (length pre)"
    and a: "a = pre @ nm @ fmt_u v @ c # r" and c: "\<not> is_alnum c"
    and find: "find_setting a (length pre) setting_table = Inr (Some (nm, b, f))"
    and e: "length pre < e"
  shows "settings_loop K u a e p d s =
    settings_loop K u a e (length pre + length nm + length (fmt_u v)) (f v d)
      (SideDumper_SetDeviceSettings u (Some (f v d)) s)"
proof -
  have b: "b \<in> {0, 10}"
    using find_setting_in[OF find] setting_table_ok[of "(nm, b, f)"] by simp
  have "unat v < 2 ^ 32" using unsigned_less[of v, where 'a = nat] by simp
  then have "simple_strtoul K (fmt_u v @ c # r) b = Some (v, length (fmt_u v))"
    using strtoul_numeral[OF K b _ c, of "unat v" r] by (simp add: fmt_u_def)
  moreover have "drop (length pre + length nm) a = fmt_u v @ c # r" by (simp add: a)
  moreover have "length (fmt_u v) \<noteq> 0" by (simp add: fmt_u_def)
  ultimately show ?thesis using eat find e by (subst settings_loop.simps) (simp add: Let_def)
qed

lemma settings_last:
  assumes "EatDelimitor a p = Inr e"
  shows "settings_loop K u a e p d s = Inr s"
  using assms by (subst settings_loop.simps) simp

text \<open>The four settings that follow each other.\<close>

lemma settings_loop_text:
  assumes K: "strtoul_ok K" and a: "a = settings_text n @ CHR 0x00 # r"
  shows "settings_loop K u a (length (settings_text n)) 0 d s =
    (let set = \<lambda>d. SideDumper_SetDeviceSettings u (Some d);
         d1 = d\<lparr>oEnabled := oEnabled n\<rparr>; d2 = d1\<lparr>oAsync := oAsync n\<rparr>;
         d3 = d2\<lparr>uOutLimit := uOutLimit n\<rparr>; d4 = d3\<lparr>uInLimit := uInLimit n\<rparr>
     in Inr (set d4 (set d3 (set d2 (set d1 s)))))"
proof -
  let ?e = "length (settings_text n)"
  let ?p1 = "''Enabled:'' @ fmt_u (oEnabled n)"
  let ?p2 = "?p1 @ '' '' @ ''Async:'' @ fmt_u (oAsync n)"
  let ?p3 = "?p2 @ '' '' @ ''OutLimit:'' @ fmt_u (uOutLimit n)"
  let ?p4 = "?p3 @ '' '' @ ''InLimit:'' @ fmt_u (uInLimit n)"
  let ?r2 = "''Async:'' @ fmt_u (oAsync n) @ '' '' @ ''OutLimit:'' @ fmt_u (uOutLimit n) @ '' '' @
    ''InLimit:'' @ fmt_u (uInLimit n) @ CHR 0x00 # r"
  let ?r3 = "''OutLimit:'' @ fmt_u (uOutLimit n) @ '' '' @ ''InLimit:'' @ fmt_u (uInLimit n) @ CHR 0x00 # r"
  let ?r4 = "''InLimit:'' @ fmt_u (uInLimit n) @ CHR 0x00 # r"
  have a1: "a = [] @ szEnabled @ fmt_u (oEnabled n) @ CHR '' '' # ?r2"
    and a2: "a = (?p1 @ '' '') @ szAsync @ fmt_u (oAsync n) @ CHR '' '' # ?r3"
    and a3: "a = (?p2 @ '' '') @ szOutLimit @ fmt_u (uOutLimit n) @ CHR '' '' # ?r4"
    and a4: "a = (?p3 @ '' '') @ szInLimit @ fmt_u (uInLimit n) @ CHR 0x00 # r"
    and a5: "a = ?p4 @ CHR 0x00 # r"
    by (simp_all add: a settings_text_def setting_names)
  have e: "?e = length ?p4" by (simp add: settings_text_def)
  have nd: "\<not> is_delimitor (CHR ''E'')" "\<not> is_delimitor (CHR ''A'')" "\<not> is_delimitor (CHR ''O'')"
    "\<not> is_delimitor (CHR ''I'')" by (simp_all add: is_delimitor_def)
  have eat1: "EatDelimitor a 0 = Inr (length [])"
    using Eat_stop[OF nd(1), of "[]"] by (simp add: a settings_text_def)
  have eat2: "EatDelimitor a (length ?p1) = Inr (length (?p1 @ '' ''))"
    using Eat_space_stop[OF nd(2), of ?p1 "tl ?r2"] by (simp add: a settings_text_def)
  have eat3: "EatDelimitor a (length ?p2) = Inr (length (?p2 @ '' ''))"
    using Eat_space_stop[OF nd(3), of ?p2 "tl ?r3"] by (simp add: a settings_text_def)
  have eat4: "EatDelimitor a (length ?p3) = Inr (length (?p3 @ '' ''))"
    using Eat_space_stop[OF nd(4), of ?p3 "tl ?r4"] by (simp add: a settings_text_def)
  have eat5: "EatDelimitor a (length ?p4) = Inr ?e"
    unfolding e a5 by (rule Eat_stop[OF delimitor_NUL])
  note find = find_Enabled[of "[]"] find_Async find_OutLimit find_InLimit
  have f1: "find_setting a (length []) setting_table =
      Inr (Some (szEnabled, 10, \<lambda>v d. d\<lparr>oEnabled := v\<rparr>))"
    unfolding a1 szEnabled_def using find(1) by (simp add: szEnabled_def)
  have f2: "find_setting a (length (?p1 @ '' '')) setting_table =
      Inr (Some (szAsync, 10, \<lambda>v d. d\<lparr>oAsync := v\<rparr>))"
    by (subst a2) (unfold szAsync_def, rule find(2)[unfolded szAsync_def])
  have f3: "find_setting a (length (?p2 @ '' '')) setting_table =
      Inr (Some (szOutLimit, 0, \<lambda>v d. d\<lparr>uOutLimit := v\<rparr>))"
    by (subst a3) (unfold szOutLimit_def, rule find(3)[unfolded szOutLimit_def])
  have f4: "find_setting a (length (?p3 @ '' '')) setting_table =
      Inr (Some (szInLimit, 0, \<lambda>v d. d\<lparr>uInLimit := v\<rparr>))"
    by (subst a4) (unfold szInLimit_def, rule find(4)[unfolded szInLimit_def])
  note step = settings_step[OF K _ _ _ _ _, where e = ?e and a = a and u = u]
  have pos: "length [] + length szEnabled + length (fmt_u (oEnabled n)) = length ?p1"
    "length (?p1 @ '' '') + length szAsync + length (fmt_u (oAsync n)) = length ?p2"
    "length (?p2 @ '' '') + length szOutLimit + length (fmt_u (uOutLimit n)) = length ?p3"
    "length (?p3 @ '' '') + length szInLimit + length (fmt_u (uInLimit n)) = length ?p4"
    by (simp_all add: setting_names)
  have lt: "length [] < ?e" "length (?p1 @ '' '') < ?e" "length (?p2 @ '' '') < ?e"
    "length (?p3 @ '' '') < ?e" by (simp_all add: e)
  show ?thesis
    unfolding Let_def step[OF eat1 a1 alnum_space f1 lt(1), unfolded pos]
      step[OF eat2 a2 alnum_space f2 lt(2), unfolded pos]
      step[OF eat3 a3 alnum_space f3 lt(3), unfolded pos]
      step[OF eat4 a4 alnum_NUL f4 lt(4), unfolded pos] settings_last[OF eat5] by (rule refl)
qed

lemma settings_text_length_74: "length (settings_text n) \<le> 74"
  using fmt_u_length[of "oEnabled n"] fmt_u_length[of "oAsync n"] fmt_u_length[of "uOutLimit n"]
    fmt_u_length[of "uInLimit n"] by (simp add: settings_text_def)

lemma settings_text_length: "length (settings_text n) \<le> 255"
  using settings_text_length_74[of n] by simp

text \<open>The whole line that is printed is no list of settings.\<close>

lemma PrintSettings_line:
  "unat u < N_DEVICES \<Longrightarrow> PrintSettings u s = ''SideDumper: device_'' @ fmt_0u 2 u @ '' settings = [ '' @
     settings_text (aDevSettings s ! unat u) @ '' ]'' @ [CHR 0x0A]"
  by (simp add: PrintSettings_def SideDumper_GetDeviceSettings_def)

lemma fmt_0u_length: "w \<le> 10 \<Longrightarrow> length (fmt_0u w x) \<le> 10"
  using fmt_u_length[of x] by (simp add: fmt_0u_def)

lemma PrintSettings_length: "length (PrintSettings u s) \<le> 140"
  using fmt_0u_length[of 2 u] settings_text_length_74[of "aDevSettings s ! unat u"]
  by (simp add: PrintSettings_def SideDumper_GetDeviceSettings_def)

lemma PrintSettings_short: "length (PrintSettings u s) \<le> 255"
  using PrintSettings_length[of u s] by simp

lemma line_rejected:
  assumes st: "length stack = BUF_SIZE" and u: "unat u < N_DEVICES" and nul: "stack ! length (PrintSettings u s) = CHR 0x00"
  shows "\<exists>t. Write_DeviceSettings K stack (PrintSettings u s) (of_nat (length (PrintSettings u s))) u s =
    Inr (Inr (of_nat (length (PrintSettings u s))), log_msg (Printk KERN_WARNING t) s)"
proof -
  let ?l = "PrintSettings u s" and ?d = "aDevSettings s ! unat u"
  obtain r where a: "copy_from_user (length ?l) ?l stack = ?l @ CHR 0x00 # r"
    by (rule copy_all[OF st PrintSettings_short nul])
  obtain cs where l: "?l = CHR ''S'' # cs" using PrintSettings_line[OF u, of s] by simp
  let ?a = "CHR ''S'' # cs @ CHR 0x00 # r"
  have eat: "EatDelimitor ?a 0 = Inr 0" using Eat_stop[of "CHR ''S''" "[]" "cs @ CHR 0x00 # r"] by (simp add: is_delimitor_def)
  have find: "find_setting ?a 0 setting_table = Inr None"
    by (simp add: setting_table_def szEnabled_def szAsync_def szOutLimit_def szInLimit_def)
  have "takeWhile (\<lambda>c. c \<noteq> CHR 0x00) ?a \<noteq> ?a" unfolding takeWhile_eq_all_conv by simp
  then have "length (takeWhile (\<lambda>c. c \<noteq> CHR 0x00) ?a) < length ?a"
    by (metis length_takeWhile_le le_neq_implies_less takeWhile_eq_take take_all_iff order_refl)
  then obtain t where t: "cstr_at ?a 0 = Inr t" by (simp add: cstr_at_def Let_def del: takeWhile.simps)
  have "\<exists>m. settings_loop K u ?a (length ?l) 0 ?d s = Inr (log_msg (Printk KERN_WARNING m) s)"
    by (subst settings_loop.simps) (simp add: eat find t l, rule exI, rule refl)
  then obtain m where "settings_loop K u (?l @ CHR 0x00 # r) (length ?l) 0 ?d s = Inr (log_msg (Printk KERN_WARNING m) s)"
    unfolding l append_Cons by blast
  then show ?thesis
    using u by (intro exI[of _ m]) (simp add: Write_DeviceSettings_def Let_def SideDumper_GetDeviceSettings_def a
        buf_end_of_nat[OF PrintSettings_short])
qed

text \<open>C37. What the settings file prints between its brackets, \<open>Enabled:1 Async:0 ...\<close>, can be
  written to it: for any values of the four settings, writing this text sets exactly them, keeps the
  device's dumper function and every other device, and returns the whole count; and from then on
  the file prints this text between its brackets. The line with the brackets is not accepted: written
  to the file it is taken for one unknown setting, which is logged, and nothing is set. (The bytes
  that the stack buffer holds behind the text start with a NUL, since the code does not write one.)\<close>

theorem Write_DeviceSettings_roundtrip:
  assumes K: "strtoul_ok K" and ok: "settings_ok s" and u: "unat u < N_DEVICES"
    and st: "length stack = BUF_SIZE" and nul: "stack ! length (settings_text n) = CHR 0x00"
  shows "\<exists>s'. Write_DeviceSettings K stack (settings_text n) (of_nat (length (settings_text n))) u s =
      Inr (Inr (of_nat (length (settings_text n))), s') \<and>
    device s' u = map_option (\<lambda>d. n\<lparr>pfnDumper := pfnDumper d\<rparr>) (device s u) \<and>
    (\<forall>v. v \<noteq> u \<longrightarrow> device s' v = device s v) \<and>
    PrintSettings u s' = ''SideDumper: device_'' @ fmt_0u 2 u @ '' settings = [ '' @ settings_text n @ '' ]'' @ [CHR 0x0A] \<and>
    (stack ! length (PrintSettings u s') = CHR 0x00 \<longrightarrow>
      (\<exists>t. Write_DeviceSettings K stack (PrintSettings u s') (of_nat (length (PrintSettings u s'))) u s' =
         Inr (Inr (of_nat (length (PrintSettings u s'))), log_msg (Printk KERN_WARNING t) s')))"
proof -
  let ?d = "aDevSettings s ! unat u"
  have g: "SideDumper_GetDeviceSettings u (Some zero_settings) s = (None, Some ?d)"
    using u by (simp add: SideDumper_GetDeviceSettings_def)
  obtain r where "copy_from_user (length (settings_text n)) (settings_text n) stack =
      settings_text n @ CHR 0x00 # r"
    by (rule copy_all[OF st settings_text_length nul])
  note loop = settings_loop_text[OF K this, of u ?d s, unfolded Let_def]
  have "d\<lparr>oEnabled := oEnabled n, oAsync := oAsync n, uOutLimit := uOutLimit n, uInLimit := uInLimit n\<rparr> =
      n\<lparr>pfnDumper := pfnDumper d\<rparr>" for d
    by (cases d; cases n) simp
  moreover have "device s u = Some ?d" using u by (simp add: device_simp)
  ultimately have "\<exists>s'. Write_DeviceSettings K stack (settings_text n) (of_nat (length (settings_text n))) u s =
      Inr (Inr (of_nat (length (settings_text n))), s') \<and>
    device s' u = map_option (\<lambda>d. n\<lparr>pfnDumper := pfnDumper d\<rparr>) (device s u) \<and> (\<forall>v. v \<noteq> u \<longrightarrow> device s' v = device s v)"
    by (simp add: Write_DeviceSettings_def Let_def g buf_end_of_nat[OF settings_text_length]
        loop setd.op_lookup setd.op_ok ok)
  then obtain s' where s': "Write_DeviceSettings K stack (settings_text n) (of_nat (length (settings_text n))) u s =
      Inr (Inr (of_nat (length (settings_text n))), s')"
    "device s' u = map_option (\<lambda>d. n\<lparr>pfnDumper := pfnDumper d\<rparr>) (device s u)" "\<forall>v. v \<noteq> u \<longrightarrow> device s' v = device s v"
    by blast
  have "aDevSettings s' ! unat u = n\<lparr>pfnDumper := pfnDumper ?d\<rparr>" using s'(2) u by (simp add: device_simp)
  then have "settings_text (aDevSettings s' ! unat u) = settings_text n" by (simp add: settings_text_def)
  then show ?thesis
    using s' PrintSettings_line[OF u, of s'] line_rejected[OF st u, of s' K] by (intro exI[of _ s']) simp
qed

definition new_settings :: settings where
  "new_settings = \<lparr>oEnabled = 1, oAsync = 1, pfnDumper = None, uOutLimit = 64, uInLimit = 0\<rparr>"

theorem Write_DeviceSettings_roundtrip_witness:
  "\<exists>s'. Write_DeviceSettings linux_env zero_stack (settings_text new_settings)
     (of_nat (length (settings_text new_settings))) 3 settings_init =
       Inr (Inr (of_nat (length (settings_text new_settings))), s') \<and>
     device s' 3 = Some (new_settings\<lparr>pfnDumper := Some Fn_DumpUrbToPrintk\<rparr>) \<and>
     PrintSettings 3 s' = ''SideDumper: device_'' @ fmt_0u 2 3 @ '' settings = [ '' @ settings_text new_settings @ '' ]'' @ [CHR 0x0A]"
proof -
  have "length (settings_text new_settings) < BUF_SIZE"
    using settings_text_length[of new_settings] by (simp add: BUF_SIZE_def)
  then have n: "zero_stack ! length (settings_text new_settings) = CHR 0x00" by (rule zero_stack_ok(2))
  have u: "unat (3 :: u32) < N_DEVICES" by (simp add: N_DEVICES_def)
  have "device settings_init 3 = Some default_settings"
    by (simp add: device_simp settings_init_def N_DEVICES_def)
  then show ?thesis
    using Write_DeviceSettings_roundtrip[OF linux_strtoul_ok settings_init_ok u zero_stack_ok(1) n]
    by (auto simp: default_settings_def)
qed

section \<open>What the read functions print\<close>

lemma list_devices_eq:
  "u \<le> N_DEVICES \<Longrightarrow> list_devices P s u = device_list 2
     (filter (\<lambda>v. \<exists>d. device s v = Some d \<and> P d) (map of_nat [u..<N_DEVICES]))"
proof (induction "N_DEVICES - u" arbitrary: u)
  case 0
  then show ?case
    by (subst list_devices.simps)
      (simp add: SideDumper_GetDeviceSettings_def N_DEVICES_def g_uMaxDevNumber_def)
next
  case (Suc k)
  then have lt: "u < N_DEVICES" by simp
  then have "unat (of_nat u :: u32) = u" by (simp add: N_DEVICES_def unat_of_nat)
  moreover have "u < g_uMaxDevNumber" using lt by (simp add: N_DEVICES_def g_uMaxDevNumber_def)
  moreover have "[u..<N_DEVICES] = u # [Suc u..<N_DEVICES]" using lt by (rule upt_conv_Cons)
  moreover have "list_devices P s (Suc u) = device_list 2
     (filter (\<lambda>v. \<exists>d. device s v = Some d \<and> P d) (map of_nat [Suc u..<N_DEVICES]))"
    using Suc by (intro Suc.hyps) simp_all
  ultimately show ?case
    using lt by (subst list_devices.simps) (simp add: SideDumper_GetDeviceSettings_def device_simp)
qed

lemma print_all_eq:
  "u \<le> N_DEVICES \<Longrightarrow> print_all s u = concat (map (\<lambda>v. PrintSettings (of_nat v) s) [u..<N_DEVICES])"
proof (induction "N_DEVICES - u" arbitrary: u)
  case 0
  then show ?case
    by (subst print_all.simps)
      (simp add: PrintSettings_def SideDumper_GetDeviceSettings_def N_DEVICES_def g_uMaxDevNumber_def)
next
  case (Suc k)
  then have lt: "u < N_DEVICES" by simp
  then have "unat (of_nat u :: u32) = u" by (simp add: N_DEVICES_def unat_of_nat)
  then have "PrintSettings (of_nat u) s \<noteq> []"
    using lt by (simp add: PrintSettings_def SideDumper_GetDeviceSettings_def)
  moreover have "u < g_uMaxDevNumber" using lt by (simp add: N_DEVICES_def g_uMaxDevNumber_def)
  moreover have "[u..<N_DEVICES] = u # [Suc u..<N_DEVICES]" using lt by (rule upt_conv_Cons)
  moreover have "print_all s (Suc u) = concat (map (\<lambda>v. PrintSettings (of_nat v) s) [Suc u..<N_DEVICES])"
    using Suc by (intro Suc.hyps) simp_all
  ultimately show ?case by (subst print_all.simps) (simp add: Let_def)
qed

text \<open>\<open>enabled\<close> lists in ascending order exactly the enabled devices from 1 to 15,
  \<open>disabled\<close> exactly the others, each as two digits and a blank, so every device from 1 to 15 is
  in one of the two files and never in both (device 0 is in neither).\<close>

theorem Read_lists:
  "Read_Enabled s = ''SideDumper: enabled devices = [ '' @
     device_list 2 (filter (enabled s) (map of_nat [1..<N_DEVICES])) @ '']'' @ [CHR 0x0A] \<and>
   Read_Disabled s = ''SideDumper: disabled devices = [ '' @
     device_list 2 (filter (\<lambda>v. \<not> enabled s v) (map of_nat [1..<N_DEVICES])) @ '']'' @ [CHR 0x0A]"
proof -
  have 1: "(1::nat) \<le> N_DEVICES" by (simp add: N_DEVICES_def)
  have "unat v < N_DEVICES" if "v \<in> set (map of_nat [1..<N_DEVICES])" for v :: u32
    using that by (auto simp: N_DEVICES_def unat_of_nat)
  then have "filter (\<lambda>v. \<exists>d. device s v = Some d \<and> oEnabled d = 0) (map of_nat [1..<N_DEVICES]) =
      filter (\<lambda>v. \<not> enabled s v) (map of_nat [1..<N_DEVICES])"
    by (intro filter_cong) (auto simp: enabled_def device_simp)
  moreover have "(\<lambda>v. \<exists>d. device s v = Some d \<and> oEnabled d \<noteq> 0) = enabled s"
    by (auto simp: enabled_def fun_eq_iff split: option.splits)
  ultimately show ?thesis
    by (simp only: Read_Enabled_def Read_Disabled_def list_devices_eq[OF 1])
qed

lemma length_concat_bound: "(\<And>x. x \<in> set xs \<Longrightarrow> length (f x) \<le> k) \<Longrightarrow> length (concat (map f xs)) \<le> length xs * k"
  by (induction xs) (auto simp: add_mono)

text \<open>The settings file \<open>all\<close> prints the line of every device from 1 to 15 in order, and no
  read function writes more than one page of 4096 bytes.\<close>

theorem Read_fits_page:
  "Read_DeviceSettings g_uDeviceAllNumber s =
     concat (map (\<lambda>v. PrintSettings (of_nat v) s) [1..<N_DEVICES]) \<and>
   length (Read_DeviceSettings u s) \<le> 4096 \<and> length (Read_Enabled s) \<le> 4096 \<and>
   length (Read_Disabled s) \<le> 4096"
proof -
  have 1: "(1::nat) \<le> N_DEVICES" by (simp add: N_DEVICES_def)
  have all: "print_all s 1 = concat (map (\<lambda>v. PrintSettings (of_nat v) s) [1..<N_DEVICES])"
    by (rule print_all_eq[OF 1])
  have "length (print_all s 1) \<le> length [1..<N_DEVICES] * 140"
    unfolding all by (rule length_concat_bound) (rule PrintSettings_length)
  then have "length (Read_DeviceSettings u s) \<le> 4096"
    using PrintSettings_length[of u s] by (simp add: Read_DeviceSettings_def N_DEVICES_def)
  moreover have L: "length (list_devices P s 1) \<le> 165" for P
  proof -
    let ?Q = "\<lambda>v. \<exists>d. device s v = Some d \<and> P d"
    let ?us = "filter ?Q (map of_nat [1..<N_DEVICES])"
    have "length (device_list 2 ?us) \<le> length ?us * 11"
      unfolding device_list_def using fmt_0u_length[of 2] by (intro length_concat_bound) simp
    moreover have "length ?us \<le> 15"
      using length_filter_le[of ?Q "map of_nat [1..<N_DEVICES]"] by (simp add: N_DEVICES_def)
    ultimately show ?thesis unfolding list_devices_eq[OF 1] by linarith
  qed
  have "length (Read_Enabled s) \<le> 4096" "length (Read_Disabled s) \<le> 4096"
    using L[of "\<lambda>d. oEnabled d \<noteq> 0"] L[of "\<lambda>d. oEnabled d = 0"]
    by (simp_all add: Read_Enabled_def Read_Disabled_def)
  ultimately show ?thesis using all by (simp add: Read_DeviceSettings_def)
qed

end
