(* ===== verification/Proc_Entries.thy ===== *)
theory Proc_Entries
  imports Procfs
begin

text \<open>
  Creating and removing the entries under \<open>/proc/side_dumper\<close> (\<open>InstallProcFs\<close> and
  \<open>RemoveProcFs\<close> of \<open>side_dumper_procfs.c\<close>). The proc file system itself is the kernel's: the
  model records the calls made to it, in order, and takes its answers as the parameter \<open>ans\<close>
  (whether the creation of a name in a directory succeeds). A \<open>proc_dir_entry\<close> pointer is the
  name and the directory it was created with; \<open>Proc_root\<close> is the \<open>NULL\<close> parent.
\<close>

datatype pde = Proc_root | Pde string pde

fun pde_name :: "pde \<Rightarrow> string" where
  "pde_name Proc_root = []"
| "pde_name (Pde n _) = n"

datatype read_proc = RP_Enabled | RP_Disabled | RP_DeviceSettings
datatype write_proc = WP_Enabled | WP_Disabled | WP_DeviceSettings

datatype proc_call =
    Proc_mkdir string pde bool
  | Create_proc_entry string pde bool
  | Set_procs pde read_proc "write_proc option" "u32 option"
  | Remove_proc_entry string pde

record procfs_inst =
  pRootDir :: "pde option"
  pSettingsDir :: "pde option"
  calls :: "proc_call list"
  plog :: "kmsg list"

definition procfs_init :: procfs_inst where
  "procfs_init = \<lparr>pRootDir = None, pSettingsDir = None, calls = [], plog = []\<rparr>"

definition do_call :: "proc_call \<Rightarrow> procfs_inst \<Rightarrow> procfs_inst" where
  "do_call c p = p\<lparr>calls := calls p @ [c]\<rparr>"

definition plog_err :: "string \<Rightarrow> procfs_inst \<Rightarrow> procfs_inst" where
  "plog_err t p = p\<lparr>plog := plog p @ [Printk KERN_ERR t]\<rparr>"

text \<open>One \<open>create_proc_entry\<close>; the fields of the entry are set where it succeeded.\<close>

definition make_entry ::
  "(string \<Rightarrow> pde \<Rightarrow> bool) \<Rightarrow> string \<Rightarrow> pde \<Rightarrow> read_proc \<Rightarrow> write_proc option \<Rightarrow> u32 option \<Rightarrow>
   procfs_inst \<Rightarrow> procfs_inst" where
  "make_entry ans n d r w x p =
     (let p1 = do_call (Create_proc_entry n d (ans n d)) p in
      if ans n d then do_call (Set_procs (Pde n d) r w x) p1 else p1)"

definition device_name :: "nat \<Rightarrow> string" where
  "device_name u = ''device_'' @ fmt_0u 2 (of_nat u)"

text \<open>The loop over \<open>device_xx\<close>: it stops at the first device the getter refuses.\<close>

function install_devices ::
  "(string \<Rightarrow> pde \<Rightarrow> bool) \<Rightarrow> settings_state \<Rightarrow> pde \<Rightarrow> nat \<Rightarrow> procfs_inst \<Rightarrow> procfs_inst" where
  "install_devices ans s d u p =
     (if u < g_uMaxDevNumber
      then (case SideDumper_GetDeviceSettings (of_nat u) (Some zero_settings) s of
              (None, _) \<Rightarrow> install_devices ans s d (Suc u)
                (make_entry ans (device_name u) d RP_DeviceSettings (Some WP_DeviceSettings)
                   (Some (of_nat u)) p)
            | (Some _, _) \<Rightarrow> p)
      else p)"
  by pat_completeness auto
termination by (relation "measure (\<lambda>(ans, s, d, u, p). g_uMaxDevNumber - u)") auto

declare install_devices.simps [simp del]

definition InstallProcFs ::
  "(string \<Rightarrow> pde \<Rightarrow> bool) \<Rightarrow> settings_state \<Rightarrow> procfs_inst \<Rightarrow> errno option \<times> procfs_inst" where
  "InstallProcFs ans s p0 =
     (let p1 = (if pRootDir p0 \<noteq> None \<or> pSettingsDir p0 \<noteq> None
                then plog_err ''InstallProcFs: called twice.'' p0 else p0);
          ok = ans ''side_dumper'' Proc_root;
          root = Pde ''side_dumper'' Proc_root;
          p2 = (do_call (Proc_mkdir ''side_dumper'' Proc_root ok) p1)
                 \<lparr>pRootDir := if ok then Some root else None\<rparr> in
      if \<not> ok then (Some EBUSY, plog_err ''InstallProcFs: proc_mkdir() failed.'' p2)
      else let p3 = make_entry ans ''enabled'' root RP_Enabled (Some WP_Enabled) None p2 in
      if \<not> ans ''enabled'' root
      then (Some EBUSY, plog_err ''InstallProcFs: create_proc_entry() failed.'' p3)
      else let p4 = make_entry ans ''disabled'' root RP_Disabled (Some WP_Disabled) None p3 in
      if \<not> ans ''disabled'' root then (Some EBUSY, p4)
      else let ok2 = ans ''device_settings'' root;
               dir = Pde ''device_settings'' root;
               p5 = (do_call (Proc_mkdir ''device_settings'' root ok2) p4)
                      \<lparr>pSettingsDir := if ok2 then Some dir else None\<rparr> in
      if \<not> ok2 then (Some EBUSY, p5)
      else let p6 = make_entry ans ''all'' dir RP_DeviceSettings None (Some g_uDeviceAllNumber) p5 in
      (None, install_devices ans s dir 1 p6))"

function remove_devices :: "settings_state \<Rightarrow> pde \<Rightarrow> nat \<Rightarrow> procfs_inst \<Rightarrow> procfs_inst" where
  "remove_devices s d u p =
     (if u < g_uMaxDevNumber
      then (case SideDumper_GetDeviceSettings (of_nat u) (Some zero_settings) s of
              (None, _) \<Rightarrow> remove_devices s d (Suc u) (do_call (Remove_proc_entry (device_name u) d) p)
            | (Some _, _) \<Rightarrow> p)
      else p)"
  by pat_completeness auto
termination by (relation "measure (\<lambda>(s, d, u, p). g_uMaxDevNumber - u)") auto

declare remove_devices.simps [simp del]

definition RemoveProcFs :: "settings_state \<Rightarrow> procfs_inst \<Rightarrow> procfs_inst" where
  "RemoveProcFs s p0 =
     (let p1 = (case pSettingsDir p0 of
                  None \<Rightarrow> p0
                | Some d \<Rightarrow>
                    (do_call (Remove_proc_entry (pde_name d) Proc_root)
                      (do_call (Remove_proc_entry ''all'' d) (remove_devices s d 1 p0)))
                      \<lparr>pSettingsDir := None\<rparr>) in
      case pRootDir p1 of
        None \<Rightarrow> p1
      | Some r \<Rightarrow>
          (do_call (Remove_proc_entry (pde_name r) Proc_root)
            (do_call (Remove_proc_entry ''disabled'' r) (do_call (Remove_proc_entry ''enabled'' r) p1)))
            \<lparr>pRootDir := None\<rparr>)"

section \<open>What is left behind\<close>

text \<open>The entries a sequence of calls leaves, each by name and directory.\<close>

fun after_call :: "(string \<times> pde) set \<Rightarrow> proc_call \<Rightarrow> (string \<times> pde) set" where
  "after_call E (Proc_mkdir n d ok) = (if ok then insert (n, d) E else E)"
| "after_call E (Create_proc_entry n d ok) = (if ok then insert (n, d) E else E)"
| "after_call E (Set_procs _ _ _ _) = E"
| "after_call E (Remove_proc_entry n d) = E - {(n, d)}"

definition left :: "procfs_inst \<Rightarrow> (string \<times> pde) set" where
  "left p = foldl after_call {} (calls p)"

lemma left_simps [simp]:
  "left (do_call c p) = after_call (left p) c"
  "left (plog_err t p) = left p" "left (p\<lparr>pRootDir := a\<rparr>) = left p" "left (p\<lparr>pSettingsDir := b\<rparr>) = left p"
  "left (p\<lparr>pRootDir := a, pSettingsDir := b\<rparr>) = left p"
  "pRootDir (do_call c p) = pRootDir p" "pSettingsDir (do_call c p) = pSettingsDir p"
  "pRootDir (plog_err t p) = pRootDir p" "pSettingsDir (plog_err t p) = pSettingsDir p"
  by (simp_all add: left_def do_call_def plog_err_def)

lemma make_entry_simps [simp]:
  "left (make_entry ans n d r w x p) = (if ans n d then insert (n, d) (left p) else left p)"
  "pRootDir (make_entry ans n d r w x p) = pRootDir p"
  "pSettingsDir (make_entry ans n d r w x p) = pSettingsDir p"
  by (simp_all add: make_entry_def Let_def)

definition device_entries :: "pde \<Rightarrow> nat \<Rightarrow> (string \<times> pde) set" where
  "device_entries d u = (\<lambda>v. (device_name v, d)) ` {u..<N_DEVICES}"

lemma device_entries_Suc:
  "u < N_DEVICES \<Longrightarrow> device_entries d u = insert (device_name u, d) (device_entries d (Suc u))"
  by (simp add: device_entries_def set_upt[symmetric] upt_conv_Cons del: set_upt)

lemma get_device:
  "u < g_uMaxDevNumber \<Longrightarrow> fst (SideDumper_GetDeviceSettings (of_nat u) (Some x) s) = None \<longleftrightarrow> u < N_DEVICES"
  by (simp add: SideDumper_GetDeviceSettings_def g_uMaxDevNumber_def N_DEVICES_def unat_of_nat)

lemma get_device_cases:
  "u < g_uMaxDevNumber \<Longrightarrow>
   (case SideDumper_GetDeviceSettings (of_nat u) (Some x) s of (None, _) \<Rightarrow> a | (Some _, _) \<Rightarrow> b) =
   (if u < N_DEVICES then a else b)"
  using get_device[of u x s] by (auto split: prod.splits option.splits)

lemma install_devices_left:
  "u \<le> N_DEVICES \<Longrightarrow> left p \<subseteq> left (install_devices ans s d u p) \<and>
     left (install_devices ans s d u p) \<subseteq> left p \<union> device_entries d u \<and>
     pRootDir (install_devices ans s d u p) = pRootDir p \<and>
     pSettingsDir (install_devices ans s d u p) = pSettingsDir p"
proof (induction "N_DEVICES - u" arbitrary: u p)
  case 0
  then show ?case
    by (subst (1 2 3 4) install_devices.simps) (simp add: SideDumper_GetDeviceSettings_def N_DEVICES_def)
next
  case (Suc k)
  then have u: "u < N_DEVICES" "u < g_uMaxDevNumber" by (simp_all add: N_DEVICES_def g_uMaxDevNumber_def)
  let ?p = "make_entry ans (device_name u) d RP_DeviceSettings (Some WP_DeviceSettings) (Some (of_nat u)) p"
  have step: "install_devices ans s d u p = install_devices ans s d (Suc u) ?p"
    using u by (subst install_devices.simps) (simp add: get_device_cases)
  have "k = N_DEVICES - Suc u" "Suc u \<le> N_DEVICES" using Suc u by simp_all
  from Suc.hyps(1)[OF this, of ?p] show ?case
    unfolding step device_entries_Suc[OF u(1)] by (auto split: if_splits)
qed

lemma remove_devices_left:
  "u \<le> N_DEVICES \<Longrightarrow> left (remove_devices s d u p) = left p - device_entries d u \<and>
     pRootDir (remove_devices s d u p) = pRootDir p \<and>
     pSettingsDir (remove_devices s d u p) = pSettingsDir p"
proof (induction "N_DEVICES - u" arbitrary: u p)
  case 0
  then show ?case
    by (subst (1 2 3) remove_devices.simps)
      (simp add: SideDumper_GetDeviceSettings_def N_DEVICES_def device_entries_def)
next
  case (Suc k)
  then have u: "u < N_DEVICES" "u < g_uMaxDevNumber" by (simp_all add: N_DEVICES_def g_uMaxDevNumber_def)
  let ?p = "do_call (Remove_proc_entry (device_name u) d) p"
  have step: "remove_devices s d u p = remove_devices s d (Suc u) ?p"
    using u by (subst remove_devices.simps) (simp add: get_device_cases)
  have "k = N_DEVICES - Suc u" "Suc u \<le> N_DEVICES" using Suc u by simp_all
  from Suc.hyps(1)[OF this, of ?p] show ?case
    unfolding step device_entries_Suc[OF u(1)] by auto
qed

text \<open>Installing the proc entries and then removing them, for every pattern of successes and
  failures of the kernel's calls: both pointers are \<open>NULL\<close> again, and the only entry that can be
  left is \<open>side_dumper/device_settings\<close>, which is left exactly when it was created (the code
  removes \<open>device_settings\<close> from the root of the proc file system instead).\<close>

definition settings_dir :: "string \<times> pde" where
  "settings_dir = (''device_settings'', Pde ''side_dumper'' Proc_root)"

theorem Install_Remove_leaves:
  assumes "InstallProcFs ans s procfs_init = (r, p)"
  shows "pRootDir (RemoveProcFs s p) = None \<and> pSettingsDir (RemoveProcFs s p) = None \<and>
    left (RemoveProcFs s p) = (if pSettingsDir p = None then {} else {settings_dir})"
proof -
  have 1: "(1::nat) \<le> N_DEVICES" by (simp add: N_DEVICES_def)
  have i: "left procfs_init = {}" "pRootDir procfs_init = None" "pSettingsDir procfs_init = None"
    by (simp_all add: procfs_init_def left_def)
  let ?root = "Pde ''side_dumper'' Proc_root" and ?dir = "Pde ''device_settings'' (Pde ''side_dumper'' Proc_root)"
  let ?base = "{(''side_dumper'', Proc_root), (''enabled'', ?root), (''disabled'', ?root)}"
  consider (root) "pRootDir p = None" "pSettingsDir p = None" "left p = {}"
    | (early) "pRootDir p = Some ?root" "pSettingsDir p = None" "left p \<subseteq> ?base"
    | (full) "pRootDir p = Some ?root" "pSettingsDir p = Some ?dir" "settings_dir \<in> left p"
      "left p \<subseteq> ?base \<union> {settings_dir, (''all'', ?dir)} \<union> device_entries ?dir 1"
  proof (cases "ans ''side_dumper'' Proc_root \<and> ans ''enabled'' ?root \<and> ans ''disabled'' ?root \<and>
      ans ''device_settings'' ?root")
    case False
    then show thesis
      using assms i root early by (auto simp: InstallProcFs_def Let_def split: if_splits)
  next
    case True
    let ?e = "\<lambda>n f. make_entry ans n ?root f"
    let ?p2 = "(do_call (Proc_mkdir ''side_dumper'' Proc_root True) procfs_init)\<lparr>pRootDir := Some ?root\<rparr>"
    let ?p4 = "?e ''disabled'' RP_Disabled (Some WP_Disabled) None
      (?e ''enabled'' RP_Enabled (Some WP_Enabled) None ?p2)"
    define q where "q = make_entry ans ''all'' ?dir RP_DeviceSettings None (Some g_uDeviceAllNumber)
      ((do_call (Proc_mkdir ''device_settings'' ?root True) ?p4)\<lparr>pSettingsDir := Some ?dir\<rparr>)"
    have "p = install_devices ans s ?dir 1 q"
      using assms i True by (simp add: InstallProcFs_def Let_def q_def)
    moreover have "pRootDir q = Some ?root" "pSettingsDir q = Some ?dir" "settings_dir \<in> left q"
      "left q \<subseteq> ?base \<union> {settings_dir, (''all'', ?dir)}"
      using True i by (simp_all add: q_def settings_dir_def)
    moreover note install_devices_left[OF 1, of q ans s ?dir]
    ultimately show thesis by (intro full) (simp, simp, blast, blast)
  qed
  then show ?thesis
  proof cases
    case root
    then show ?thesis by (simp add: RemoveProcFs_def Let_def)
  next
    case early
    then show ?thesis by (auto simp: RemoveProcFs_def Let_def)
  next
    case full
    have "left (RemoveProcFs s p) = left p - device_entries ?dir 1 - {(''all'', ?dir)} -
        {(''device_settings'', Proc_root)} - {(''enabled'', ?root)} - {(''disabled'', ?root)} -
        {(''side_dumper'', Proc_root)}"
      using full remove_devices_left[OF 1, of s ?dir p] by (simp add: RemoveProcFs_def Let_def)
    moreover have "settings_dir \<notin> ?base \<union> {(''all'', ?dir), (''device_settings'', Proc_root)}"
      "settings_dir \<notin> device_entries ?dir 1"
      by (simp_all add: settings_dir_def device_entries_def image_iff)
    ultimately have "left (RemoveProcFs s p) = {settings_dir}" using full(3,4) by blast
    moreover have "pRootDir (RemoveProcFs s p) = None" "pSettingsDir (RemoveProcFs s p) = None"
      using full remove_devices_left[OF 1, of s ?dir p] by (simp_all add: RemoveProcFs_def Let_def)
    ultimately show ?thesis using full(2) by simp
  qed
qed

theorem Install_Remove_leaves_witness:
  "left (RemoveProcFs settings_init (snd (InstallProcFs (\<lambda>_ _. True) settings_init procfs_init))) =
     {settings_dir}"
proof -
  let ?i = "InstallProcFs (\<lambda>_ _. True) settings_init procfs_init"
  have "pSettingsDir (snd ?i) \<noteq> None"
    using install_devices_left[of 1] by (simp add: InstallProcFs_def Let_def N_DEVICES_def)
  with Install_Remove_leaves[of "\<lambda>_ _. True" settings_init "fst ?i" "snd ?i"] show ?thesis by simp
qed

end
