(* ===== verification/Dump_Base.thy ===== *)
theory Dump_Base
  imports Settings Strtoul
begin

text \<open>
  What all text producing functions of \<open>side_dumper_core.c\<close> share: the copy of an URB that is
  dumped (\<open>SideDumper_TMiniUrb\<close>), the \<open>sprintf\<close> calls that follow each other, reading the
  fields of a packed struct, and \<open>DumpRawBuf\<close>.

  A function \<open>Dump...(..., char* pszOut)\<close> writes text at \<open>pszOut\<close> and returns its length; in
  the model it returns the text, and the kernel messages it logs. A pointer to a descriptor is a
  block of bytes (\<open>None\<close> for \<open>NULL\<close>) and an offset into it. Reading through \<open>NULL\<close> or beyond
  the block is an error value that ends the dump. What the block is depends on the caller:
  \<open>DumpStdDescriptors\<close> passes the copied transfer together with the memory that follows it
  (\<open>copied\<close>), so that a read past the copy finds the stale bytes the code would find, and the
  error is a read of memory that is not there.
\<close>

lemma linux_env_simps [simp]:
  "macro linux_env = linux_macro" "field_at linux_env = linux_field_at"
  "usb_pipetype linux_env = (\<lambda>p. (drop_bit 30 p) AND 3)"
  "usb_pipeout linux_env = (\<lambda>p. ((drop_bit 7 p) AND 1) XOR 1)"
  "usb_pipein linux_env = (\<lambda>p. (drop_bit 7 p) AND 1)"
  "isprint_k linux_env = (\<lambda>b. 0x20 \<le> b \<and> b \<le> 0x7e)" "KERN_DEBUG_str linux_env = ''<7>''"
  by (simp_all add: linux_env_def)

section \<open>Results\<close>

datatype dump_err = Null_deref | Out_of_block | Stack_overrun

type_synonym dump = "dump_err + (string \<times> kmsg list)"

definition emit :: "string \<Rightarrow> dump" where
  "emit t = Inr (t, [])"

definition nothing :: dump where
  "nothing = Inr ([], [])"

definition dlog :: "kmsg \<Rightarrow> dump" where
  "dlog m = Inr ([], [m])"

fun dseq :: "dump \<Rightarrow> dump \<Rightarrow> dump" where
  "dseq (Inl e) _ = Inl e"
| "dseq (Inr _) (Inl e) = Inl e"
| "dseq (Inr (t, l)) (Inr (u, m)) = Inr (t @ u, l @ m)"

fun dcat :: "dump list \<Rightarrow> dump" where
  "dcat [] = nothing"
| "dcat (d # ds) = dseq d (dcat ds)"

text \<open>A value that is read, and what is printed with it.\<close>

fun reading :: "dump_err + 'a \<Rightarrow> ('a \<Rightarrow> dump_err + 'b) \<Rightarrow> dump_err + 'b" where
  "reading (Inl e) _ = Inl e"
| "reading (Inr v) f = f v"

lemma dseq_assoc: "dseq (dseq a b) c = dseq a (dseq b c)"
  by (cases a; cases b; cases c) (auto split: prod.splits)

lemma dseq_nothing [simp]: "dseq nothing d = d" "dseq d nothing = d"
  by (cases d; auto simp: nothing_def)+

lemma dcat_append: "dcat (ds @ es) = dseq (dcat ds) (dcat es)"
  by (induction ds) (simp_all add: dseq_assoc)

lemma dseq_emit: "dseq (emit t) (emit u) = emit (t @ u)"
  by (simp add: emit_def)

lemma dseq_Inr: "dseq a b = Inr (t, l) \<longleftrightarrow>
    (\<exists>t1 l1 t2 l2. a = Inr (t1, l1) \<and> b = Inr (t2, l2) \<and> t = t1 @ t2 \<and> l = l1 @ l2)"
  by (cases a; cases b) auto

text \<open>\<open>isl d\<close>: the dump ended in an error. \<open>block_only d\<close>: it can only be \<open>Out_of_block\<close>.\<close>

lemma isl_dseq [simp]: "isl (dseq a b) \<longleftrightarrow> isl a \<or> isl b"
  by (cases a; cases b) auto

lemma isl_simple [simp]: "\<not> isl (emit t)" "\<not> isl nothing" "\<not> isl (dlog m)"
  by (simp_all add: emit_def nothing_def dlog_def)

lemma isl_dcat: "isl (dcat ds) \<longleftrightarrow> (\<exists>d \<in> set ds. isl d)"
  by (induction ds) simp_all

lemma isl_reading [simp]: "isl (reading x f) \<longleftrightarrow> isl x \<or> isl (f (projr x))"
  by (cases x) simp_all

definition block_only :: "dump_err + 'a \<Rightarrow> bool" where
  "block_only d \<longleftrightarrow> d \<noteq> Inl Null_deref \<and> d \<noteq> Inl Stack_overrun"

lemma block_only_simps [simp]:
  "block_only (emit t)" "block_only nothing" "block_only (dlog m)" "block_only (Inr r)"
  by (simp_all add: block_only_def emit_def nothing_def dlog_def)

lemma block_only_dseq: "block_only a \<Longrightarrow> block_only b \<Longrightarrow> block_only (dseq a b)"
  by (cases a; cases b) (auto simp: block_only_def)

lemma block_only_dcat: "\<forall>d \<in> set ds. block_only d \<Longrightarrow> block_only (dcat ds)"
  by (induction ds) (simp_all add: block_only_dseq)

lemma block_only_reading: "block_only x \<Longrightarrow> (\<And>v. block_only (f v)) \<Longrightarrow> block_only (reading x f)"
  by (cases x) (auto simp: block_only_def)

lemma block_only_isl: "block_only d \<Longrightarrow> d = Inl Out_of_block \<longleftrightarrow> isl d"
proof (cases d)
  case (Inl e)
  then show "block_only d \<Longrightarrow> ?thesis" by (cases e) (auto simp: block_only_def)
qed simp

section \<open>The copied URB\<close>

text \<open>\<open>mini_tb\<close> is the \<open>kmalloc\<close>ed copy of the transfer buffer.\<close>

record mini =
  mini_number :: u32
  mini_devnum :: u32
  mini_pipe :: u32
  mini_tb_length :: u32
  mini_actual :: u32
  mini_setup :: "u8 list"
  mini_tb :: "u8 list option"

text \<open>The expression \<open>usb_pipeout(pipe) ? transfer_buffer_length : actual_length\<close>.\<close>

definition mini_len :: "kenv \<Rightarrow> mini \<Rightarrow> u32" where
  "mini_len K m = (if usb_pipeout K (mini_pipe m) \<noteq> 0 then mini_tb_length m else mini_actual m)"

section \<open>Reading packed structs\<close>

definition le_val :: "u8 list \<Rightarrow> u32" where
  "le_val bs = foldr (\<lambda>b a. ucast b + 256 * a) bs 0"

definition block_byte :: "u8 list option \<Rightarrow> nat \<Rightarrow> dump_err + u8" where
  "block_byte blk i =
     (case blk of
        None \<Rightarrow> Inl Null_deref
      | Some bs \<Rightarrow> if i < length bs then Inr (bs ! i) else Inl Out_of_block)"

text \<open>The field \<open>f\<close> of the struct at offset \<open>p\<close> of a block.\<close>

definition field :: "kenv \<Rightarrow> u8 list option \<Rightarrow> nat \<Rightarrow> usb_field \<Rightarrow> dump_err + u32" where
  "field K blk p f =
     (let (off, w) = field_at K f in
      case blk of
        None \<Rightarrow> Inl Null_deref
      | Some bs \<Rightarrow>
          if p + off + w \<le> length bs then Inr (le_val (take w (drop (p + off) bs)))
          else Inl Out_of_block)"

lemma isl_field: "isl (field K (Some bs) p f) \<longleftrightarrow> length bs < p + fst (field_at K f) + snd (field_at K f)"
  by (simp add: field_def Let_def not_le split: prod.splits)

lemma block_only_field [simp]: "block_only (field K (Some bs) p f)"
  by (simp add: block_only_def field_def Let_def split: prod.splits)

text \<open>The numbers behind the labels of a descriptor: \<open>%02xh\<close>, \<open>%04xh\<close>, and both with
  \<open>(%d)\<close>.\<close>

datatype num_format = X2 | X4 | X2D | X4D

fun fmt_num :: "num_format \<Rightarrow> u32 \<Rightarrow> string" where
  "fmt_num X2 v = fmt_0x 2 v @ ''h''"
| "fmt_num X4 v = fmt_0x 4 v @ ''h''"
| "fmt_num X2D v = fmt_0x 2 v @ ''h ('' @ fmt_d v @ '')''"
| "fmt_num X4D v = fmt_0x 4 v @ ''h ('' @ fmt_d v @ '')''"

definition newline :: string where "newline = [CHR 0x0A]"

text \<open>\<open>sprintf(pszOut, "%s    label = %02xh\\n", pszHeader, pDesc->f)\<close>.\<close>

definition field_line ::
  "kenv \<Rightarrow> string \<Rightarrow> u8 list option \<Rightarrow> nat \<Rightarrow> string \<Rightarrow> num_format \<Rightarrow> usb_field \<Rightarrow> dump" where
  "field_line K h blk p lbl nf f =
     reading (field K blk p f) (\<lambda>v. emit (h @ ''    '' @ lbl @ '' = '' @ fmt_num nf v @ newline))"

definition text_line :: "string \<Rightarrow> string \<Rightarrow> dump" where
  "text_line h t = emit (h @ ''    '' @ t @ newline)"

text \<open>The line \<open>short transfer (%d/%d bytes)\<close> of every descriptor; \<open>lenf\<close> is its \<open>bLength\<close>.\<close>

definition short_line :: "kenv \<Rightarrow> string \<Rightarrow> u8 list option \<Rightarrow> nat \<Rightarrow> u32 \<Rightarrow> usb_field \<Rightarrow> dump" where
  "short_line K h blk p uDescLen lenf =
     reading (field K blk p lenf)
       (\<lambda>v. emit (h @ ''    short transfer ('' @ fmt_d uDescLen @ ''/'' @ fmt_d v @ '' bytes)'' @ newline))"

lemma isl_lines [simp]:
  "isl (field_line K h blk p l nf f) \<longleftrightarrow> isl (field K blk p f)" "\<not> isl (text_line h t)"
  "isl (short_line K h blk p n f) \<longleftrightarrow> isl (field K blk p f)"
  by (simp_all add: field_line_def text_line_def short_line_def)

lemma block_only_lines [simp]:
  "block_only (field_line K h (Some bs) p l nf f)" "block_only (text_line h t)"
  "block_only (short_line K h (Some bs) p n f)"
  by (simp_all add: field_line_def text_line_def short_line_def block_only_reading)

section \<open>Raw bytes\<close>

definition hex_byte :: "u8 \<Rightarrow> string" where
  "hex_byte b = fmt_0x 2 (ucast b) @ '' ''"

text \<open>The loop of \<open>DumpRawBuf\<close> from \<open>i\<close> on.\<close>

function raw_loop :: "string \<Rightarrow> u8 list option \<Rightarrow> nat \<Rightarrow> nat \<Rightarrow> dump" where
  "raw_loop h blk n i =
     (if i < n
      then dseq (if i mod 256 = 0 \<and> i \<noteq> 0 then emit ('']'' @ newline @ h @ '' [ '') else nothing)
             (dseq (reading (block_byte blk i) (\<lambda>b. emit (hex_byte b)))
                (raw_loop h blk n (Suc i)))
      else nothing)"
  by pat_completeness auto
termination by (relation "measure (\<lambda>(h, b, n, i). n - i)") auto

declare raw_loop.simps [simp del]

definition DumpRawBuf :: "string \<Rightarrow> u8 list option \<Rightarrow> u32 \<Rightarrow> dump" where
  "DumpRawBuf h blk uBytes =
     (if uBytes = 0 then nothing
      else dcat [emit (h @ '' [ ''), raw_loop h blk (unat uBytes) 0, emit ('']'' @ newline)])"

text \<open>The text in closed form: one line per 256 bytes.\<close>

fun lines256 :: "u8 list \<Rightarrow> u8 list list" where
  "lines256 [] = []"
| "lines256 (b # bs) = take 256 (b # bs) # lines256 (drop 256 (b # bs))"

definition raw_line :: "string \<Rightarrow> u8 list \<Rightarrow> string" where
  "raw_line h bs = h @ '' [ '' @ concat (map hex_byte bs) @ '']'' @ newline"

definition raw_text :: "string \<Rightarrow> u8 list \<Rightarrow> string" where
  "raw_text h bs = concat (map (raw_line h) (lines256 bs))"

lemma hex_byte_length [simp]: "length (hex_byte b) = 3"
  by (simp add: hex_byte_def fmt_02x_byte_length)

lemma concat_hex_length: "length (concat (map hex_byte bs)) = 3 * length bs"
  by (induction bs) simp_all

declare lines256.simps(2) [simp del]

text \<open>The bytes from index \<open>i\<close> on, with the line breaks of the loop.\<close>

fun sep_text :: "string \<Rightarrow> nat \<Rightarrow> u8 list \<Rightarrow> string" where
  "sep_text h i [] = []"
| "sep_text h i (b # bs) =
     (if i mod 256 = 0 \<and> i \<noteq> 0 then '']'' @ newline @ h @ '' [ '' else []) @ hex_byte b @
     sep_text h (Suc i) bs"

lemma raw_loop_text:
  "i \<le> n \<Longrightarrow> n \<le> length bs \<Longrightarrow> raw_loop h (Some bs) n i = emit (sep_text h i (drop i (take n bs)))"
proof (induction "n - i" arbitrary: i)
  case 0
  then show ?case by (subst raw_loop.simps) (simp add: nothing_def emit_def)
next
  case (Suc k)
  then have i: "i < n" "i < length bs" by simp_all
  have d: "drop i (take n bs) = bs ! i # drop (Suc i) (take n bs)"
    using i Suc.prems by (simp add: Cons_nth_drop_Suc[symmetric] min_def)
  have "raw_loop h (Some bs) n (Suc i) = emit (sep_text h (Suc i) (drop (Suc i) (take n bs)))"
    using Suc i by (intro Suc.hyps) auto
  then show ?case
    unfolding d using i by (subst raw_loop.simps) (simp add: block_byte_def dseq_emit)
qed

lemma sep_text_inline:
  "0 < j \<Longrightarrow> j + length bs \<le> 256 \<Longrightarrow> sep_text h (256 * q + j) bs = concat (map hex_byte bs)"
proof (induction bs arbitrary: j)
  case (Cons b bs)
  then have "(256 * q + j) mod 256 = j" by simp
  with Cons Cons.IH[of "Suc j"] show ?case by simp
qed simp

lemma sep_text_append: "sep_text h i (xs @ ys) = sep_text h i xs @ sep_text h (i + length xs) ys"
  by (induction xs arbitrary: i) simp_all

lemma sep_text_line:
  assumes "bs \<noteq> []"
  shows "sep_text h (256 * q) bs =
    (if q = 0 then [] else '']'' @ newline @ h @ '' [ '') @ concat (map hex_byte (take 256 bs)) @
    sep_text h (256 * Suc q) (drop 256 bs)"
proof -
  obtain b cs where bs: "bs = b # cs" using assms by (cases bs) auto
  have "sep_text h (256 * q) bs = sep_text h (256 * q) (take 256 bs) @
      sep_text h (256 * q + length (take 256 bs)) (drop 256 bs)"
    by (metis append_take_drop_id sep_text_append)
  also have "sep_text h (256 * q + length (take 256 bs)) (drop 256 bs) =
      sep_text h (256 * Suc q) (drop 256 bs)"
    by (cases "length bs \<le> 256") (simp_all add: min_def add.commute)
  also have "sep_text h (256 * q) (take 256 bs) =
      (if q = 0 then [] else '']'' @ newline @ h @ '' [ '') @ concat (map hex_byte (take 256 bs))"
    using sep_text_inline[of 1 "take 255 cs" h q] by (simp add: bs take_Cons')
  finally show ?thesis by simp
qed

lemma raw_text_simps [simp]: "raw_text h [] = []"
  "bs \<noteq> [] \<Longrightarrow> raw_text h bs = raw_line h (take 256 bs) @ raw_text h (drop 256 bs)"
  by (cases bs; simp add: raw_text_def lines256.simps(2))+

lemma sep_text_lines: "sep_text h (256 * Suc q) bs @ '']'' @ newline = '']'' @ newline @ raw_text h bs"
proof (induction bs arbitrary: q rule: lines256.induct)
  case (2 b bs)
  from "2.IH"[of "Suc q"] show ?case
    using sep_text_line[of "b # bs" h "Suc q"] by (simp add: raw_line_def)
qed simp

lemma DumpRawBuf_text:
  assumes "unat n \<le> length bs"
  shows "DumpRawBuf h (Some bs) n = emit (raw_text h (take (unat n) bs))"
proof (cases "unat n = 0")
  case True
  then show ?thesis by (simp add: DumpRawBuf_def emit_def nothing_def unat_eq_0)
next
  case False
  then have n: "n \<noteq> 0" by auto
  let ?bs = "take (unat n) bs"
  have ne: "?bs \<noteq> []" using assms False by auto
  have "h @ '' [ '' @ sep_text h 0 ?bs @ '']'' @ newline = raw_text h ?bs"
    using sep_text_line[OF ne, of h 0] sep_text_lines[of h 0 "drop 256 ?bs"] ne
    by (simp add: raw_line_def)
  then show ?thesis
    using raw_loop_text[of 0 "unat n" bs h] assms n by (simp add: DumpRawBuf_def dseq_emit)
qed

lemma raw_text_length:
  "length (raw_text h bs) = (length bs + 255) div 256 * (length h + 5) + 3 * length bs"
proof (induction bs rule: lines256.induct)
  case (2 b bs)
  let ?l = "length bs"
  have "length (raw_line h (take 256 (b # bs))) = length h + 5 + 3 * min 256 (Suc ?l)"
    by (simp add: raw_line_def concat_hex_length newline_def)
  moreover have "(Suc ?l + 255) div 256 = Suc ((Suc ?l - 256 + 255) div 256)" if "256 \<le> Suc ?l"
  proof -
    have "Suc ?l + 255 = (Suc ?l - 256 + 255) + 256" using that by simp
    then show ?thesis by (metis div_add_self2 zero_neq_numeral Suc_eq_plus1)
  qed
  moreover have "(Suc ?l + 255) div 256 = 1" if "\<not> 256 \<le> Suc ?l" using that by simp
  ultimately show ?case
    using 2 by (cases "256 \<le> Suc ?l") (simp_all add: algebra_simps)
qed simp

text \<open>\<open>DumpRawBuf\<close> of \<open>n\<close> bytes that are there prints one line per 256 bytes (the header,
  a bracket, two hex digits and a blank per byte, a bracket), nothing for \<open>n = 0\<close>, and so takes
  exactly \<open>3n\<close> characters plus 5 and the header for every line.\<close>

theorem DumpRawBuf_lines:
  assumes "unat n \<le> length bs"
  shows "DumpRawBuf h (Some bs) n = Inr (raw_text h (take (unat n) bs), []) \<and>
    length (raw_text h (take (unat n) bs)) = (unat n + 255) div 256 * (length h + 5) + 3 * unat n"
  using DumpRawBuf_text[OF assms, of h] raw_text_length[of h "take (unat n) bs"] assms
  by (simp add: emit_def min_def)

theorem DumpRawBuf_lines_witness:
  "DumpRawBuf ''tb'' (Some (replicate 300 7)) 300 = Inr (raw_text ''tb'' (replicate 300 7), []) \<and>
   length (raw_text ''tb'' (replicate 300 7)) = 914"
proof -
  have n: "unat (300 :: u32) \<le> length (replicate 300 (7 :: u8))" by simp
  show ?thesis using DumpRawBuf_lines[OF n, of "''tb''"] by simp
qed

end
