(* ===== verification/Dump_Desc.thy ===== *)
theory Dump_Desc
  imports Dump_Base
begin

text \<open>
  The descriptor dumpers of \<open>side_dumper_core.c\<close> (level 4): device, configuration, string,
  interface and endpoint descriptors. A descriptor pointer is a block and an offset \<open>p\<close>. The walk
  over a configuration (\<open>DumpCD\<close>) may not end, so it is a partial function into \<open>option\<close>.
\<close>

definition rule_line :: "string \<Rightarrow> dump" where
  "rule_line h = text_line h ''--------------------------''"

section \<open>Device descriptor\<close>

definition class_name :: "kenv \<Rightarrow> u32 \<Rightarrow> string" where
  "class_name K c =
     (if c = 0 then ''no class''
      else if c = macro K USB_CLASS_AUDIO then ''USB_CLASS_AUDIO''
      else if c = macro K USB_CLASS_COMM then ''USB_CLASS_COMM''
      else if c = macro K USB_CLASS_HID then ''USB_CLASS_HID''
      else if c = macro K USB_CLASS_PRINTER then ''USB_CLASS_PRINTER''
      else if c = macro K USB_CLASS_MASS_STORAGE then ''USB_CLASS_MASS_STORAGE''
      else if c = macro K USB_CLASS_HUB then ''USB_CLASS_HUB''
      else if c = macro K USB_CLASS_VENDOR_SPEC then ''USB_CLASS_VENDOR_SPEC''
      else ''???'')"

definition DumpDD :: "kenv \<Rightarrow> string \<Rightarrow> u8 list option \<Rightarrow> nat \<Rightarrow> u32 \<Rightarrow> dump" where
  "DumpDD K h blk p uDescLen =
     dcat [text_line h ''-- device descriptor -----'',
       if uDescLen < macro K USB_DT_DEVICE_SIZE
       then short_line K h blk p uDescLen DD_bLength
       else dcat [
        field_line K h blk p ''bLength           '' X2D DD_bLength,
        field_line K h blk p ''bDescriptorType   '' X2 DD_bDescriptorType,
        field_line K h blk p ''bcdUSB            '' X4 DD_bcdUSB,
        reading (field K blk p DD_bDeviceClass) (\<lambda>c. emit (h @ ''    bDeviceClass       = '' @
          fmt_0x 2 c @ ''h '' @ class_name K c @ newline)),
        field_line K h blk p ''bDeviceSubClass   '' X2 DD_bDeviceSubClass,
        field_line K h blk p ''bDeviceProtocol   '' X2 DD_bDeviceProtocol,
        field_line K h blk p ''bMaxPacketSize0   '' X2D DD_bMaxPacketSize0,
        field_line K h blk p ''idVendor          '' X4 DD_idVendor,
        field_line K h blk p ''idProduct         '' X4 DD_idProduct,
        field_line K h blk p ''bcdDevice         '' X4 DD_bcdDevice,
        field_line K h blk p ''iManufacturer     '' X2D DD_iManufacturer,
        field_line K h blk p ''iProduct          '' X2D DD_iProduct,
        field_line K h blk p ''iSerialNumber     '' X2D DD_iSerialNumber,
        field_line K h blk p ''bNumConfigurations'' X2D DD_bNumConfigurations],
       rule_line h]"

section \<open>String descriptor\<close>

text \<open>
  \<open>pEnd\<close> is \<open>&wData\<close> plus \<open>(min(bLength, uDescLen) - 2) / 2\<close> elements: the subtraction wraps
  when \<open>bLength\<close> is 0 or 1, and adding the displacement to a 32-bit pointer wraps again, so the
  displacement is read as a signed number of bytes.
\<close>

definition sd_displacement :: "u32 \<Rightarrow> u32 \<Rightarrow> int" where
  "sd_displacement bLength uDescLen = sint (2 * ((min_u bLength uDescLen - 2) div 2))"

definition sd_char :: "kenv \<Rightarrow> u8 \<Rightarrow> string" where
  "sd_char K b = [if isprint_k K b then char_of (unat b) else CHR ''.'']"

text \<open>The loop over the low bytes, \<open>n\<close> times from offset \<open>q\<close>.\<close>

fun sd_loop :: "kenv \<Rightarrow> u8 list option \<Rightarrow> nat \<Rightarrow> nat \<Rightarrow> dump" where
  "sd_loop K blk q 0 = nothing"
| "sd_loop K blk q (Suc n) =
     dseq (reading (block_byte blk q) (\<lambda>b. emit (sd_char K b))) (sd_loop K blk (q + 2) n)"

definition DumpSD :: "kenv \<Rightarrow> string \<Rightarrow> u8 list option \<Rightarrow> nat \<Rightarrow> u32 \<Rightarrow> u32 \<Rightarrow> dump" where
  "DumpSD K h blk p uDescLen uIndex =
     dcat [text_line h ''-- string descriptor -----'',
       (if uDescLen < 2 then short_line K h blk p uDescLen SD_bLength
        else reading (field K blk p SD_bLength) (\<lambda>len.
          if uDescLen < len then short_line K h blk p uDescLen SD_bLength
          else dcat [
            field_line K h blk p ''bLength        '' X2D SD_bLength,
            field_line K h blk p ''bDescriptorType'' X2 SD_bDescriptorType,
            if uIndex = 0 then emit (h @ ''    wData           = [tbd]'' @ newline)
            else dcat [emit (h @ ''    wData[]         = '' @ [CHR 0x27]),
              sd_loop K blk (p + fst (field_at K SD_wData))
                (nat (sd_displacement len uDescLen div 2)),
              emit (CHR 0x27 # newline)]])),
       rule_line h]"

section \<open>Interface and endpoint descriptors\<close>

definition DumpID :: "kenv \<Rightarrow> string \<Rightarrow> u8 list option \<Rightarrow> nat \<Rightarrow> u32 \<Rightarrow> dump" where
  "DumpID K h blk p uDescLen =
     dcat [text_line h ''-- interface descriptor --'',
       if uDescLen < macro K USB_DT_INTERFACE_SIZE
       then short_line K h blk p uDescLen ID_bLength
       else dcat [
        field_line K h blk p ''bLength           '' X2 ID_bLength,
        field_line K h blk p ''bDescriptorType   '' X2 ID_bDescriptorType,
        field_line K h blk p ''bInterfaceNumber  '' X2D ID_bInterfaceNumber,
        field_line K h blk p ''bAlternateSetting '' X2 ID_bAlternateSetting,
        field_line K h blk p ''bNumEndpoints     '' X2D ID_bNumEndpoints,
        field_line K h blk p ''bInterfaceClass   '' X2 ID_bInterfaceClass,
        field_line K h blk p ''bInterfaceSubClass'' X2 ID_bInterfaceSubClass,
        field_line K h blk p ''bInterfaceProtocol'' X2 ID_bInterfaceProtocol,
        field_line K h blk p ''iInterface        '' X2D ID_iInterface],
       rule_line h]"

definition DumpED :: "kenv \<Rightarrow> string \<Rightarrow> u8 list option \<Rightarrow> nat \<Rightarrow> u32 \<Rightarrow> dump" where
  "DumpED K h blk p uDescLen =
     dcat [text_line h ''-- endpoint descriptor ---'',
       if uDescLen < macro K USB_DT_ENDPOINT_SIZE
       then short_line K h blk p uDescLen ED_bLength
       else dcat [
        field_line K h blk p ''bLength         '' X2 ED_bLength,
        field_line K h blk p ''bDescriptorType '' X2 ED_bDescriptorType,
        field_line K h blk p ''bEndpointAddress'' X2 ED_bEndpointAddress,
        field_line K h blk p ''bmAttributes    '' X2 ED_bmAttributes,
        field_line K h blk p ''wMaxPacketSize  '' X4D ED_wMaxPacketSize,
        field_line K h blk p ''bInterval       '' X2D ED_bInterval,
        reading (field K blk p ED_bLength) (\<lambda>len.
          if len = macro K USB_DT_ENDPOINT_AUDIO_SIZE
          then dcat [field_line K h blk p ''bRefresh        '' X4 ED_bRefresh,
            field_line K h blk p ''bSynchAddress   '' X2 ED_bSynchAddress]
          else nothing)],
       rule_line h]"

section \<open>Configuration descriptor\<close>

definition unknown_line :: "kenv \<Rightarrow> string \<Rightarrow> u8 list option \<Rightarrow> nat \<Rightarrow> usb_field \<Rightarrow> usb_field \<Rightarrow> dump" where
  "unknown_line K h blk p tf lf =
     reading (field K blk p tf) (\<lambda>t. reading (field K blk p lf) (\<lambda>n.
       emit (h @ ''    unknown descriptor type '' @ fmt_x t @ ''h, '' @ fmt_u n @ '' bytes'' @ newline)))"

text \<open>The \<open>switch\<close> on the descriptor at \<open>pDH\<close>; \<open>p\<close> is the configuration descriptor, which the
  default case prints instead of the unknown descriptor.\<close>

definition cd_item :: "kenv \<Rightarrow> string \<Rightarrow> u8 list option \<Rightarrow> nat \<Rightarrow> nat \<Rightarrow> nat \<Rightarrow> dump" where
  "cd_item K h blk p pDH pEnd =
     reading (field K blk pDH DH_bDescriptorType) (\<lambda>t.
       if t = macro K USB_DT_DEVICE \<or> t = macro K USB_DT_CONFIG \<or> t = macro K USB_DT_STRING
       then dlog (Printk KERN_ERR ''DumpCD: wrong descriptor type'')
       else if t = macro K USB_DT_INTERFACE then DumpID K h blk pDH (of_nat (pEnd - pDH))
       else if t = macro K USB_DT_ENDPOINT then DumpED K h blk pDH (of_nat (pEnd - pDH))
       else unknown_line K h blk p CD_bDescriptorType CD_bLength)"

partial_function (option) cd_walk ::
  "kenv \<Rightarrow> string \<Rightarrow> u8 list option \<Rightarrow> nat \<Rightarrow> nat \<Rightarrow> nat \<Rightarrow> dump option" where
  "cd_walk K h blk p pDH pEnd =
     (if pDH < pEnd
      then (case cd_item K h blk p pDH pEnd of
              Inl e \<Rightarrow> Some (Inl e)
            | Inr r \<Rightarrow>
                (case field K blk pDH DH_bLength of
                   Inl e \<Rightarrow> Some (Inl e)
                 | Inr len \<Rightarrow>
                     Option.bind (cd_walk K h blk p (pDH + unat len) pEnd) (\<lambda>d. Some (dseq (Inr r) d))))
      else Some nothing)"

text \<open>The text before the walk.\<close>

definition cd_head :: "kenv \<Rightarrow> string \<Rightarrow> u8 list option \<Rightarrow> nat \<Rightarrow> u32 \<Rightarrow> dump" where
  "cd_head K h blk p uDescLen =
     dcat [text_line h ''-- config descriptor -----'',
       if uDescLen < macro K USB_DT_CONFIG_SIZE
       then short_line K h blk p uDescLen CD_bLength
       else dcat [
        field_line K h blk p ''bLength            '' X2 CD_bLength,
        field_line K h blk p ''bDescriptorType    '' X2 CD_bDescriptorType,
        field_line K h blk p ''wTotalLength       '' X4D CD_wTotalLength,
        field_line K h blk p ''bNumInterfaces     '' X2 CD_bNumInterfaces,
        field_line K h blk p ''bConfigurationValue'' X2 CD_bConfigurationValue,
        field_line K h blk p ''iConfiguration     '' X2 CD_iConfiguration,
        field_line K h blk p ''bmAttributes       '' X2 CD_bmAttributes,
        field_line K h blk p ''MaxPower           '' X2D CD_MaxPower],
       rule_line h]"

definition DumpCD :: "kenv \<Rightarrow> string \<Rightarrow> u8 list option \<Rightarrow> nat \<Rightarrow> u32 \<Rightarrow> dump option" where
  "DumpCD K h blk p uDescLen =
     (case cd_head K h blk p uDescLen of
        Inl e \<Rightarrow> Some (Inl e)
      | Inr r \<Rightarrow>
          if macro K USB_DT_CONFIG_SIZE < uDescLen
          then (case (field K blk p CD_bLength, field K blk p CD_wTotalLength) of
                  (Inl e, _) \<Rightarrow> Some (Inl e)
                | (Inr _, Inl e) \<Rightarrow> Some (Inl e)
                | (Inr len, Inr tot) \<Rightarrow>
                    Option.bind (cd_walk K h blk p (p + unat len) (p + unat (min_u uDescLen tot)))
                      (\<lambda>d. Some (dseq (Inr r) d)))
          else Some (Inr r))"

section \<open>When the walk ends\<close>

text \<open>The positions the walk visits, and those it never leaves.\<close>

inductive cd_reach :: "kenv \<Rightarrow> string \<Rightarrow> u8 list option \<Rightarrow> nat \<Rightarrow> nat \<Rightarrow> nat \<Rightarrow> nat \<Rightarrow> bool"
  for K h blk p pEnd a where
  reach_start: "cd_reach K h blk p pEnd a a"
| reach_next: "cd_reach K h blk p pEnd a q \<Longrightarrow> q < pEnd \<Longrightarrow> cd_item K h blk p q pEnd = Inr r \<Longrightarrow>
    field K blk q DH_bLength = Inr len \<Longrightarrow> cd_reach K h blk p pEnd a (q + unat len)"

inductive_cases cd_reachE: "cd_reach K h blk p pEnd a q"

definition cd_stuck :: "kenv \<Rightarrow> string \<Rightarrow> u8 list option \<Rightarrow> nat \<Rightarrow> nat \<Rightarrow> nat \<Rightarrow> bool" where
  "cd_stuck K h blk p pEnd q \<longleftrightarrow>
     q < pEnd \<and> (\<exists>r. cd_item K h blk p q pEnd = Inr r) \<and> field K blk q DH_bLength = Inr 0"

lemma cd_walk_not_stuck:
  assumes "cd_walk K h blk p a pEnd = Some d" shows "\<not> cd_stuck K h blk p pEnd a"
proof (rule cd_walk.raw_induct[OF _ assms, where P = "\<lambda>K h blk p a pEnd d. \<not> cd_stuck K h blk p pEnd a"])
  fix walk K h blk p a pEnd d
  assume IH: "\<And>K h blk p a pEnd d. walk K h blk p a pEnd = Some d \<Longrightarrow> \<not> cd_stuck K h blk p pEnd a"
    and body: "(if a < pEnd
      then case cd_item K h blk p a pEnd of Inl e \<Rightarrow> Some (Inl e)
           | Inr r \<Rightarrow> case field K blk a DH_bLength of Inl e \<Rightarrow> Some (Inl e)
               | Inr len \<Rightarrow> Option.bind (walk K h blk p (a + unat len) pEnd) (\<lambda>d. Some (dseq (Inr r) d))
      else Some nothing) = Some d"
  show "\<not> cd_stuck K h blk p pEnd a"
  proof
    assume s: "cd_stuck K h blk p pEnd a"
    then obtain r where "cd_item K h blk p a pEnd = Inr r" "a < pEnd" "field K blk a DH_bLength = Inr 0"
      by (auto simp: cd_stuck_def)
    with body obtain d' where "walk K h blk p a pEnd = Some d'" by (auto split: bind_splits)
    from IH[OF this] s show False by simp
  qed
qed

lemma cd_walk_reach:
  "cd_reach K h blk p pEnd a q \<Longrightarrow> cd_walk K h blk p q pEnd = None \<Longrightarrow> cd_walk K h blk p a pEnd = None"
proof (induction rule: cd_reach.induct)
  case (reach_next q r len)
  then have "cd_walk K h blk p q pEnd = None" by (subst cd_walk.simps) simp
  with reach_next.IH show ?case by simp
qed

lemma cd_reach_front:
  "cd_reach K h blk p pEnd (a + unat len) q \<Longrightarrow> a < pEnd \<Longrightarrow> cd_item K h blk p a pEnd = Inr r \<Longrightarrow>
   field K blk a DH_bLength = Inr len \<Longrightarrow> cd_reach K h blk p pEnd a q"
  by (induction rule: cd_reach.induct) (auto intro: cd_reach.intros)

lemma cd_walk_returns:
  "\<nexists>q. cd_reach K h blk p pEnd a q \<and> cd_stuck K h blk p pEnd q \<Longrightarrow> \<exists>d. cd_walk K h blk p a pEnd = Some d"
proof (induction "pEnd - a" arbitrary: a rule: less_induct)
  case less
  show ?case
  proof (cases "a < pEnd \<and> (\<exists>r. cd_item K h blk p a pEnd = Inr r) \<and> (\<exists>n. field K blk a DH_bLength = Inr n)")
    case True
    then obtain r n where rn: "a < pEnd" "cd_item K h blk p a pEnd = Inr r" "field K blk a DH_bLength = Inr n"
      by blast
    then have "n \<noteq> 0" using less.prems reach_start unfolding cd_stuck_def by metis
    then have "0 < unat n" by (simp add: unat_gt_0)
    then have "pEnd - (a + unat n) < pEnd - a" using rn(1) by linarith
    moreover have "\<nexists>q. cd_reach K h blk p pEnd (a + unat n) q \<and> cd_stuck K h blk p pEnd q"
      using less.prems cd_reach_front rn by blast
    ultimately obtain d where "cd_walk K h blk p (a + unat n) pEnd = Some d" using less.hyps by blast
    with rn show ?thesis by (subst cd_walk.simps) simp
  next
    case False
    then show ?thesis by (subst cd_walk.simps) (auto split: sum.splits)
  qed
qed

lemma DumpCD_None:
  "DumpCD K h blk p n = None \<longleftrightarrow>
     (\<exists>r len tot q. cd_head K h blk p n = Inr r \<and> macro K USB_DT_CONFIG_SIZE < n \<and>
        field K blk p CD_bLength = Inr len \<and> field K blk p CD_wTotalLength = Inr tot \<and>
        cd_reach K h blk p (p + unat (min_u n tot)) (p + unat len) q \<and>
        cd_stuck K h blk p (p + unat (min_u n tot)) q)"
proof -
  have walk: "cd_walk K h blk p a e = None \<longleftrightarrow> (\<exists>q. cd_reach K h blk p e a q \<and> cd_stuck K h blk p e q)"
    for a e
    using cd_walk_returns[of K h blk p e a] cd_walk_reach[of K h blk p e a] cd_walk_not_stuck[of K h blk p _ e]
    by (metis option.exhaust option.distinct(1))
  show ?thesis
    by (cases "cd_head K h blk p n"; cases "field K blk p CD_bLength"; cases "field K blk p CD_wTotalLength")
      (auto simp: DumpCD_def walk bind_eq_None_conv)
qed

lemma field_linux: "field linux_env (Some bs) p f =
    (if p + fst (linux_field_at f) + snd (linux_field_at f) \<le> length bs
     then Inr (le_val (take (snd (linux_field_at f)) (drop (p + fst (linux_field_at f)) bs)))
     else Inl Out_of_block)"
  by (simp add: field_def Let_def split: prod.splits)

lemma isl_rule_line [simp]: "\<not> isl (rule_line h)" and block_only_rule_line [simp]: "block_only (rule_line h)"
  by (simp_all add: rule_line_def)

lemma not_isl: "\<not> isl d \<longleftrightarrow> (\<exists>r. d = Inr r)"
  by (cases d) (auto simp del: split_paired_Ex)

section \<open>Reads inside the block\<close>

text \<open>The fields a dumper reads end within the first \<open>n\<close> bytes of the struct.\<close>

definition within :: "kenv \<Rightarrow> nat \<Rightarrow> usb_field list \<Rightarrow> bool" where
  "within K n fs \<longleftrightarrow> (\<forall>f \<in> set fs. fst (field_at K f) + snd (field_at K f) \<le> n)"

definition device_fields :: "usb_field list" where
  "device_fields = [DD_bLength, DD_bDescriptorType, DD_bcdUSB, DD_bDeviceClass, DD_bDeviceSubClass,
     DD_bDeviceProtocol, DD_bMaxPacketSize0, DD_idVendor, DD_idProduct, DD_bcdDevice,
     DD_iManufacturer, DD_iProduct, DD_iSerialNumber, DD_bNumConfigurations]"

definition interface_fields :: "usb_field list" where
  "interface_fields = [ID_bLength, ID_bDescriptorType, ID_bInterfaceNumber, ID_bAlternateSetting,
     ID_bNumEndpoints, ID_bInterfaceClass, ID_bInterfaceSubClass, ID_bInterfaceProtocol, ID_iInterface]"

definition endpoint_fields :: "usb_field list" where
  "endpoint_fields = [ED_bLength, ED_bDescriptorType, ED_bEndpointAddress, ED_bmAttributes,
     ED_wMaxPacketSize, ED_bInterval]"

text \<open>The layout of the descriptors as the USB standard has it.\<close>

definition descriptor_layout :: "kenv \<Rightarrow> bool" where
  "descriptor_layout K \<longleftrightarrow>
     field_at K DD_bLength = (0, 1) \<and> field_at K ID_bLength = (0, 1) \<and> field_at K ED_bLength = (0, 1) \<and>
     field_at K ED_bRefresh = (7, 1) \<and> field_at K ED_bSynchAddress = (8, 1) \<and>
     macro K USB_DT_ENDPOINT_SIZE = 7 \<and> macro K USB_DT_ENDPOINT_AUDIO_SIZE = 9 \<and>
     within K (unat (macro K USB_DT_DEVICE_SIZE)) device_fields \<and>
     within K (unat (macro K USB_DT_INTERFACE_SIZE)) interface_fields \<and>
     within K 7 endpoint_fields"

lemma linux_descriptor_layout: "descriptor_layout linux_env"
  by (simp add: descriptor_layout_def within_def device_fields_def interface_fields_def endpoint_fields_def)

lemma within_ok:
  "within K n fs \<Longrightarrow> f \<in> set fs \<Longrightarrow> p + n \<le> length bs \<Longrightarrow> \<not> isl (field K (Some bs) p f)"
  unfolding isl_field within_def by force

lemma bLength_field:
  "field_at K f = (0, 1) \<Longrightarrow> p < length bs \<Longrightarrow> field K (Some bs) p f = Inr (ucast (bs ! p))"
  by (simp add: field_def le_val_def take_Suc_conv_app_nth hd_drop_conv_nth Cons_nth_drop_Suc[symmetric])

lemma ucast_u8_9: "(ucast (b :: u8) :: u32) = 9 \<longleftrightarrow> b = 9"
proof -
  have "(ucast b :: u32) = 9 \<longleftrightarrow> unat b = 9" by (simp add: word_unat_eq_iff)
  also have "\<dots> \<longleftrightarrow> b = 9" by (simp add: word_unat_eq_iff)
  finally show ?thesis .
qed

text \<open>Reads of a single descriptor.\<close>

lemma dumpers_in_block:
  assumes K: "descriptor_layout K" and n: "0 < n" "p + unat n \<le> length bs"
  shows "\<not> isl (DumpDD K h (Some bs) p n) \<and> \<not> isl (DumpID K h (Some bs) p n) \<and>
    (DumpED K h (Some bs) p n = Inl Out_of_block \<longleftrightarrow> 7 \<le> n \<and> bs ! p = 9 \<and> length bs < p + 9) \<and>
    (isl (DumpED K h (Some bs) p n) \<longleftrightarrow> DumpED K h (Some bs) p n = Inl Out_of_block)"
proof -
  have f: "within K (unat (macro K USB_DT_DEVICE_SIZE)) device_fields"
    "within K (unat (macro K USB_DT_INTERFACE_SIZE)) interface_fields" "within K 7 endpoint_fields"
    "field_at K DD_bLength = (0, 1)" "field_at K ID_bLength = (0, 1)" "field_at K ED_bLength = (0, 1)"
    "field_at K ED_bRefresh = (7, 1)" "field_at K ED_bSynchAddress = (8, 1)"
    "macro K USB_DT_ENDPOINT_SIZE = 7" "macro K USB_DT_ENDPOINT_AUDIO_SIZE = 9"
    using K by (simp_all add: descriptor_layout_def)
  have "0 < unat n" using n(1) by (simp add: word_less_nat_alt)
  then have p: "p < length bs" using n(2) by linarith
  have short: "p + unat c \<le> length bs" if "\<not> n < c" for c
    using that n by (simp add: word_less_nat_alt)
  have dd: "\<forall>g \<in> set device_fields. \<not> isl (field K (Some bs) p g)" if "\<not> n < macro K USB_DT_DEVICE_SIZE"
    using within_ok[OF f(1) _ short[OF that]] by blast
  have id: "\<forall>g \<in> set interface_fields. \<not> isl (field K (Some bs) p g)" if "\<not> n < macro K USB_DT_INTERFACE_SIZE"
    using within_ok[OF f(2) _ short[OF that]] by blast
  have ed: "\<forall>g \<in> set endpoint_fields. \<not> isl (field K (Some bs) p g)" if "\<not> n < 7"
    using within_ok[OF f(3), of _ p bs] short[OF that] by simp
  have "\<not> isl (DumpDD K h (Some bs) p n)"
    using dd bLength_field[OF f(4) p] by (simp add: DumpDD_def device_fields_def)
  moreover have "\<not> isl (DumpID K h (Some bs) p n)"
    using id bLength_field[OF f(5) p] by (simp add: DumpID_def interface_fields_def)
  moreover have "isl (DumpED K h (Some bs) p n) \<longleftrightarrow> 7 \<le> n \<and> bs ! p = 9 \<and> length bs < p + 9"
    using ed bLength_field[OF f(6) p] f(7-10)
    by (auto simp: DumpED_def endpoint_fields_def isl_field not_less ucast_u8_9)
  moreover have "block_only (DumpED K h (Some bs) p n)"
    by (simp add: DumpED_def block_only_dseq block_only_reading)
  ultimately show ?thesis using block_only_isl by blast
qed

text \<open>C39. With the transfer's bytes in the block, the device and interface dumpers read inside it,
  however short the transfer (from one byte on) and whatever the bytes say. The endpoint dumper
  leaves it exactly when the transfer has at least the 7 bytes of an endpoint descriptor, the
  descriptor says it has 9 (an audio endpoint), and the block does not have them: it never
  compares \<open>bLength\<close> with the transfer.\<close>

theorem descriptor_reads_in_block:
  assumes K: "descriptor_layout K" and n: "0 < n" "p + unat n \<le> length bs"
  shows "\<not> isl (DumpDD K h (Some bs) p n) \<and> \<not> isl (DumpID K h (Some bs) p n) \<and>
    (DumpED K h (Some bs) p n = Inl Out_of_block \<longleftrightarrow> 7 \<le> n \<and> bs ! p = 9 \<and> length bs < p + 9) \<and>
    (isl (DumpED K h (Some bs) p n) \<longleftrightarrow> DumpED K h (Some bs) p n = Inl Out_of_block)"
  by (rule dumpers_in_block[OF assms])

theorem descriptor_reads_in_block_witness:
  "DumpED linux_env [] (Some [9, 5, 0x81, 1, 64, 0, 1]) 0 7 = Inl Out_of_block"
  using descriptor_reads_in_block[OF linux_descriptor_layout, of 7 0 "[9, 5, 0x81, 1, 64, 0, 1]" "[]"] by simp

section \<open>When the configuration dump ends\<close>

definition config_fields :: "usb_field list" where
  "config_fields = [CD_bLength, CD_bDescriptorType, CD_wTotalLength, CD_bNumInterfaces, CD_bConfigurationValue,
     CD_iConfiguration, CD_bmAttributes, CD_MaxPower]"

definition config_layout :: "kenv \<Rightarrow> bool" where
  "config_layout K \<longleftrightarrow> descriptor_layout K \<and> header_layout K \<and> field_at K CD_wTotalLength = (2, 2) \<and>
     within K (unat (macro K USB_DT_CONFIG_SIZE)) config_fields"

lemma linux_config_layout: "config_layout linux_env"
  using linux_descriptor_layout
  by (simp add: config_layout_def header_layout_def within_def config_fields_def)

text \<open>The positions in the memory \<open>mem\<close> that \<open>pDH\<close> takes: from \<open>a\<close> on, every time further by the
  byte it points to, \<open>bLength\<close>, as long as it is below \<open>e\<close>.\<close>

inductive cd_chain :: "u8 list \<Rightarrow> nat \<Rightarrow> nat \<Rightarrow> nat \<Rightarrow> bool" for mem e a where
  chain_start: "cd_chain mem e a a"
| chain_next: "cd_chain mem e a q \<Longrightarrow> q < e \<Longrightarrow> cd_chain mem e a (q + unat (mem ! q))"

lemma unat_ucast_u8 [simp]: "unat (ucast (b :: u8) :: u32) = unat b"
proof -
  have "unat b < 256" using unsigned_less[of b, where 'a = nat] by simp
  then show ?thesis by (simp add: unsigned_ucast_eq take_bit_eq_mod)
qed

lemma byte_field:
  "field_at K f = (i, 1) \<Longrightarrow> p + i < length bs \<Longrightarrow> field K (Some bs) p f = Inr (ucast (bs ! (p + i)))"
  by (simp add: field_def le_val_def take_Suc_conv_app_nth hd_drop_conv_nth Cons_nth_drop_Suc[symmetric])

lemma total_field:
  assumes "field_at K f = (2, 2)" "p + 4 \<le> length bs"
  obtains v where "field K (Some bs) p f = Inr v" "unat v = unat (bs ! (p + 2)) + 256 * unat (bs ! (p + 3))"
proof -
  have "take 2 (drop (p + 2) bs) = [bs ! (p + 2), bs ! (p + 3)]"
    using assms(2) by (simp add: take_Suc_conv_app_nth numeral_2_eq_2 Cons_nth_drop_Suc[symmetric] numeral_3_eq_3)
  then have "field K (Some bs) p f = Inr (ucast (bs ! (p + 2)) + 256 * ucast (bs ! (p + 3)))"
    using assms by (simp add: field_def le_val_def)
  moreover have "unat (bs ! (p + 2)) < 256" "unat (bs ! (p + 3)) < 256"
    using unsigned_less[of "bs ! (p + 2)", where 'a = nat] unsigned_less[of "bs ! (p + 3)", where 'a = nat] by simp_all
  then have "unat (ucast (bs ! (p + 2)) + 256 * ucast (bs ! (p + 3)) :: u32) = unat (bs ! (p + 2)) + 256 * unat (bs ! (p + 3))"
    by (simp add: unat_word_ariths)
  ultimately show thesis by (rule that)
qed

text \<open>With two readable bytes behind the transfer no step of the walk fails.\<close>

lemma cd_item_ok:
  assumes K: "config_layout K" and q: "q < e" "p \<le> q" "e \<le> p + unat n" "p + unat n + 2 \<le> length mem"
    and c: "\<not> n < macro K USB_DT_CONFIG_SIZE"
  shows "\<exists>r. cd_item K h (Some mem) p q e = Inr r" "field K (Some mem) q DH_bLength = Inr (ucast (mem ! q))"
proof -
  have k: "descriptor_layout K" "field_at K DH_bLength = (0, 1)" "field_at K DH_bDescriptorType = (1, 1)"
    "within K (unat (macro K USB_DT_CONFIG_SIZE)) config_fields"
    using K by (simp_all add: config_layout_def header_layout_def)
  show "field K (Some mem) q DH_bLength = Inr (ucast (mem ! q))" using byte_field[OF k(2), of q mem] q by simp
  let ?n = "of_nat (e - q) :: u32"
  have "e - q \<le> unat n" using q by linarith
  then have n: "unat ?n = e - q" using unsigned_less[of n, where 'a = nat] by (simp add: unat_of_nat)
  have "0 < ?n" using n q(1) by (simp add: word_less_nat_alt)
  moreover have "q + unat ?n \<le> length mem" using n q by linarith
  ultimately have d: "\<not> isl (DumpID K h (Some mem) q ?n)"
    "DumpED K h (Some mem) q ?n = Inl Out_of_block \<longleftrightarrow> 7 \<le> ?n \<and> mem ! q = 9 \<and> length mem < q + 9"
    "isl (DumpED K h (Some mem) q ?n) \<longleftrightarrow> DumpED K h (Some mem) q ?n = Inl Out_of_block"
    using dumpers_in_block[OF k(1), of ?n q mem h] by blast+
  have "\<not> length mem < q + 9" if "7 \<le> ?n"
  proof -
    have "7 \<le> e - q" using that n by (simp add: word_le_nat_alt)
    then show ?thesis using q by linarith
  qed
  with d have "\<not> isl (DumpED K h (Some mem) q ?n)" by blast
  moreover have "p + unat (macro K USB_DT_CONFIG_SIZE) \<le> length mem" using c q(4) by (simp add: word_less_nat_alt)
  then have "\<not> isl (unknown_line K h (Some mem) p CD_bDescriptorType CD_bLength)"
    using within_ok[OF k(4)] by (simp add: unknown_line_def config_fields_def)
  moreover have "\<not> isl (field K (Some mem) q DH_bDescriptorType)" using q by (simp add: isl_field k(3))
  ultimately have "\<not> isl (cd_item K h (Some mem) p q e)"
    using d(1) unfolding cd_item_def isl_reading by simp
  then show "\<exists>r. cd_item K h (Some mem) p q e = Inr r" by (simp only: not_isl)
qed

lemma cd_walk_text:
  assumes "\<And>q. q < e \<Longrightarrow> a \<le> q \<Longrightarrow> \<exists>r. cd_item K h blk p q e = Inr r"
    and "\<And>q. q < e \<Longrightarrow> a \<le> q \<Longrightarrow> \<exists>len. field K blk q DH_bLength = Inr len"
    and "cd_walk K h blk p a e = Some d"
  shows "\<not> isl d"
  using assms
proof (induction "e - a" arbitrary: a d rule: less_induct)
  case less
  show ?case
  proof (cases "a < e")
    case True
    obtain r len where r: "cd_item K h blk p a e = Inr r" "field K blk a DH_bLength = Inr len"
      using less.prems(1,2)[OF True] by blast
    then have "len \<noteq> 0" using cd_walk_not_stuck[OF less.prems(3)] True by (auto simp: cd_stuck_def)
    then have pos: "0 < unat len" by (simp add: unat_gt_0)
    obtain d' where d': "cd_walk K h blk p (a + unat len) e = Some d'" "d = dseq (Inr r) d'"
      using less.prems(3) True r by (subst (asm) cd_walk.simps) (auto split: bind_splits)
    have "\<not> isl d'"
    proof (rule less.hyps)
      show "e - (a + unat len) < e - a" using True pos by linarith
      show "cd_walk K h blk p (a + unat len) e = Some d'" by (rule d'(1))
      show "\<exists>r. cd_item K h blk p q e = Inr r" "\<exists>len. field K blk q DH_bLength = Inr len"
        if "q < e" "a + unat len \<le> q" for q using less.prems(1,2)[of q] that by simp_all
    qed
    then show ?thesis by (simp add: d'(2))
  next
    case False
    then show ?thesis using less.prems(3) by (subst (asm) cd_walk.simps) auto
  qed
qed

lemma cd_reach_chain:
  assumes ok: "\<And>q. q < e \<Longrightarrow> a \<le> q \<Longrightarrow> \<exists>r. cd_item K h (Some mem) p q e = Inr r"
    "\<And>q. q < e \<Longrightarrow> a \<le> q \<Longrightarrow> field K (Some mem) q DH_bLength = Inr (ucast (mem ! q))"
  shows "cd_reach K h (Some mem) p e a q \<longleftrightarrow> cd_chain mem e a q"
proof
  have ge: "cd_chain mem e a q \<Longrightarrow> a \<le> q" for q by (induction rule: cd_chain.induct) simp_all
  show "cd_reach K h (Some mem) p e a q \<Longrightarrow> cd_chain mem e a q"
  proof (induction rule: cd_reach.induct)
    case (reach_next q r len)
    then have "unat len = unat (mem ! q)" using ok(2)[OF reach_next.hyps(2) ge] by auto
    with reach_next show ?case by (metis chain_next)
  qed (rule chain_start)
  show "cd_chain mem e a q \<Longrightarrow> cd_reach K h (Some mem) p e a q"
  proof (induction rule: cd_chain.induct)
    case (chain_next q)
    obtain r where "cd_item K h (Some mem) p q e = Inr r" using ok(1)[OF chain_next.hyps(2) ge[OF chain_next.hyps(1)]] by blast
    from reach_next[OF chain_next.IH chain_next.hyps(2) this ok(2)[OF chain_next.hyps(2) ge[OF chain_next.hyps(1)]]]
    show ?case by simp
  qed (rule reach_start)
qed

text \<open>C38. When \<open>DumpCD\<close> returns. \<open>mem\<close> is the memory it reads: the transfer, of \<open>n\<close> bytes at \<open>p\<close>, and
  what follows it, of which two bytes are enough. Then it never fails, and it never returns exactly
  when the transfer is longer than a configuration descriptor and \<open>pDH\<close>, which starts behind that
  descriptor and moves on by the \<open>bLength\<close> it finds, comes to a byte 0 before the end \<open>e\<close> (the smaller
  of \<open>n\<close> and \<open>wTotalLength\<close>): there it stays. In all other cases it returns with a text.\<close>

theorem DumpCD_loops_iff:
  assumes K: "config_layout K" and mem: "p + unat n + 2 \<le> length mem"
    and e: "e = p + min (unat n) (unat (mem ! (p + 2)) + 256 * unat (mem ! (p + 3)))"
  shows "(DumpCD K h (Some mem) p n = None \<longleftrightarrow>
      macro K USB_DT_CONFIG_SIZE < n \<and> (\<exists>q < e. cd_chain mem e (p + unat (mem ! p)) q \<and> mem ! q = 0)) \<and>
    (\<forall>d. DumpCD K h (Some mem) p n = Some d \<longrightarrow> (\<exists>t. d = Inr t))"
proof -
  let ?a = "p + unat (mem ! p)"
  have k: "field_at K CD_bLength = (0, 1)" "field_at K CD_wTotalLength = (2, 2)"
    "within K (unat (macro K USB_DT_CONFIG_SIZE)) config_fields"
    using K by (simp_all add: config_layout_def header_layout_def)
  have len: "field K (Some mem) p CD_bLength = Inr (ucast (mem ! p))" using byte_field[OF k(1), of p mem] mem by simp
  have head: "\<exists>r. cd_head K h (Some mem) p n = Inr r"
  proof -
    have "\<not> isl (cd_head K h (Some mem) p n)"
    proof (cases "n < macro K USB_DT_CONFIG_SIZE")
      case True
      then show ?thesis using len by (simp add: cd_head_def)
    next
      case False
      then have "p + unat (macro K USB_DT_CONFIG_SIZE) \<le> length mem" using mem by (simp add: word_less_nat_alt)
      then show ?thesis using False within_ok[OF k(3)] by (simp add: cd_head_def config_fields_def)
    qed
    then show ?thesis by (simp only: not_isl)
  qed
  show ?thesis
  proof (cases "macro K USB_DT_CONFIG_SIZE < n")
    case False
    obtain r where "cd_head K h (Some mem) p n = Inr r" using head by blast
    with False show ?thesis by (simp add: DumpCD_def del: split_paired_Ex)
  next
    case True
    have "4 \<le> unat (macro K USB_DT_CONFIG_SIZE)" using k(2,3) by (auto simp: within_def config_fields_def)
    then have "p + 4 \<le> length mem" using True mem by (simp add: word_less_nat_alt)
    then obtain tot where tot: "field K (Some mem) p CD_wTotalLength = Inr tot"
      "unat tot = unat (mem ! (p + 2)) + 256 * unat (mem ! (p + 3))" by (rule total_field[OF k(2)])
    have "unat (min_u n tot) = min (unat n) (unat tot)" by (simp add: min_u_def word_less_nat_alt word_le_nat_alt min_def)
    then have pe: "p + unat (min_u n tot) = e" by (simp add: e tot(2))
    have le: "e \<le> p + unat n" by (simp add: e)
    have ok: "\<exists>r. cd_item K h (Some mem) p q e = Inr r" "field K (Some mem) q DH_bLength = Inr (ucast (mem ! q))"
      if "q < e" "?a \<le> q" for q
      using cd_item_ok(1)[OF K that(1) _ le mem, of h] cd_item_ok(2)[OF K that(1) _ le mem] that(2) True by auto
    have z: "(ucast (mem ! q) :: u32) = 0 \<longleftrightarrow> mem ! q = 0" for q
      using unat_ucast_u8[of "mem ! q"] by (metis unat_eq_0 unsigned_0)
    have stuck: "cd_stuck K h (Some mem) p e q \<longleftrightarrow> q < e \<and> mem ! q = 0" if "?a \<le> q" for q
      using ok[of q] that by (auto simp: cd_stuck_def z)
    have ge: "cd_chain mem e ?a q \<Longrightarrow> ?a \<le> q" for q by (induction rule: cd_chain.induct) simp_all
    have u: "p + unat (ucast (mem ! p) :: u32) = ?a" by simp
    have "DumpCD K h (Some mem) p n = None \<longleftrightarrow> (\<exists>q. cd_reach K h (Some mem) p e ?a q \<and> cd_stuck K h (Some mem) p e q)"
      unfolding DumpCD_None len tot(1) sum.inject using head True pe u by metis
    also have "\<dots> \<longleftrightarrow> (\<exists>q < e. cd_chain mem e ?a q \<and> mem ! q = 0)"
      using cd_reach_chain[where a = ?a, OF ok] stuck ge by blast
    finally have "DumpCD K h (Some mem) p n = None \<longleftrightarrow> (\<exists>q < e. cd_chain mem e ?a q \<and> mem ! q = 0)" .
    moreover have "\<exists>t. d = Inr t" if d: "DumpCD K h (Some mem) p n = Some d" for d
    proof -
      obtain r d' where "cd_walk K h (Some mem) p ?a e = Some d'" "d = dseq (Inr r) d'"
        using d head True len tot(1) pe by (auto simp: DumpCD_def split: bind_splits)
      moreover from this(1) have "\<not> isl d'" by (rule cd_walk_text[rotated 2]) (use ok in blast)+
      ultimately have "\<not> isl d" by simp
      then show ?thesis by (simp only: not_isl)
    qed
    ultimately show ?thesis using True by simp
  qed
qed

text \<open>A transfer of 10 bytes that ends with the first byte, 0, of the next descriptor: the rest of it is
  read behind the transfer. The dump of a descriptor that is complete returns.\<close>

definition loop_cd :: "u8 list" where
  "loop_cd = [9, 2, 100, 0, 1, 1, 0, 0, 0, 0]"

theorem DumpCD_loops_iff_witness:
  "DumpCD linux_env [] (Some (loop_cd @ [7, 7])) 0 10 = None \<and>
   (\<exists>t. DumpCD linux_env [] (Some (loop_cd @ [7, 7])) 0 9 = Some (Inr t))"
proof -
  let ?m = "loop_cd @ [7, 7]"
  have e: "10 = 0 + min (unat (10 :: u32)) (unat (?m ! (0 + 2)) + 256 * unat (?m ! (0 + 3)))"
    "9 = 0 + min (unat (9 :: u32)) (unat (?m ! (0 + 2)) + 256 * unat (?m ! (0 + 3)))"
    by (simp_all add: loop_cd_def)
  have l: "0 + unat (10 :: u32) + 2 \<le> length ?m" "0 + unat (9 :: u32) + 2 \<le> length ?m" by (simp_all add: loop_cd_def)
  have "cd_chain ?m 10 (0 + unat (?m ! 0)) 9" using chain_start[of ?m 10 9] by (simp add: loop_cd_def)
  moreover have "?m ! 9 = 0" "macro linux_env USB_DT_CONFIG_SIZE < 10" by (simp_all add: loop_cd_def)
  ultimately have "DumpCD linux_env [] (Some ?m) 0 10 = None"
    using DumpCD_loops_iff[OF linux_config_layout l(1) e(1), of "[]"] by auto
  moreover have "\<exists>t. DumpCD linux_env [] (Some ?m) 0 9 = Some (Inr t)"
    using DumpCD_loops_iff[OF linux_config_layout l(2) e(2), of "[]"]
    by (cases "DumpCD linux_env [] (Some ?m) 0 9") auto
  ultimately show ?thesis ..
qed

section \<open>Strings\<close>

lemma sd_loop_text:
  "q + 2 * n \<le> Suc (length bs) \<Longrightarrow>
   sd_loop K (Some bs) q n = emit (concat (map (\<lambda>i. sd_char K (bs ! (q + 2 * i))) [0..<n]))"
proof (induction n arbitrary: q)
  case 0
  then show ?case by (simp add: nothing_def emit_def)
next
  case (Suc n)
  have "map (\<lambda>i. sd_char K (bs ! (q + 2 * i))) [0..<Suc n] =
      sd_char K (bs ! q) # map (\<lambda>i. sd_char K (bs ! (q + 2 + 2 * i))) [0..<n]"
    by (subst upt_conv_Cons) (simp_all add: map_Suc_upt[symmetric] comp_def del: upt_Suc)
  with Suc show ?case by (simp add: block_byte_def dseq_emit del: upt_Suc)
qed

lemma sd_displacement_value:
  assumes "2 \<le> unat (len :: u32)" "len \<le> n" "unat len \<le> 255"
  shows "nat (sd_displacement len n div 2) = (unat len - 2) div 2"
proof -
  have "unat (len - 2) = unat len - 2" using assms(1) by (simp add: unat_sub word_le_nat_alt)
  then have d: "unat ((len - 2) div 2) = (unat len - 2) div 2" by (simp add: unat_div)
  then have "unat (2 * ((len - 2) div 2)) = 2 * ((unat len - 2) div 2)"
    using assms(3) by (subst unat_word_ariths) simp
  moreover have "2 * ((unat len - 2) div 2) < 2 ^ 31" using assms(3) by simp
  ultimately have "sint (2 * ((len - 2) div 2)) = int (2 * ((unat len - 2) div 2))"
    by (metis sint_small)
  moreover have "min_u len n = len" using assms(2) by (auto simp: min_u_def)
  ultimately show ?thesis by (simp add: sd_displacement_def)
qed

text \<open>A complete string descriptor of \<open>bLength >= 2\<close> bytes (other than number 0) is printed
  with one character per 16-bit unit: its low byte if printable, a dot if not. Everything is read
  inside the transfer, and a printable percent sign goes into the text that later is a format.\<close>

theorem DumpSD_text:
  assumes K: "field_at K SD_bLength = (0, 1)" "field_at K SD_bDescriptorType = (1, 1)"
      "fst (field_at K SD_wData) = 2"
    and len: "2 \<le> unat (bs ! p)" "unat (bs ! p) \<le> unat n" "p + unat n \<le> length bs" and i: "idx \<noteq> 0"
  shows "DumpSD K h (Some bs) p n idx = emit (
    h @ ''    -- string descriptor -----'' @ newline @
    h @ ''    bLength         = '' @ fmt_num X2D (ucast (bs ! p)) @ newline @
    h @ ''    bDescriptorType = '' @ fmt_num X2 (ucast (bs ! (p + 1))) @ newline @
    h @ ''    wData[]         = '' @ [CHR 0x27] @
    concat (map (\<lambda>j. sd_char K (bs ! (p + 2 + 2 * j))) [0..<(unat (bs ! p) - 2) div 2]) @
    [CHR 0x27] @ newline @
    h @ ''    --------------------------'' @ newline)"
proof -
  have p: "p < length bs" "p + 1 < length bs" using len by linarith+
  have f1: "field K (Some bs) p SD_bLength = Inr (ucast (bs ! p))" by (rule bLength_field[OF K(1) p(1)])
  have f2: "field K (Some bs) p SD_bDescriptorType = Inr (ucast (bs ! (p + 1)))"
    using K(2) p by (simp add: field_def le_val_def take_Suc_conv_app_nth hd_drop_conv_nth Cons_nth_drop_Suc[symmetric])
  have n: "\<not> n < 2" "\<not> n < ucast (bs ! p)" "ucast (bs ! p) \<le> n"
    using len by (simp_all add: word_less_nat_alt word_le_nat_alt)
  have "unat (ucast (bs ! p) :: u32) \<le> 255" using unsigned_less[of "bs ! p", where 'a = nat] by simp
  then have d: "nat (sd_displacement (ucast (bs ! p)) n div 2) = (unat (bs ! p) - 2) div 2"
    using sd_displacement_value[of "ucast (bs ! p)" n] len n by simp
  have "p + 2 + 2 * ((unat (bs ! p) - 2) div 2) \<le> Suc (length bs)" using len by linarith
  note loop = sd_loop_text[OF this, of K]
  show ?thesis
    using i n by (simp add: DumpSD_def f1 f2 d loop[simplified] K(3) field_line_def text_line_def rule_line_def
        dseq_emit del: upt_Suc)
qed

theorem DumpSD_text_witness:
  "DumpSD linux_env [] (Some [8, 3, 0x41, 0, 0x25, 0, 1, 0]) 0 8 1 = emit (
     ''    -- string descriptor -----'' @ newline @
     ''    bLength         = '' @ fmt_num X2D 8 @ newline @
     ''    bDescriptorType = '' @ fmt_num X2 3 @ newline @
     ''    wData[]         = '' @ [CHR 0x27] @ ''A%.'' @ [CHR 0x27] @ newline @
     ''    --------------------------'' @ newline)"
proof -
  let ?bs = "[8, 3, 0x41, 0, 0x25, 0, 1, 0] :: u8 list"
  have l: "2 \<le> unat (?bs ! 0)" "unat (?bs ! 0) \<le> unat (8 :: u32)" "0 + unat (8 :: u32) \<le> length ?bs"
    "(1 :: u32) \<noteq> 0" by simp_all
  have "concat (map (\<lambda>j. sd_char linux_env (?bs ! (0 + 2 + 2 * j))) [0..<(unat (?bs ! 0) - 2) div 2]) = ''A%.''"
    by (simp add: sd_char_def upt_rec char_of_def bit_iff_odd word_le_nat_alt)
  then show ?thesis
    using DumpSD_text[OF _ _ _ l(1-3), of linux_env 1 "[]"] by simp
qed

end
