(* ===== verification/Dump_Urb.thy ===== *)
theory Dump_Urb
  imports Dump_Desc
begin

text \<open>
  The upper levels of the dump (\<open>side_dumper_core.c\<close>): the small inline helpers, the setup
  packet, the transfer buffer, the choice of the descriptor dumper, the whole text of an URB
  (\<open>DumpUrb\<close>) and its way to the kernel log (\<open>DumpUrbToPrintk\<close>).
\<close>

section \<open>Helpers\<close>

definition PipeTypeStr :: "kenv \<Rightarrow> u32 \<Rightarrow> string" where
  "PipeTypeStr K pipe =
     (if usb_pipetype K pipe = macro K PIPE_ISOCHRONOUS then ''iso''
      else if usb_pipetype K pipe = macro K PIPE_INTERRUPT then ''intr''
      else if usb_pipetype K pipe = macro K PIPE_CONTROL then ''ctrl''
      else if usb_pipetype K pipe = macro K PIPE_BULK then ''bulk''
      else ''?'')"

text \<open>A field of the setup packet, which is an array inside the mini URB.\<close>

definition sp_field :: "kenv \<Rightarrow> mini \<Rightarrow> usb_field \<Rightarrow> dump_err + u32" where
  "sp_field K m f = field K (Some (mini_setup m)) 0 f"

definition TestForStdDescriptor :: "kenv \<Rightarrow> mini \<Rightarrow> dump_err + bool" where
  "TestForStdDescriptor K m =
     (if usb_pipetype K (mini_pipe m) = macro K PIPE_CONTROL
      then reading (sp_field K m DR_requesttype) (\<lambda>rt.
        if rt AND 0x60 = macro K USB_TYPE_STANDARD
        then reading (sp_field K m DR_request) (\<lambda>rq. Inr (rq = macro K USB_REQ_GET_DESCRIPTOR))
        else Inr False)
      else Inr False)"

definition GetStringIndex :: "kenv \<Rightarrow> mini \<Rightarrow> dump_err + u32" where
  "GetStringIndex K m = reading (sp_field K m DR_value) (\<lambda>v. Inr (v AND 0xff))"

text \<open>\<open>FindEol\<close> as an index; the end of the list is the terminating NUL.\<close>

fun FindEol :: "string \<Rightarrow> nat" where
  "FindEol [] = 0"
| "FindEol (c # cs) = (if c = CHR 0x00 \<or> c = CHR 0x0A then 0 else Suc (FindEol cs))"

section \<open>Setup packet\<close>

record setup_packet =
  sp_requesttype :: u32
  sp_request :: u32
  sp_value :: u32
  sp_index :: u32
  sp_length :: u32

text \<open>The initialiser of \<open>TSetupPacket\<close>; \<open>__le16_to_cpu\<close> is the identity.\<close>

definition read_sp :: "kenv \<Rightarrow> mini \<Rightarrow> dump_err + setup_packet" where
  "read_sp K m =
     reading (sp_field K m DR_requesttype) (\<lambda>rt. reading (sp_field K m DR_request) (\<lambda>rq.
     reading (sp_field K m DR_value) (\<lambda>v. reading (sp_field K m DR_index) (\<lambda>i.
     reading (sp_field K m DR_length) (\<lambda>n.
       Inr \<lparr>sp_requesttype = rt, sp_request = rq, sp_value = v, sp_index = i, sp_length = n\<rparr>)))))"

definition DumpSPBytes :: "kenv \<Rightarrow> string \<Rightarrow> mini \<Rightarrow> dump" where
  "DumpSPBytes K h m =
     reading (read_sp K m) (\<lambda>sp.
       if usb_pipetype K (mini_pipe m) \<noteq> macro K PIPE_CONTROL
       then dlog (Printk KERN_ERR ''DumpSPBytes: wrong pipe type'')
       else emit (h @ ''  sp = [ '' @ fmt_0x 2 (sp_requesttype sp) @ '' '' @ fmt_0x 2 (sp_request sp) @
         '' '' @ fmt_0x 4 (sp_value sp) @ '' '' @ fmt_0x 4 (sp_index sp) @ '' '' @
         fmt_0x 4 (sp_length sp) @ '' ]'' @ newline))"

definition descriptor_type_name :: "kenv \<Rightarrow> u32 \<Rightarrow> string" where
  "descriptor_type_name K t =
     (if t = macro K USB_DT_DEVICE then ''(USB_DT_DEVICE), ''
      else if t = macro K USB_DT_CONFIG then ''(USB_DT_CONFIG), ''
      else if t = macro K USB_DT_STRING then ''(USB_DT_STRING), ''
      else if t = macro K USB_DT_INTERFACE then ''(USB_DT_INTERFACE), ''
      else if t = macro K USB_DT_ENDPOINT then ''(USB_DT_ENDPOINT), ''
      else ''(USB_DT_?), '')"

definition request_text :: "kenv \<Rightarrow> setup_packet \<Rightarrow> string" where
  "request_text K sp =
     (let rq = sp_request sp; v = fmt_u (sp_value sp); i = fmt_u (sp_index sp) in
      if rq = macro K USB_REQ_GET_STATUS then ''USB_REQ_GET_STATUS(@'' @ i @ ''), ''
      else if rq = macro K USB_REQ_CLEAR_FEATURE
        then ''USB_REQ_CLEAR_FEATURE('' @ v @ ''@'' @ i @ ''), ''
      else if rq = macro K USB_REQ_SET_FEATURE
        then ''USB_REQ_SET_FEATURE('' @ v @ ''@'' @ i @ ''), ''
      else if rq = macro K USB_REQ_SET_ADDRESS then ''USB_REQ_SET_ADDRESS(@'' @ v @ ''), ''
      else if rq = macro K USB_REQ_GET_DESCRIPTOR \<or> rq = macro K USB_REQ_SET_DESCRIPTOR
        then ''USB_REQ_'' @ (if rq = macro K USB_REQ_GET_DESCRIPTOR then ''GET'' else ''SET'') @
          ''_DESCRIPTOR'' @ descriptor_type_name K (drop_bit 8 (sp_value sp))
      else if rq = macro K USB_REQ_GET_CONFIGURATION then ''USB_REQ_GET_CONFIGURATION, ''
      else if rq = macro K USB_REQ_SET_CONFIGURATION
        then ''USB_REQ_SET_CONFIGURATION('' @ v @ ''), ''
      else if rq = macro K USB_REQ_GET_INTERFACE then ''USB_REQ_GET_INTERFACE(@'' @ i @ ''), ''
      else if rq = macro K USB_REQ_SET_INTERFACE
        then ''USB_REQ_SET_INTERFACE('' @ v @ ''@'' @ i @ ''), ''
      else if rq = macro K USB_REQ_SYNCH_FRAME then ''USB_REQ_SYNCH_FRAME(@'' @ i @ ''), ''
      else ''USB_REQ_?, '')"

definition type_text :: "kenv \<Rightarrow> setup_packet \<Rightarrow> string" where
  "type_text K sp =
     (let t = sp_requesttype sp AND 0x60 in
      if t = macro K USB_TYPE_STANDARD then request_text K sp
      else if t = macro K USB_TYPE_CLASS then ''USB_TYPE_CLASS, ''
      else if t = macro K USB_TYPE_VENDOR then ''USB_TYPE_VENDOR, ''
      else ''USB_TYPE_?, '')"

definition recipient_text :: "kenv \<Rightarrow> setup_packet \<Rightarrow> string" where
  "recipient_text K sp =
     (let r = sp_requesttype sp AND macro K USB_RECIP_MASK in
      if r = macro K USB_RECIP_DEVICE then ''USB_RECIP_DEVICE''
      else if r = macro K USB_RECIP_INTERFACE then ''USB_RECIP_INTERFACE''
      else if r = macro K USB_RECIP_ENDPOINT then ''USB_RECIP_ENDPOINT''
      else if r = macro K USB_RECIP_OTHER then ''USB_RECIP_OTHER''
      else ''USB_RECIP_?'') @ newline"

definition DumpSPSettings :: "kenv \<Rightarrow> string \<Rightarrow> mini \<Rightarrow> dump" where
  "DumpSPSettings K h m =
     reading (read_sp K m) (\<lambda>sp.
       if usb_pipetype K (mini_pipe m) \<noteq> macro K PIPE_CONTROL
       then dlog (Printk KERN_ERR ''DumpSPSettings: wrong pipe type'')
       else emit (h @ ''    '' @
         (if sp_requesttype sp AND macro K USB_DIR_IN \<noteq> 0 then ''h<-d'' else ''h->d'') @ '', '' @
         type_text K sp @ recipient_text K sp))"

section \<open>Transfer buffer and descriptors\<close>

definition TB_HEADER_SIZE :: nat where "TB_HEADER_SIZE = 64"

text \<open>\<open>uTbLen\<close>: the length of the transfer, at most the device's limit for the direction.\<close>

definition tb_len :: "kenv \<Rightarrow> settings \<Rightarrow> mini \<Rightarrow> u32" where
  "tb_len K d m =
     (if usb_pipeout K (mini_pipe m) \<noteq> 0 then min_u (uOutLimit d) (mini_tb_length m)
      else min_u (uInLimit d) (mini_actual m))"

text \<open>\<open>strcpy\<close> and \<open>strcat\<close> into \<open>szTbHeader[64]\<close> need room for the NUL too.\<close>

definition DumpTB :: "kenv \<Rightarrow> settings \<Rightarrow> string \<Rightarrow> mini \<Rightarrow> dump" where
  "DumpTB K d h m =
     (let uTbLen = tb_len K d m in
      if uTbLen = 0 then nothing
      else if TB_HEADER_SIZE < length (h @ ''  tb ='') + 1 then Inl Stack_overrun
      else DumpRawBuf (h @ ''  tb ='') (mini_tb m) uTbLen)"

text \<open>What the descriptor dumpers can read: the copy and the memory behind it. They do not compare the
  lengths in the descriptors with the length of the copy.\<close>

definition copied :: "kenv \<Rightarrow> mini \<Rightarrow> u8 list option" where
  "copied K m = map_option (\<lambda>bs. bs @ behind_copy K (mini_number m)) (mini_tb m)"

definition DumpStdDescriptors :: "kenv \<Rightarrow> string \<Rightarrow> mini \<Rightarrow> dump option" where
  "DumpStdDescriptors K h m =
     (case TestForStdDescriptor K m of
        Inl e \<Rightarrow> Some (Inl e)
      | Inr False \<Rightarrow> Some nothing
      | Inr True \<Rightarrow>
          (case field K (copied K m) 0 DH_bDescriptorType of
             Inl e \<Rightarrow> Some (Inl e)
           | Inr t \<Rightarrow>
               if t = macro K USB_DT_DEVICE then Some (DumpDD K h (copied K m) 0 (mini_len K m))
               else if t = macro K USB_DT_CONFIG then DumpCD K h (copied K m) 0 (mini_len K m)
               else if t = macro K USB_DT_STRING
               then Some (reading (GetStringIndex K m) (DumpSD K h (copied K m) 0 (mini_len K m)))
               else if t = macro K USB_DT_INTERFACE \<or> t = macro K USB_DT_ENDPOINT
               then Some (dlog (Printk KERN_ERR ''DumpStdDescriptors: wrong descriptor type''))
               else Some (unknown_line K h (copied K m) 0 DH_bDescriptorType DH_bLength)))"

definition urb_line :: "kenv \<Rightarrow> string \<Rightarrow> mini \<Rightarrow> string" where
  "urb_line K h m =
     h @ '' urb_'' @ fmt_0u 4 (mini_number m) @ '': device #'' @ fmt_d (mini_devnum m) @ '', '' @
     PipeTypeStr K (mini_pipe m) @ ''_'' @ fmt_u (usb_pipeendpoint K (mini_pipe m)) @ '' '' @
     (if usb_pipeout K (mini_pipe m) \<noteq> 0 then ''>'' else ''<'') @ '', '' @
     fmt_u (mini_len K m) @ '' bytes.'' @ newline"

definition DumpUrb :: "kenv \<Rightarrow> settings \<Rightarrow> string \<Rightarrow> mini \<Rightarrow> dump option" where
  "DumpUrb K d h m =
     (case dcat [emit (urb_line K h m),
             if usb_pipetype K (mini_pipe m) = macro K PIPE_CONTROL
             then dcat [DumpSPBytes K h m, DumpSPSettings K h m] else nothing,
             DumpTB K d h m] of
        Inl e \<Rightarrow> Some (Inl e)
      | Inr r \<Rightarrow> map_option (dseq (Inr r)) (DumpStdDescriptors K h m))"

section \<open>To the kernel log\<close>

datatype out_event = Out kmsg | Yield_to_main | Sleep_250ms

definition uStrLen :: nat where "uStrLen = 16 * 1024"

text \<open>
  The loop over the lines: \<open>n\<close> is the static \<open>uBytesOut\<close>. With the worker thread the
  processor is yielded after every line, and every 15K the thread sleeps.
\<close>

function chunk_loop :: "bool \<Rightarrow> u32 \<Rightarrow> string \<Rightarrow> out_event list \<times> u32" where
  "chunk_loop async n s =
     (let k = FindEol s in
      if length s \<le> k \<or> s ! k = CHR 0x00 then ([Out (Printk_fmt (take k s))], n)
      else
        let n1 = n + of_nat (Suc k);
            (ev, n2) = (if async then if n1 < 15 * 1024 then ([Yield_to_main], n1) else ([Sleep_250ms], 0)
                        else ([], n));
            (evs, n3) = chunk_loop async n2 (drop (Suc k) s)
        in (Out (Printk_fmt (take (Suc k) s)) # ev @ evs, n3))"
  by pat_completeness auto
termination by (relation "measure (\<lambda>(a, n, s). length s)") auto

declare chunk_loop.simps [simp del]

text \<open>
  The text is written into a \<open>kmalloc\<close>ed block of 16K, and only afterwards its length is
  compared with the block: \<open>overrun\<close> is the number of bytes written behind the block.
\<close>

record printk_result =
  events :: "out_event list"
  bytes_out :: u32
  overrun :: nat

definition DumpUrbToPrintk ::
  "kenv \<Rightarrow> bool \<Rightarrow> settings \<Rightarrow> mini \<Rightarrow> u32 \<Rightarrow> (dump_err + printk_result) option" where
  "DumpUrbToPrintk K kmalloc_ok d m n =
     (if \<not> kmalloc_ok
      then Some (Inr \<lparr>events = [Out (Printk KERN_ERR ''DumpUrbToPrintk: out of memory.'')],
             bytes_out = n, overrun = 0\<rparr>)
      else (case DumpUrb K d (KERN_DEBUG_str K @ ''side_dumper|'') m of
              None \<Rightarrow> None
            | Some (Inl e) \<Rightarrow> Some (Inl e)
            | Some (Inr (t, l)) \<Rightarrow>
                let long = uStrLen \<le> length t;
                    warn = (if long then [Printk KERN_ERR ''DumpUrbToPrintk: Warning - buffer overrun.'']
                            else []);
                    (evs, n') = chunk_loop (oAsync d \<noteq> 0) n (if long then take (uStrLen - 1) t else t)
                in Some (Inr \<lparr>events = map Out (l @ warn) @ evs, bytes_out = n',
                     overrun = Suc (length t) - uStrLen\<rparr>)))"

section \<open>Lengths\<close>

lemma fmt_d_length: "length (fmt_d x) \<le> 11"
proof -
  have "- (2 ^ 31) \<le> sint x" "sint x < 2 ^ 31"
    using sint_greater_eq[of x] sint_less[of x] by simp_all
  then have "nat (- sint x) < 10 ^ 10" "nat (sint x) < 10 ^ 10" by simp_all
  then show ?thesis
    using fmt_nat_length[of "nat (- sint x)" 10] fmt_nat_length[of "nat (sint x)" 10] by (simp add: fmt_d_def)
qed

lemma fmt_0u_length_10: "w \<le> 10 \<Longrightarrow> length (fmt_0u w x) \<le> 10"
  using fmt_u_length[of x] by (simp add: fmt_0u_def)

lemma PipeTypeStr_length: "length (PipeTypeStr K p) \<le> 4"
  by (simp add: PipeTypeStr_def)

lemma urb_line_length: "length (urb_line K h m) \<le> length h + 75"
  using fmt_0u_length_10[of 4 "mini_number m"] fmt_d_length[of "mini_devnum m"]
    PipeTypeStr_length[of K "mini_pipe m"] fmt_u_length[of "usb_pipeendpoint K (mini_pipe m)"]
    fmt_u_length[of "mini_len K m"]
  by (simp add: urb_line_def newline_def)

lemma tb_len_le: "unat (tb_len K d m) \<le> unat (mini_len K m)"
  by (simp add: tb_len_def mini_len_def)

lemma DumpTB_text:
  assumes "mini_tb m = Some bs" "unat (mini_len K m) \<le> length bs" "length h \<le> 57"
  shows "DumpTB K d h m = emit (raw_text (h @ ''  tb ='') (take (unat (tb_len K d m)) bs))"
proof -
  have "unat (tb_len K d m) \<le> length bs" using tb_len_le[of K d m] assms(2) by linarith
  then show ?thesis
    using assms(1,3) DumpRawBuf_text[of "tb_len K d m" bs "h @ ''  tb =''"]
    by (simp add: DumpTB_def Let_def TB_HEADER_SIZE_def emit_def nothing_def)
qed

text \<open>What \<open>InitMini\<close> leaves in the transfer buffer pointer.\<close>

definition tb_ok :: "kenv \<Rightarrow> mini \<Rightarrow> bool" where
  "tb_ok K m \<longleftrightarrow>
     (case mini_tb m of None \<Rightarrow> mini_len K m = 0 | Some bs \<Rightarrow> length bs = unat (mini_len K m))"

lemma DumpTB_ok:
  assumes "tb_ok K m" "length h \<le> 57"
  shows "\<not> isl (DumpTB K d h m)"
proof (cases "mini_tb m")
  case None
  then have "tb_len K d m = 0" using assms(1) tb_len_le[of K d m] by (simp add: tb_ok_def unat_eq_0)
  then show ?thesis by (simp add: DumpTB_def)
next
  case (Some bs)
  then show ?thesis using assms DumpTB_text[of m bs K h d] by (simp add: tb_ok_def)
qed

definition setup_ok :: "kenv \<Rightarrow> mini \<Rightarrow> bool" where
  "setup_ok K m \<longleftrightarrow>
     within K (length (mini_setup m)) [DR_requesttype, DR_request, DR_value, DR_index, DR_length]"

lemma setup_field:
  "setup_ok K m \<Longrightarrow> f \<in> {DR_requesttype, DR_request, DR_value, DR_index, DR_length} \<Longrightarrow> \<not> isl (sp_field K m f)"
  unfolding sp_field_def setup_ok_def by (rule within_ok) auto

lemma read_sp_ok: "setup_ok K m \<Longrightarrow> \<not> isl (read_sp K m)"
  using setup_field[of K m] by (simp add: read_sp_def)

lemma DumpSP_ok: "setup_ok K m \<Longrightarrow> \<not> isl (DumpSPBytes K h m) \<and> \<not> isl (DumpSPSettings K h m)"
  by (simp add: DumpSPBytes_def DumpSPSettings_def read_sp_ok)

lemma projr_not_isl: "\<not> isl x \<Longrightarrow> \<exists>r. x = Inr r"
  by (cases x) auto

text \<open>Up to the descriptors nothing fails.\<close>

lemma DumpUrb_front:
  assumes "tb_ok K m" "setup_ok K m" "length h \<le> 57"
  obtains r where "DumpUrb K d h m = map_option (dseq (Inr r)) (DumpStdDescriptors K h m)"
proof -
  have "\<not> isl (dcat [emit (urb_line K h m),
      if usb_pipetype K (mini_pipe m) = macro K PIPE_CONTROL
      then dcat [DumpSPBytes K h m, DumpSPSettings K h m] else nothing, DumpTB K d h m])"
    using DumpTB_ok[OF assms(1,3)] DumpSP_ok[OF assms(2)] by simp
  with projr_not_isl that show thesis unfolding DumpUrb_def by fastforce
qed

lemma DumpUrbToPrintk_returns:
  assumes tb: "tb_ok K m" and sp: "setup_ok K m" and h: "length (KERN_DEBUG_str K) \<le> 45"
    and std: "TestForStdDescriptor K m = Inr False"
  obtains r where "DumpUrbToPrintk K kmalloc_ok d m n = Some (Inr r)"
proof -
  let ?h = "KERN_DEBUG_str K @ ''side_dumper|''"
  have "length ?h \<le> 57" using h by simp
  then obtain r where "DumpUrb K d ?h m = map_option (dseq (Inr r)) (DumpStdDescriptors K ?h m)"
    using DumpUrb_front[OF tb sp] by blast
  then have "DumpUrb K d ?h m = Some (Inr r)" using std by (simp add: DumpStdDescriptors_def)
  then have "\<exists>r. DumpUrbToPrintk K kmalloc_ok d m n = Some (Inr r)"
    by (cases r) (simp add: DumpUrbToPrintk_def Let_def split: prod.splits)
  with that show thesis by blast
qed

text \<open>An URB that carries no standard descriptor is always dumped: for a mini URB as
  \<open>InitMini\<close> makes it, \<open>DumpUrbToPrintk\<close> returns and no read leaves a block or follows \<open>NULL\<close>.\<close>

theorem DumpUrbToPrintk_no_error:
  assumes tb: "tb_ok K m" and sp: "setup_ok K m" and h: "length (KERN_DEBUG_str K) \<le> 45"
    and std: "TestForStdDescriptor K m = Inr False"
  shows "\<exists>r. DumpUrbToPrintk K kmalloc_ok d m n = Some (Inr r)"
  using DumpUrbToPrintk_returns[OF assms] by blast

definition bulk_mini :: mini where
  "bulk_mini = \<lparr>mini_number = 1, mini_devnum = 3, mini_pipe = 0xC0000300, mini_tb_length = 2,
     mini_actual = 0, mini_setup = replicate 8 0, mini_tb = Some [1, 2]\<rparr>"

lemma bulk_mini_ok: "tb_ok linux_env bulk_mini" "setup_ok linux_env bulk_mini"
  "usb_pipetype linux_env (mini_pipe bulk_mini) = 3"
  by (simp_all add: tb_ok_def setup_ok_def within_def mini_len_def bulk_mini_def)

theorem DumpUrbToPrintk_no_error_witness:
  "\<exists>r. DumpUrbToPrintk linux_env True default_settings bulk_mini 0 = Some (Inr r)"
proof (rule DumpUrbToPrintk_no_error[OF bulk_mini_ok(1,2)])
  show "TestForStdDescriptor linux_env bulk_mini = Inr False"
    using bulk_mini_ok(3) by (simp add: TestForStdDescriptor_def)
qed simp

text \<open>A standard \<open>GET_DESCRIPTOR\<close> request that carries no data (a stalled or empty answer, for
  which \<open>InitMini\<close> sets the buffer to \<open>NULL\<close>) makes the dump read through \<open>NULL\<close>:
  \<open>DumpStdDescriptors\<close> looks at the descriptor type before it looks at the length.\<close>

theorem DumpUrbToPrintk_null_deref:
  assumes sp: "setup_ok K m" and h: "length (KERN_DEBUG_str K) \<le> 45"
    and std: "TestForStdDescriptor K m = Inr True" and tb: "mini_tb m = None" "mini_len K m = 0"
  shows "DumpUrbToPrintk K True d m n = Some (Inl Null_deref)"
proof -
  let ?h = "KERN_DEBUG_str K @ ''side_dumper|''"
  have "tb_ok K m" using tb by (simp add: tb_ok_def)
  moreover have "length ?h \<le> 57" using h by simp
  ultimately obtain r where "DumpUrb K d ?h m = map_option (dseq (Inr r)) (DumpStdDescriptors K ?h m)"
    using DumpUrb_front[OF _ sp] by blast
  moreover have "DumpStdDescriptors K ?h m = Some (Inl Null_deref)"
    using std tb by (simp add: DumpStdDescriptors_def copied_def field_def Let_def)
  ultimately show ?thesis by (simp add: DumpUrbToPrintk_def)
qed

definition stalled_mini :: mini where
  "stalled_mini = \<lparr>mini_number = 1, mini_devnum = 3, mini_pipe = 0x80000380, mini_tb_length = 18,
     mini_actual = 0, mini_setup = [0x80, 6, 0, 1, 0, 0, 18, 0], mini_tb = None\<rparr>"

theorem DumpUrbToPrintk_null_deref_witness:
  "DumpUrbToPrintk linux_env True default_settings stalled_mini 0 = Some (Inl Null_deref)"
proof (rule DumpUrbToPrintk_null_deref)
  show "TestForStdDescriptor linux_env stalled_mini = Inr True"
    by (simp add: TestForStdDescriptor_def sp_field_def field_linux le_val_def stalled_mini_def)
qed (simp_all add: setup_ok_def within_def stalled_mini_def mini_len_def)

text \<open>The texts that are used as a format.\<close>

fun fmt_chunks :: "out_event list \<Rightarrow> string list" where
  "fmt_chunks [] = []"
| "fmt_chunks (Out (Printk_fmt t) # es) = t # fmt_chunks es"
| "fmt_chunks (_ # es) = fmt_chunks es"

lemma fmt_chunks_append [simp]: "fmt_chunks (es @ fs) = fmt_chunks es @ fmt_chunks fs"
  by (induction es rule: fmt_chunks.induct) simp_all

section \<open>The 16K buffer\<close>

lemma DumpUrb_data:
  assumes pipe: "usb_pipetype K (mini_pipe m) \<noteq> macro K PIPE_CONTROL"
    and tb: "mini_tb m = Some bs" "unat (mini_len K m) \<le> length bs" and h: "length h \<le> 57"
  shows "DumpUrb K d h m =
    Some (Inr (urb_line K h m @ raw_text (h @ ''  tb ='') (take (unat (tb_len K d m)) bs), []))"
proof -
  have "DumpStdDescriptors K h m = Some nothing"
    using pipe by (simp add: DumpStdDescriptors_def TestForStdDescriptor_def)
  then show ?thesis
    using pipe DumpTB_text[OF tb h, of d] by (simp add: DumpUrb_def emit_def nothing_def)
qed

lemma DumpUrbToPrintk_eq:
  assumes "DumpUrb K d (KERN_DEBUG_str K @ ''side_dumper|'') m = Some (Inr (t, l))"
  obtains w where "DumpUrbToPrintk K True d m n = Some (Inr
      \<lparr>events = map Out (l @ w) @ fst (chunk_loop (oAsync d \<noteq> 0) n (take (uStrLen - 1) t)),
       bytes_out = snd (chunk_loop (oAsync d \<noteq> 0) n (take (uStrLen - 1) t)),
       overrun = Suc (length t) - uStrLen\<rparr>)" "fmt_chunks (map Out w) = []"
proof (cases "uStrLen \<le> length t")
  case True
  then show thesis
    using assms by (intro that[of "[Printk KERN_ERR ''DumpUrbToPrintk: Warning - buffer overrun.'']"])
      (simp_all add: DumpUrbToPrintk_def Let_def split_beta)
next
  case False
  then have "take (uStrLen - 1) t = t" by simp
  with False show thesis
    using assms by (intro that[of "[]"]) (simp_all add: DumpUrbToPrintk_def Let_def split_beta)
qed

text \<open>C40. The dump of a data transfer is written into a 16K block without a bound. \<open>k\<close> bytes of
  a bulk, interrupt or isochronous transfer (after the limit of the device, by default none) give
  a text of known length: with 5300 bytes or more it is written over the end of the block, which
  the code reports only afterwards; a limit of 4096 bytes is enough to stay inside. (Control transfers
  are not covered: the decoded descriptors of a configuration make their text longer.)\<close>

theorem DumpUrbToPrintk_overrun:
  assumes pipe: "usb_pipetype K (mini_pipe m) \<noteq> macro K PIPE_CONTROL"
    and tb: "mini_tb m = Some bs" "unat (mini_len K m) \<le> length bs"
    and h: "length (KERN_DEBUG_str K) \<le> 8" and k_def: "k = unat (tb_len K d m)"
  shows "\<exists>r. DumpUrbToPrintk K True d m n = Some (Inr r) \<and>
    overrun r = length (urb_line K (KERN_DEBUG_str K @ ''side_dumper|'') m) +
      (k + 255) div 256 * (length (KERN_DEBUG_str K) + 23) + 3 * k + 1 - uStrLen \<and>
    (5300 \<le> k \<longrightarrow> 0 < overrun r) \<and> (k \<le> 4096 \<longrightarrow> overrun r = 0)"
proof -
  let ?h = "KERN_DEBUG_str K @ ''side_dumper|''" and ?L = "length (KERN_DEBUG_str K)"
  let ?t = "urb_line K ?h m @ raw_text (?h @ ''  tb ='') (take k bs)"
  have "k \<le> length bs" using tb_len_le[of K d m] tb(2) by (simp add: k_def)
  then have len: "length ?t = length (urb_line K ?h m) + (k + 255) div 256 * (?L + 23) + 3 * k"
    by (simp add: raw_text_length min_def)
  have "length ?h \<le> 57" using h by simp
  then have "DumpUrb K d ?h m = Some (Inr (?t, []))"
    unfolding k_def by (rule DumpUrb_data[OF pipe tb])
  then obtain r where r: "DumpUrbToPrintk K True d m n = Some (Inr r)" "overrun r = Suc (length ?t) - uStrLen"
    by (rule DumpUrbToPrintk_eq[where n = n]) simp
  have "0 < overrun r" if "5300 \<le> k"
  proof -
    have "21 \<le> (k + 255) div 256" using that by simp
    then have "21 * 23 \<le> (k + 255) div 256 * (?L + 23)" by (rule mult_le_mono) simp
    moreover have "1 \<le> length (urb_line K ?h m)" by (simp add: urb_line_def newline_def)
    ultimately have "uStrLen < Suc (length ?t)" unfolding len using that by (simp only: uStrLen_def)
    then show ?thesis using r(2) by simp
  qed
  moreover have "overrun r = 0" if "k \<le> 4096"
  proof -
    have "(k + 255) div 256 \<le> 16" using that by simp
    then have "(k + 255) div 256 * (?L + 23) \<le> 16 * 31" using h by (intro mult_le_mono) simp_all
    then show ?thesis using r(2) len that urb_line_length[of K ?h m] h by (simp add: uStrLen_def)
  qed
  ultimately show ?thesis using r len by auto
qed

definition big_mini :: mini where
  "big_mini = bulk_mini\<lparr>mini_tb_length := 5300, mini_tb := Some (replicate 5300 0)\<rparr>"

theorem DumpUrbToPrintk_overrun_witness:
  "\<exists>r. DumpUrbToPrintk linux_env True default_settings big_mini 0 = Some (Inr r) \<and> 0 < overrun r"
proof -
  have h: "usb_pipetype linux_env (mini_pipe big_mini) \<noteq> macro linux_env PIPE_CONTROL"
    "mini_tb big_mini = Some (replicate 5300 0)"
    "unat (mini_len linux_env big_mini) \<le> length (replicate 5300 (0 :: u8))"
    "length (KERN_DEBUG_str linux_env) \<le> 8" "unat (tb_len linux_env default_settings big_mini) = 5300"
    by (simp_all add: big_mini_def bulk_mini_def mini_len_def tb_len_def default_settings_def UINT_MAX_def
        unsigned_minus_1_eq_mask mask_eq_exp_minus_1)
  show ?thesis
    using DumpUrbToPrintk_overrun[OF h(1-4) refl, of default_settings 0] h(5) by auto
qed

section \<open>The lines in the log\<close>

lemma FindEol_le: "FindEol s \<le> length s"
  by (induction s) simp_all

lemma FindEol_char: "FindEol s < length s \<Longrightarrow> s ! FindEol s = CHR 0x00 \<or> s ! FindEol s = CHR 0x0A"
  by (induction s) auto

lemma FindEol_before: "c \<in> set (take (FindEol s) s) \<Longrightarrow> c \<noteq> CHR 0x0A"
  by (induction s) (auto split: if_splits)

definition text_chunks :: "string list \<Rightarrow> bool" where
  "text_chunks cs \<longleftrightarrow> cs \<noteq> [] \<and> CHR 0x0A \<notin> set (last cs) \<and>
     (\<forall>c \<in> set (butlast cs). c \<noteq> [] \<and> last c = CHR 0x0A \<and> CHR 0x0A \<notin> set (butlast c))"

lemma text_chunks_Cons:
  "text_chunks cs \<Longrightarrow> CHR 0x0A \<notin> set t \<Longrightarrow> text_chunks ((t @ [CHR 0x0A]) # cs)"
  by (auto simp: text_chunks_def)

lemma chunk_loop_lines:
  "CHR 0x00 \<notin> set s \<Longrightarrow>
   concat (fmt_chunks (fst (chunk_loop a n s))) = s \<and> text_chunks (fmt_chunks (fst (chunk_loop a n s))) \<and>
   (\<not> a \<longrightarrow> snd (chunk_loop a n s) = n) \<and> (n < 15 * 1024 \<longrightarrow> snd (chunk_loop a n s) < 15 * 1024)"
proof (induction "length s" arbitrary: n s rule: less_induct)
  case less
  let ?k = "FindEol s"
  show ?case
  proof (cases "length s \<le> ?k")
    case True
    then have "?k = length s" using FindEol_le[of s] by simp
    then show ?thesis
      using FindEol_before[of _ s] by (subst (1 2 3 4) chunk_loop.simps) (auto simp: text_chunks_def)
  next
    case False
    then have k: "?k < length s" by simp
    then have nz: "s ! ?k \<noteq> CHR 0x00" using less.prems nth_mem by metis
    then have nl: "s ! ?k = CHR 0x0A" using FindEol_char[OF k] by simp
    have split: "take (Suc ?k) s = take ?k s @ [CHR 0x0A]" using k nl by (simp add: take_Suc_conv_app_nth)
    have pre: "CHR 0x0A \<notin> set (take ?k s)" using FindEol_before by blast
    have rest: "CHR 0x00 \<notin> set (drop (Suc ?k) s)" using less.prems by (meson in_set_dropD)
    define n1 where "n1 = n + of_nat (Suc ?k)"
    define ev n2 where "ev = (if a then if n1 < 15 * 1024 then [Yield_to_main] else [Sleep_250ms] else [])"
      and "n2 = (if a then if n1 < 15 * 1024 then n1 else 0 else n)"
    have step: "chunk_loop a n s = (Out (Printk_fmt (take (Suc ?k) s)) # ev @
        fst (chunk_loop a n2 (drop (Suc ?k) s)), snd (chunk_loop a n2 (drop (Suc ?k) s)))"
      using k nz by (subst chunk_loop.simps) (simp add: Let_def ev_def n2_def n1_def split: prod.splits)
    have "concat (fmt_chunks (fst (chunk_loop a n2 (drop (Suc ?k) s)))) = drop (Suc ?k) s \<and>
        text_chunks (fmt_chunks (fst (chunk_loop a n2 (drop (Suc ?k) s)))) \<and>
        (\<not> a \<longrightarrow> snd (chunk_loop a n2 (drop (Suc ?k) s)) = n2) \<and>
        (n2 < 15 * 1024 \<longrightarrow> snd (chunk_loop a n2 (drop (Suc ?k) s)) < 15 * 1024)"
      using k by (intro less.hyps rest) simp
    moreover have "fmt_chunks ev = []" by (simp add: ev_def)
    moreover have "n2 < 15 * 1024" if "n < 15 * 1024" using that by (simp add: n2_def)
    moreover have "take ?k s @ CHR 0x0A # drop (Suc ?k) s = s"
      using id_take_nth_drop[OF k] nl by simp
    ultimately show ?thesis
      using text_chunks_Cons[OF _ pre] unfolding step split[symmetric]
      by (simp add: n2_def split)
  qed
qed

text \<open>What reaches the kernel log is the text (its first 16383 characters), one \<open>printk\<close> per
  line and each line used as a format; and with the worker thread the counter of written bytes
  stays below 15K: the thread sleeps whenever a line would take it there.\<close>

theorem DumpUrbToPrintk_lines:
  assumes dump: "DumpUrb K d (KERN_DEBUG_str K @ ''side_dumper|'') m = Some (Inr (t, l))"
    and nul: "CHR 0x00 \<notin> set t" and l: "fmt_chunks (map Out l) = []"
  shows "\<exists>r. DumpUrbToPrintk K True d m n = Some (Inr r) \<and>
    concat (fmt_chunks (events r)) = take (uStrLen - 1) t \<and> text_chunks (fmt_chunks (events r)) \<and>
    (n < 15 * 1024 \<longrightarrow> bytes_out r < 15 * 1024)"
proof -
  have "CHR 0x00 \<notin> set (take (uStrLen - 1) t)" using nul by (auto dest: in_set_takeD)
  note lines = chunk_loop_lines[OF this, of "oAsync d \<noteq> 0" n]
  show ?thesis
    by (rule DumpUrbToPrintk_eq[OF dump, where n = n]) (use lines l in simp)
qed

lemma replicate_000: "replicate 3 (CHR ''0'') = ''000''"
  by (simp add: numeral_3_eq_3)

lemma bulk_urb_line:
  "urb_line linux_env ''<7>side_dumper|'' bulk_mini =
     ''<7>side_dumper| urb_0001: device #3, bulk_0 >, 2 bytes.'' @ newline"
  by (simp add: urb_line_def bulk_mini_def mini_len_def PipeTypeStr_def fmt_0u_def fmt_u_def fmt_d_def
      fmt_nat_def zpad_def digits_base.simps digit_char_def char_of_def bit_iff_odd linux_env_def replicate_000)

lemma bulk_raw:
  "raw_text h [1, 2] = h @ '' [ 01 02 ]'' @ newline"
  by (simp add: raw_line_def hex_byte_def fmt_0x_def fmt_x_def zpad_def digits_base.simps
      digit_char_def char_of_def bit_iff_odd)

theorem DumpUrbToPrintk_lines_witness:
  "\<exists>r. DumpUrbToPrintk linux_env True default_settings bulk_mini 0 = Some (Inr r) \<and>
     concat (fmt_chunks (events r)) = ''<7>side_dumper| urb_0001: device #3, bulk_0 >, 2 bytes.'' @ newline @
       ''<7>side_dumper|  tb = [ 01 02 ]'' @ newline"
proof -
  let ?t = "''<7>side_dumper| urb_0001: device #3, bulk_0 >, 2 bytes.'' @ newline @
       ''<7>side_dumper|  tb = [ 01 02 ]'' @ newline"
  have "unat (tb_len linux_env default_settings bulk_mini) = 2"
    by (simp add: tb_len_def default_settings_def bulk_mini_def UINT_MAX_def unsigned_minus_1_eq_mask
        mask_eq_exp_minus_1)
  then have "DumpUrb linux_env default_settings (KERN_DEBUG_str linux_env @ ''side_dumper|'') bulk_mini =
      Some (Inr (?t, []))"
    using DumpUrb_data[of linux_env bulk_mini "[1, 2]" "''<7>side_dumper|''" default_settings]
      bulk_mini_ok(3) bulk_urb_line bulk_raw[of "''<7>side_dumper|  tb =''"]
    by (simp add: bulk_mini_def mini_len_def)
  from DumpUrbToPrintk_lines[OF this, of 0] show ?thesis
    by (simp add: newline_def uStrLen_def) blast
qed

end
