(* ===== verification/Machine.thy ===== *)
theory Machine
  imports Main
begin

text \<open>
  Two contracts for components that are state machines. \<open>reach\<close> are the states a step relation
  reaches from an initial one. A machine with an invariant (\<open>safe_machine\<close>) satisfies it in
  every reachable state; a machine whose steps carry labels refines a deterministic abstract one
  (\<open>trace_refinement\<close>): the abstract machine accepts every sequence of labels a run shows, and
  ends in the abstraction of the state the run ends in.
\<close>

inductive reach :: "('s \<Rightarrow> 's \<Rightarrow> bool) \<Rightarrow> ('s \<Rightarrow> bool) \<Rightarrow> 's \<Rightarrow> bool" for step init where
  start: "init s \<Longrightarrow> reach step init s"
| next_step: "reach step init s \<Longrightarrow> step s t \<Longrightarrow> reach step init t"

lemma reach_mono: "reach step init s \<Longrightarrow> (\<And>s. init s \<Longrightarrow> init' s) \<Longrightarrow> reach step init' s"
  by (induction rule: reach.induct) (auto intro: reach.intros)

locale safe_machine =
  fixes step :: "'s \<Rightarrow> 's \<Rightarrow> bool" and init :: "'s \<Rightarrow> bool" and inv :: "'s \<Rightarrow> bool"
  assumes init_inv: "init s \<Longrightarrow> inv s"
    and step_inv: "inv s \<Longrightarrow> step s t \<Longrightarrow> inv t"
begin

lemma reach_inv: "reach step init s \<Longrightarrow> inv s"
  by (induction rule: reach.induct) (auto intro: init_inv step_inv)

end

text \<open>The sequences of labels a labelled step relation can show on its way to a state; a step
  may show several labels or none.\<close>

inductive run :: "('s \<Rightarrow> 'l list \<Rightarrow> 's \<Rightarrow> bool) \<Rightarrow> ('s \<Rightarrow> bool) \<Rightarrow> 'l list \<Rightarrow> 's \<Rightarrow> bool"
  for lstep init where
  run_start: "init s \<Longrightarrow> run lstep init [] s"
| run_step: "run lstep init ls s \<Longrightarrow> lstep s l t \<Longrightarrow> run lstep init (ls @ l) t"

text \<open>An abstract machine that is deterministic: it accepts a sequence of labels, and is then in a
  known state, or refuses it.\<close>

primrec accepts :: "('a \<Rightarrow> 'l \<Rightarrow> 'a option) \<Rightarrow> 'l list \<Rightarrow> 'a \<Rightarrow> 'a option" where
  "accepts anext [] a = Some a"
| "accepts anext (l # ls) a = (case anext a l of None \<Rightarrow> None | Some b \<Rightarrow> accepts anext ls b)"

lemma accepts_append:
  "accepts anext (ls @ ms) a = Option.bind (accepts anext ls a) (accepts anext ms)"
  by (induction ls arbitrary: a) (auto split: option.splits)

locale trace_refinement =
  fixes lstep :: "'s \<Rightarrow> 'l list \<Rightarrow> 's \<Rightarrow> bool" and init :: "'s \<Rightarrow> bool" and inv :: "'s \<Rightarrow> bool"
    and abs_of :: "'s \<Rightarrow> 'a" and anext :: "'a \<Rightarrow> 'l \<Rightarrow> 'a option" and ainit :: 'a
  assumes lab_init: "init s \<Longrightarrow> inv s"
    and lab_inv: "inv s \<Longrightarrow> lstep s l t \<Longrightarrow> inv t"
    and init_abs: "init s \<Longrightarrow> abs_of s = ainit"
    and step_abs: "inv s \<Longrightarrow> lstep s l t \<Longrightarrow> accepts anext l (abs_of s) = Some (abs_of t)"
begin

lemma run_inv: "run lstep init ls s \<Longrightarrow> inv s"
  by (induction rule: run.induct) (auto intro: lab_init lab_inv)

lemma run_accepted: "run lstep init ls s \<Longrightarrow> accepts anext ls ainit = Some (abs_of s)"
proof (induction rule: run.induct)
  case (run_step ls s l t)
  then show ?case using step_abs[OF run_inv[OF run_step.hyps(1)] run_step.hyps(2)]
    by (simp add: accepts_append)
qed (simp add: init_abs)

end

end
