(* ===== verification/Dumper_Queue.thy ===== *)
theory Dumper_Queue
  imports Dump_Urb Proc_Entries Machine
begin

text \<open>
  The dumper proper (\<open>side_dumper_core.c\<close>): the entry points \<open>SideDumper_OnSubmit\<close> and
  \<open>SideDumper_OnReturn\<close>, the copy of an URB (\<open>InitMini\<close>, \<open>ProcessMini\<close>,
  \<open>CleanMini\<close>), the work queue with its two semaphores, the worker thread, and installing and
  removing it.

  The threads run interleaved. \<open>QueueUrb\<close> is three steps (fill an item, put it on the list, raise
  \<open>semItemsQueued\<close>), so that several URBs can be on their way at once; the list itself is
  changed under \<open>semListAccess\<close>, so each access is one step. The worker's loop body is three
  steps: the \<open>down\<close>, taking an item, processing it. \<open>RemoveDumper\<close> is two: up to its wait
  for \<open>semExitSignal\<close>, and what follows it.
\<close>

section \<open>State\<close>

text \<open>A \<open>TWorkItem\<close>: the block it lies in, its \<open>Mini\<close>, and the block of the copied transfer
  buffer. Blocks of \<open>kmalloc\<close> are numbered; \<open>kheap\<close> are those allocated and not freed.\<close>

record item =
  it_block :: nat
  it_mini :: mini
  it_tb :: "nat option"

datatype worker =
    W_none | W_wait | W_take | W_busy item | W_crash item dump_err | W_exited

datatype remover = R_idle | R_wait_exit | R_done

record dumper = settings_state +
  uUrbNumGenerator :: u32
  pid :: u32
  oContinue :: bool
  semExitSignal :: nat
  queue_list :: "item list"
  semItemsQueued :: nat
  uBytesOut :: u32
  kheap :: "nat set"
  kfresh :: nat
  procfs :: procfs_inst

text \<open>The threads, and three histories that no code reads: the items put on the list, the items
  processed and the items removed unprocessed.\<close>

record sys = dumper +
  thread :: worker
  remover :: remover
  filled :: "item list"
  unsignalled :: nat
  h_added :: "item list"
  h_done :: "item list"
  h_dropped :: "item list"

definition dumper_boot :: sys where
  "dumper_boot = \<lparr>aDevSettings = replicate N_DEVICES default_settings, klog = [],
     uUrbNumGenerator = 0, pid = 0, oContinue = False, semExitSignal = 0, queue_list = [],
     semItemsQueued = 0, uBytesOut = 0, kheap = {}, kfresh = 0, procfs = procfs_init,
     thread = W_none, remover = R_idle, filled = [], unsignalled = 0, h_added = [], h_done = [],
     h_dropped = []\<rparr>"

section \<open>Copying an URB\<close>

text \<open>What the kernel answers while one URB is handled: whether the \<open>kmalloc\<close>s of the item, the
  transfer buffer and the text succeed, the memory, and the stale bytes in the item.\<close>

record answers =
  ok_item :: bool
  ok_tb :: bool
  ok_text :: bool
  mem_now :: memory
  stale_setup :: "u8 list"

definition kmalloc :: "bool \<Rightarrow> 'a dumper_scheme \<Rightarrow> nat option \<times> 'a dumper_scheme" where
  "kmalloc ok s =
     (if ok then (Some (kfresh s), s\<lparr>kheap := insert (kfresh s) (kheap s), kfresh := Suc (kfresh s)\<rparr>)
      else (None, s))"

definition kfree :: "nat \<Rightarrow> 'a dumper_scheme \<Rightarrow> 'a dumper_scheme" where
  "kfree b s = s\<lparr>kheap := kheap s - {b}\<rparr>"

text \<open>\<open>uTbBytes\<close> of \<open>InitMini\<close>.\<close>

definition uTbBytes :: "kenv \<Rightarrow> urb \<Rightarrow> u32" where
  "uTbBytes K u = (if usb_pipeout K (urb_pipe u) \<noteq> 0 then urb_transfer_buffer_length u
     else urb_actual_length u)"

definition InitMini ::
  "kenv \<Rightarrow> answers \<Rightarrow> urb \<Rightarrow> 'a dumper_scheme \<Rightarrow> dump_err + (mini \<times> nat option \<times> 'a dumper_scheme)" where
  "InitMini K a u s =
     (case urb_dev u of
        None \<Rightarrow> Inl Null_deref
      | Some d \<Rightarrow>
          let s1 = s\<lparr>uUrbNumGenerator := uUrbNumGenerator s + 1\<rparr>;
              m = \<lparr>mini_number = uUrbNumGenerator s, mini_devnum = devnum d, mini_pipe = urb_pipe u,
                   mini_tb_length = urb_transfer_buffer_length u, mini_actual = urb_actual_length u,
                   mini_setup = (if urb_setup_packet u \<noteq> 0
                                 then bytes_at (mem_now a) (urb_setup_packet u) 8 else stale_setup a),
                   mini_tb = None\<rparr> in
          if uTbBytes K u \<noteq> 0 \<and> urb_transfer_buffer u \<noteq> 0
          then (case kmalloc (ok_tb a) s1 of
                  (None, _) \<Rightarrow> Inl Null_deref
                | (Some b, s2) \<Rightarrow>
                    Inr (m\<lparr>mini_tb := Some (bytes_at (mem_now a) (urb_transfer_buffer u)
                           (unat (uTbBytes K u)))\<rparr>, Some b, s2))
          else Inr (m, None, s1))"

definition CleanMini :: "nat option \<Rightarrow> 'a dumper_scheme \<Rightarrow> 'a dumper_scheme" where
  "CleanMini b s = (case b of None \<Rightarrow> s | Some k \<Rightarrow> kfree k s)"

section \<open>Processing\<close>

fun out_msgs :: "out_event list \<Rightarrow> kmsg list" where
  "out_msgs [] = []"
| "out_msgs (Out m # es) = m # out_msgs es"
| "out_msgs (Yield_to_main # es) = out_msgs es"
| "out_msgs (Sleep_250ms # es) = out_msgs es"

text \<open>The call through \<open>pfnDumper\<close>. The result is \<open>None\<close> where the dumper never returns.\<close>

definition call_dumper ::
  "dumper_fn \<Rightarrow> kenv \<Rightarrow> bool \<Rightarrow> settings \<Rightarrow> mini \<Rightarrow> 'a dumper_scheme \<Rightarrow>
   (dump_err + 'a dumper_scheme) option" where
  "call_dumper f K ok d m s =
     (case f of Fn_DumpUrbToPrintk \<Rightarrow>
        (case DumpUrbToPrintk K ok d m (uBytesOut s) of
           None \<Rightarrow> None
         | Some (Inl e) \<Rightarrow> Some (Inl e)
         | Some (Inr r) \<Rightarrow>
             Some (Inr (s\<lparr>klog := klog s @ out_msgs (events r), uBytesOut := bytes_out r\<rparr>))))"

definition ProcessMini ::
  "kenv \<Rightarrow> bool \<Rightarrow> mini \<Rightarrow> 'a dumper_scheme \<Rightarrow> (dump_err + 'a dumper_scheme) option" where
  "ProcessMini K ok m s =
     (let d = aDevSettings s ! unat (mini_devnum m) in
      if oEnabled d \<noteq> 0
      then (case pfnDumper d of None \<Rightarrow> Some (Inr s) | Some f \<Rightarrow> call_dumper f K ok d m s)
      else Some (Inr s))"

definition ProcessUrb ::
  "kenv \<Rightarrow> answers \<Rightarrow> urb \<Rightarrow> 'a dumper_scheme \<Rightarrow> (dump_err + 'a dumper_scheme) option" where
  "ProcessUrb K a u s =
     (case InitMini K a u s of
        Inl e \<Rightarrow> Some (Inl e)
      | Inr (m, b, s1) \<Rightarrow>
          (case ProcessMini K (ok_text a) m s1 of
             None \<Rightarrow> None
           | Some (Inl e) \<Rightarrow> Some (Inl e)
           | Some (Inr s2) \<Rightarrow> Some (Inr (CleanMini b s2))))"

section \<open>Queueing\<close>

definition queue_msg :: "kenv \<Rightarrow> mini \<Rightarrow> kmsg" where
  "queue_msg K m = Printk KERN_DEBUG (''side_dumper: *queue urb_'' @ fmt_0u 4 (mini_number m) @ '' '' @
     (if usb_pipeout K (mini_pipe m) \<noteq> 0 then ''>'' else ''<''))"

text \<open>\<open>QueueUrb\<close> up to the list: the item, or \<open>None\<close> when there was no memory for it.\<close>

definition QueueUrb_fill ::
  "kenv \<Rightarrow> answers \<Rightarrow> urb \<Rightarrow> 'a dumper_scheme \<Rightarrow> dump_err + (item option \<times> 'a dumper_scheme)" where
  "QueueUrb_fill K a u s =
     (case kmalloc (ok_item a) s of
        (None, _) \<Rightarrow> Inr (None, log_msg (Printk KERN_ERR ''QueueUrb: out of memory.'') s)
      | (Some b, s1) \<Rightarrow>
          (case InitMini K a u s1 of
             Inl e \<Rightarrow> Inl e
           | Inr (m, tb, s2) \<Rightarrow>
               Inr (Some \<lparr>it_block = b, it_mini = m, it_tb = tb\<rparr>, log_msg (queue_msg K m) s2)))"

definition QueueUrb_add :: "item \<Rightarrow> 'a dumper_scheme \<Rightarrow> 'a dumper_scheme" where
  "QueueUrb_add it s = s\<lparr>queue_list := queue_list s @ [it]\<rparr>"

definition QueueUrb_signal :: "'a dumper_scheme \<Rightarrow> 'a dumper_scheme" where
  "QueueUrb_signal s = s\<lparr>semItemsQueued := Suc (semItemsQueued s)\<rparr>"

text \<open>The whole of it, when nothing interrupts it.\<close>

definition QueueUrb ::
  "kenv \<Rightarrow> answers \<Rightarrow> urb \<Rightarrow> 'a dumper_scheme \<Rightarrow> dump_err + 'a dumper_scheme" where
  "QueueUrb K a u s =
     (case QueueUrb_fill K a u s of
        Inl e \<Rightarrow> Inl e
      | Inr (None, s1) \<Rightarrow> Inr s1
      | Inr (Some it, s1) \<Rightarrow> Inr (QueueUrb_signal (QueueUrb_add it s1)))"

section \<open>The entry points\<close>

text \<open>Which of its three ways an entry point takes for an URB.\<close>

datatype way = Ignored | Queued | Direct

definition watched :: "urb \<Rightarrow> 'a settings_state_scheme \<Rightarrow> settings option" where
  "watched u s =
     (case urb_dev u of
        None \<Rightarrow> None
      | Some d \<Rightarrow>
          if dev_bus d \<and> unat (devnum d) < N_DEVICES \<and> oEnabled (aDevSettings s ! unat (devnum d)) \<noteq> 0
          then Some (aDevSettings s ! unat (devnum d)) else None)"

definition OnSubmit_way :: "kenv \<Rightarrow> urb \<Rightarrow> 'a settings_state_scheme \<Rightarrow> way" where
  "OnSubmit_way K u s =
     (case watched u s of
        None \<Rightarrow> Ignored
      | Some d \<Rightarrow> if usb_pipeout K (urb_pipe u) \<noteq> 0 then (if oAsync d \<noteq> 0 then Queued else Direct)
                  else Ignored)"

definition OnReturn_way :: "kenv \<Rightarrow> urb \<Rightarrow> 'a settings_state_scheme \<Rightarrow> way" where
  "OnReturn_way K u s =
     (case watched u s of
        None \<Rightarrow> Ignored
      | Some d \<Rightarrow> if usb_pipein K (urb_pipe u) \<noteq> 0 then (if oAsync d \<noteq> 0 then Queued else Direct)
                  else Ignored)"

fun take_way ::
  "way \<Rightarrow> kenv \<Rightarrow> answers \<Rightarrow> urb \<Rightarrow> 'a dumper_scheme \<Rightarrow> (dump_err + 'a dumper_scheme) option" where
  "take_way Ignored K a u s = Some (Inr s)"
| "take_way Queued K a u s = Some (QueueUrb K a u s)"
| "take_way Direct K a u s = ProcessUrb K a u s"

definition SideDumper_OnSubmit ::
  "kenv \<Rightarrow> answers \<Rightarrow> urb \<Rightarrow> 'a dumper_scheme \<Rightarrow> (dump_err + 'a dumper_scheme) option" where
  "SideDumper_OnSubmit K a u s = take_way (OnSubmit_way K u s) K a u s"

definition SideDumper_OnReturn ::
  "kenv \<Rightarrow> answers \<Rightarrow> urb \<Rightarrow> 'a dumper_scheme \<Rightarrow> (dump_err + 'a dumper_scheme) option" where
  "SideDumper_OnReturn K a u s = take_way (OnReturn_way K u s) K a u s"

section \<open>The worker thread\<close>

text \<open>One step of \<open>WorkerThreadEntry\<close>; \<open>None\<close> where it waits, has ended, or hangs in the
  dump of an item.\<close>

definition worker_step :: "kenv \<Rightarrow> bool \<Rightarrow> sys \<Rightarrow> sys option" where
  "worker_step K ok s =
     (case thread s of
        W_wait \<Rightarrow>
          if semItemsQueued s = 0 then None
          else let s1 = s\<lparr>semItemsQueued := semItemsQueued s - 1\<rparr> in
            if \<not> oContinue s
            then Some (log_msg (Printk KERN_DEBUG ''WorkerThreadEntry: exit.'')
                   (s1\<lparr>semExitSignal := Suc (semExitSignal s), thread := W_exited\<rparr>))
            else Some (s1\<lparr>thread := W_take\<rparr>)
      | W_take \<Rightarrow>
          (case queue_list s of
             [] \<Rightarrow> Some (log_msg (Printk KERN_ERR ''WorkerThreadEntry: list empty.'')
                     (s\<lparr>thread := W_wait\<rparr>))
           | it # q \<Rightarrow> Some (s\<lparr>queue_list := q, thread := W_busy it\<rparr>))
      | W_busy it \<Rightarrow>
          (case ProcessMini K ok (it_mini it) s of
             None \<Rightarrow> None
           | Some (Inl e) \<Rightarrow> Some (s\<lparr>thread := W_crash it e\<rparr>)
           | Some (Inr s1) \<Rightarrow>
               Some ((kfree (it_block it) (CleanMini (it_tb it) s1))
                 \<lparr>thread := W_wait, h_done := h_done s @ [it]\<rparr>))
      | _ \<Rightarrow> None)"

section \<open>Installing and removing\<close>

text \<open>\<open>kt\<close> is the return value of \<open>kernel_thread\<close>, \<open>ans\<close> the proc file system's answers.\<close>

definition SideDumper_InstallDumper :: "u32 \<Rightarrow> (string \<Rightarrow> pde \<Rightarrow> bool) \<Rightarrow> sys \<Rightarrow> sys" where
  "SideDumper_InstallDumper kt ans s0 =
     (let s1 = s0\<lparr>uUrbNumGenerator := 1, queue_list := [], semItemsQueued := 0\<rparr> in
      if pid s1 \<noteq> 0 then log_msg (Printk KERN_ERR ''SideDumper_InstallDumper: called twice.'') s1
      else let s2 = s1\<lparr>oContinue := True, semExitSignal := 0, pid := kt\<rparr> in
      if sint kt < 0
      then log_msg (Printk KERN_ERR (''SideDumper_InstallDumper: kernel_thread() failed: '' @ fmt_u kt @ ''.''))
             (s2\<lparr>pid := 0\<rparr>)
      else s2\<lparr>thread := W_wait, procfs := snd (InstallProcFs ans (settings_state.truncate s2) (procfs s2))\<rparr>)"

definition RemoveDumper_stop :: "sys \<Rightarrow> sys" where
  "RemoveDumper_stop s = (log_msg (Printk KERN_ERR ''SideDumper_RemoveDumper.'') s)
     \<lparr>oContinue := False, semItemsQueued := Suc (semItemsQueued s), remover := R_wait_exit\<rparr>"

fun drop_items :: "item list \<Rightarrow> 'a dumper_scheme \<Rightarrow> 'a dumper_scheme" where
  "drop_items [] s = s"
| "drop_items (it # q) s = drop_items q (kfree (it_block it) (s\<lparr>queue_list := q\<rparr>))"

text \<open>After the wait; \<open>None\<close> while \<open>semExitSignal\<close> is down.\<close>

definition RemoveDumper_finish :: "sys \<Rightarrow> sys option" where
  "RemoveDumper_finish s =
     (if semExitSignal s = 0 then None
      else let s1 = drop_items (queue_list s) (s\<lparr>semExitSignal := semExitSignal s - 1\<rparr>) in
        Some (s1\<lparr>procfs := RemoveProcFs (settings_state.truncate s1) (procfs s1),
          remover := R_done, h_dropped := h_dropped s @ queue_list s\<rparr>))"

section \<open>The machine\<close>

text \<open>What the rest of the kernel may do to the settings between two steps.\<close>

inductive settings_call :: "'a settings_state_scheme \<Rightarrow> 'a settings_state_scheme \<Rightarrow> bool" where
  enable: "settings_call s (SideDumper_Enable u s)"
| disable: "settings_call s (SideDumper_Disable u s)"
| set_device: "settings_call s (SideDumper_SetDeviceSettings u p s)"

text \<open>One step of one thread. An entry point is called with an URB and takes the way \<open>w\<close>.\<close>

inductive dstep :: "kenv \<Rightarrow> sys \<Rightarrow> sys \<Rightarrow> bool" for K where
  fill: "w \<in> {OnSubmit_way K u s, OnReturn_way K u s} \<Longrightarrow> w = Queued \<Longrightarrow> length (stale_setup a) = 8 \<Longrightarrow>
    QueueUrb_fill K a u s = Inr (Some it, s') \<Longrightarrow> dstep K s (s'\<lparr>filled := filled s @ [it]\<rparr>)"
| no_item: "QueueUrb_fill K a u s = Inr (None, s') \<Longrightarrow> dstep K s s'"
| add: "filled s = f1 @ it # f2 \<Longrightarrow>
    dstep K s ((QueueUrb_add it s)\<lparr>filled := f1 @ f2, unsignalled := Suc (unsignalled s),
      h_added := h_added s @ [it]\<rparr>)"
| signal: "unsignalled s = Suc n \<Longrightarrow> dstep K s ((QueueUrb_signal s)\<lparr>unsignalled := n\<rparr>)"
| direct: "w \<in> {OnSubmit_way K u s, OnReturn_way K u s} \<Longrightarrow> w = Direct \<Longrightarrow>
    ProcessUrb K a u s = Some (Inr s') \<Longrightarrow> dstep K s s'"
| settings: "settings_call s s' \<Longrightarrow> dstep K s s'"
| worker: "worker_step K ok s = Some s' \<Longrightarrow> dstep K s s'"
| stop: "remover s = R_idle \<Longrightarrow> dstep K s (RemoveDumper_stop s)"
| finish: "remover s = R_wait_exit \<Longrightarrow> RemoveDumper_finish s = Some s' \<Longrightarrow> dstep K s s'"

text \<open>The machine starts when \<open>SideDumper_InstallDumper\<close> has created the thread.\<close>

inductive installed :: "sys \<Rightarrow> bool" where
  "0 < sint kt \<Longrightarrow> installed (SideDumper_InstallDumper kt ans dumper_boot)"

section \<open>What the operations change\<close>

lemma log_msg_fields [simp]:
  "uUrbNumGenerator (log_msg m s) = uUrbNumGenerator (s :: 'a dumper_scheme)"
  "pid (log_msg m s) = pid s" "oContinue (log_msg m s) = oContinue s"
  "semExitSignal (log_msg m s) = semExitSignal s" "queue_list (log_msg m s) = queue_list s"
  "semItemsQueued (log_msg m s) = semItemsQueued s" "uBytesOut (log_msg m s) = uBytesOut s"
  "kheap (log_msg m s) = kheap s" "kfresh (log_msg m s) = kfresh s" "procfs (log_msg m s) = procfs s"
  by (simp_all add: log_msg_def)

lemma log_msg_sys [simp]:
  "thread (log_msg m s) = thread (s :: 'a sys_scheme)" "remover (log_msg m s) = remover s"
  "filled (log_msg m s) = filled s" "unsignalled (log_msg m s) = unsignalled s"
  "h_added (log_msg m s) = h_added s" "h_done (log_msg m s) = h_done s" "h_dropped (log_msg m s) = h_dropped s"
  by (simp_all add: log_msg_def)

lemma settings_call_keeps:
  assumes "settings_call s (t :: 'a dumper_scheme)"
  obtains d l where "t = s\<lparr>aDevSettings := d, klog := l\<rparr>" "length d = length (aDevSettings s)"
  using assms
  by cases (auto simp: SideDumper_Enable_def SideDumper_Disable_def SideDumper_SetDeviceSettings_def
      log_msg_def split: option.splits if_splits intro: that[where d = "aDevSettings s" and l = "klog s"])

lemma ProcessMini_keeps:
  assumes "ProcessMini K ok m s = Some (Inr t)"
  obtains l n where "t = s\<lparr>klog := l, uBytesOut := n\<rparr>"
proof -
  have "t = s \<or> (\<exists>l n. t = s\<lparr>klog := l, uBytesOut := n\<rparr>)"
    using assms by (auto simp: ProcessMini_def call_dumper_def Let_def
        split: if_splits option.splits dumper_fn.splits sum.splits)
  moreover have "s = s\<lparr>klog := klog s, uBytesOut := uBytesOut s\<rparr>" by simp
  ultimately show thesis using that by metis
qed

lemma InitMini_cases:
  assumes "InitMini K a u s = Inr (m, tb, t)"
  obtains (plain) d where "urb_dev u = Some d" "mini_devnum m = devnum d" "tb = None" "mini_tb m = None"
      "uTbBytes K u = 0 \<or> urb_transfer_buffer u = 0"
      "t = s\<lparr>uUrbNumGenerator := uUrbNumGenerator s + 1\<rparr>"
    | (copy) d where "urb_dev u = Some d" "mini_devnum m = devnum d" "tb = Some (kfresh s)"
      "mini_tb m = Some (bytes_at (mem_now a) (urb_transfer_buffer u) (unat (uTbBytes K u)))"
      "t = s\<lparr>uUrbNumGenerator := uUrbNumGenerator s + 1, kheap := insert (kfresh s) (kheap s),
         kfresh := Suc (kfresh s)\<rparr>"
  using assms by (auto simp: InitMini_def kmalloc_def Let_def split: option.splits if_splits)

lemma InitMini_mini:
  assumes "InitMini K a u s = Inr (m, tb, t)"
  shows "mini_number m = uUrbNumGenerator s \<and> mini_pipe m = urb_pipe u \<and>
    mini_tb_length m = urb_transfer_buffer_length u \<and> mini_actual m = urb_actual_length u \<and>
    mini_setup m = (if urb_setup_packet u \<noteq> 0 then bytes_at (mem_now a) (urb_setup_packet u) 8
                    else stale_setup a)"
  using assms by (auto simp: InitMini_def kmalloc_def Let_def split: option.splits if_splits)

lemma ProcessUrb_keeps:
  assumes "ProcessUrb K a u s = Some (Inr t)" "\<forall>b \<in> kheap s. b < kfresh s"
  obtains l n g k where "t = s\<lparr>klog := l, uBytesOut := n, uUrbNumGenerator := g, kfresh := k\<rparr>"
    "kfresh s \<le> k"
proof -
  from assms(1) obtain m tb s1 s2 where i: "InitMini K a u s = Inr (m, tb, s1)"
    and p: "ProcessMini K (ok_text a) m s1 = Some (Inr s2)" and t: "t = CleanMini tb s2"
    by (auto simp: ProcessUrb_def split: sum.splits option.splits prod.splits)
  from p obtain l n where s2: "s2 = s1\<lparr>klog := l, uBytesOut := n\<rparr>" by (rule ProcessMini_keeps)
  from i show thesis
  proof (cases rule: InitMini_cases)
    case plain
    then show ?thesis using s2 t that[where l = l and n = n and g = "uUrbNumGenerator s + 1" and k = "kfresh s"] by (simp add: CleanMini_def)
  next
    case copy
    moreover have "kfresh s \<notin> kheap s" using assms(2) by auto
    ultimately show ?thesis using s2 t that[where l = l and n = n and g = "uUrbNumGenerator s + 1" and k = "Suc (kfresh s)"]
      by (simp add: CleanMini_def kfree_def)
  qed
qed

text \<open>The blocks of an item.\<close>

definition tb_blocks :: "item \<Rightarrow> nat list" where
  "tb_blocks it = (case it_tb it of None \<Rightarrow> [] | Some b \<Rightarrow> [b])"

definition item_blocks :: "item \<Rightarrow> nat list" where
  "item_blocks it = it_block it # tb_blocks it"

lemma QueueUrb_fill_none:
  "QueueUrb_fill K a u s = Inr (None, t) \<Longrightarrow> t = log_msg (Printk KERN_ERR ''QueueUrb: out of memory.'') s"
  by (auto simp: QueueUrb_fill_def split: option.splits sum.splits prod.splits)

lemma QueueUrb_fill_some:
  assumes "QueueUrb_fill K a u s = Inr (Some it, t)" "length (stale_setup a) = 8"
  obtains d l g k where "urb_dev u = Some d" "mini_devnum (it_mini it) = devnum d"
    "length (mini_setup (it_mini it)) = 8"
    "mini_len K (it_mini it) = uTbBytes K u"
    "tb_ok K (it_mini it) \<or> urb_transfer_buffer u = 0"
    "t = s\<lparr>klog := l, uUrbNumGenerator := g, kheap := set (item_blocks it) \<union> kheap s, kfresh := k\<rparr>"
    "distinct (item_blocks it)" "\<forall>b \<in> set (item_blocks it). kfresh s \<le> b \<and> b < k" "kfresh s \<le> k"
proof -
  let ?s1 = "s\<lparr>kheap := insert (kfresh s) (kheap s), kfresh := Suc (kfresh s)\<rparr>"
  from assms(1) obtain m tb s2 where i: "InitMini K a u ?s1 = Inr (m, tb, s2)"
    and it: "it = \<lparr>it_block = kfresh s, it_mini = m, it_tb = tb\<rparr>" and t: "t = log_msg (queue_msg K m) s2"
    by (auto simp: QueueUrb_fill_def kmalloc_def split: option.splits sum.splits prod.splits if_splits)
  note m = InitMini_mini[OF i]
  then have len: "length (mini_setup m) = 8" "mini_len K m = uTbBytes K u"
    using assms(2) by (simp_all add: mini_len_def uTbBytes_def)
  from i show thesis
  proof (cases rule: InitMini_cases)
    case (plain d)
    with len that[where d = d and l = "klog s @ [queue_msg K m]" and g = "uUrbNumGenerator s + 1" and k = "Suc (kfresh s)"]
    show ?thesis by (auto simp: it t item_blocks_def tb_blocks_def log_msg_def tb_ok_def)
  next
    case (copy d)
    with len that[where d = d and l = "klog s @ [queue_msg K m]" and g = "uUrbNumGenerator s + 1" and k = "Suc (Suc (kfresh s))"]
    show ?thesis by (auto simp: it t item_blocks_def tb_blocks_def log_msg_def tb_ok_def insert_commute)
  qed
qed

lemma drop_items_effect:
  "drop_items q s = s\<lparr>queue_list := (if q = [] then queue_list s else []),
     kheap := kheap s - set (map it_block q)\<rparr>"
proof (induction q arbitrary: s)
  case (Cons it q)
  have "A - {b} - B = A - insert b B" for A B and b :: nat by blast
  then show ?case by (simp add: Cons.IH kfree_def)
qed simp

lemma RemoveDumper_finish_effect:
  assumes "RemoveDumper_finish s = Some t"
  obtains p where "semExitSignal s \<noteq> 0"
    "t = s\<lparr>semExitSignal := semExitSignal s - 1, queue_list := [],
       kheap := kheap s - set (map it_block (queue_list s)), procfs := p, remover := R_done,
       h_dropped := h_dropped s @ queue_list s\<rparr>"
proof -
  have e: "(if queue_list s = [] then queue_list s else []) = []" by simp
  from assms show thesis
    using that by (auto simp: RemoveDumper_finish_def drop_items_effect Let_def e split: if_splits)
qed

lemma watchedD: "OnSubmit_way K u s \<noteq> Ignored \<or> OnReturn_way K u s \<noteq> Ignored \<Longrightarrow>
    \<exists>d. urb_dev u = Some d \<and> unat (devnum d) < N_DEVICES"
  by (auto simp: OnSubmit_way_def OnReturn_way_def watched_def split: option.splits if_splits)

end
