(* ===== verification/Dumper_Safety.thy ===== *)
theory Dumper_Safety
  imports Dumper_Queue
begin

text \<open>
  The invariants of the dumper: the count of \<open>semItemsQueued\<close> against the list, the order of
  the items, the memory they occupy; the abstract queue it implements; and that the worker gets
  through its work.
\<close>

section \<open>Counting\<close>

fun in_hand :: "worker \<Rightarrow> item list" where
  "in_hand (W_busy it) = [it]"
| "in_hand (W_crash it e) = [it]"
| "in_hand _ = []"

text \<open>The \<open>up\<close> of \<open>RemoveDumper\<close> that the worker has not yet consumed.\<close>

definition extra :: "sys \<Rightarrow> nat" where
  "extra s = (if remover s = R_idle \<or> thread s = W_exited then 0 else 1)"

definition taking :: "sys \<Rightarrow> nat" where
  "taking s = (if thread s = W_take then 1 else 0)"

definition count_inv :: "sys \<Rightarrow> bool" where
  "count_inv s \<longleftrightarrow>
     semItemsQueued s + unsignalled s + taking s = length (queue_list s) + length (h_dropped s) + extra s \<and>
     extra s \<le> semItemsQueued s"

definition phase_inv :: "sys \<Rightarrow> bool" where
  "phase_inv s \<longleftrightarrow>
     pid s \<noteq> 0 \<and> oContinue s = (remover s = R_idle) \<and> thread s \<noteq> W_none \<and>
     (thread s = W_exited \<longrightarrow> remover s \<noteq> R_idle) \<and>
     (remover s = R_done \<longrightarrow> thread s = W_exited) \<and>
     (h_dropped s \<noteq> [] \<longrightarrow> remover s = R_done) \<and>
     semExitSignal s = (if thread s = W_exited \<and> remover s = R_wait_exit then 1 else 0)"

text \<open>What every item is.\<close>

definition item_ok :: "item \<Rightarrow> bool" where
  "item_ok it \<longleftrightarrow> unat (mini_devnum (it_mini it)) < N_DEVICES \<and> length (mini_setup (it_mini it)) = 8"

definition items_inv :: "sys \<Rightarrow> bool" where
  "items_inv s \<longleftrightarrow> settings_ok s \<and>
     (\<forall>it \<in> set (filled s @ in_hand (thread s) @ queue_list s). item_ok it)"

definition order_inv :: "sys \<Rightarrow> bool" where
  "order_inv s \<longleftrightarrow> h_added s = h_done s @ in_hand (thread s) @ h_dropped s @ queue_list s"

text \<open>The blocks that are reachable from some item, and those of removed items.\<close>

definition owned :: "sys \<Rightarrow> nat list" where
  "owned s = concat (map item_blocks (filled s @ in_hand (thread s) @ queue_list s)) @
     concat (map tb_blocks (h_dropped s))"

definition heap_inv :: "sys \<Rightarrow> bool" where
  "heap_inv s \<longleftrightarrow> distinct (owned s) \<and> set (owned s) = kheap s \<and> (\<forall>b \<in> kheap s. b < kfresh s)"

definition queue_inv :: "sys \<Rightarrow> bool" where
  "queue_inv s \<longleftrightarrow> phase_inv s \<and> count_inv s \<and> items_inv s \<and> order_inv s \<and> heap_inv s"

lemmas queue_inv_defs = queue_inv_def phase_inv_def count_inv_def items_inv_def order_inv_def
  heap_inv_def extra_def taking_def owned_def

lemma installed_fields:
  assumes "installed s"
  obtains kt p where "s = dumper_boot\<lparr>uUrbNumGenerator := 1, oContinue := True, pid := kt, thread := W_wait, procfs := p\<rparr>"
    "kt \<noteq> 0"
proof -
  have pos: "kt \<noteq> 0" if "0 < sint kt" for kt :: u32 using that by auto
  from assms show thesis
    by cases (auto simp: SideDumper_InstallDumper_def dumper_boot_def Let_def dest: pos intro: that)
qed

lemma installed_inv: "installed s \<Longrightarrow> queue_inv s"
  by (erule installed_fields) (simp add: queue_inv_defs dumper_boot_def settings_ok_def)

section \<open>Preservation\<close>

lemma queue_invI:
  "phase_inv s \<Longrightarrow> count_inv s \<Longrightarrow> items_inv s \<Longrightarrow> order_inv s \<Longrightarrow> heap_inv s \<Longrightarrow> queue_inv s"
  by (simp add: queue_inv_def)

lemma heap_by_mset:
  assumes "mset xs = mset l" "distinct l" "set l = H" "\<forall>b \<in> H. b < k"
  shows "distinct xs \<and> set xs = H \<and> (\<forall>b \<in> H. b < k)"
  using assms mset_eq_imp_distinct_iff[OF assms(1)] mset_eq_setD[OF assms(1)] by simp

lemma heap_split:
  assumes "mset xs = mset (b @ l)" "distinct xs" "set xs = H"
  shows "distinct l \<and> set l = H - set b"
proof -
  have "distinct (b @ l)" "set (b @ l) = H"
    using assms mset_eq_imp_distinct_iff[OF assms(1)] mset_eq_setD[OF assms(1)] by simp_all
  then show ?thesis by auto
qed

lemmas small_defs = phase_inv_def count_inv_def order_inv_def extra_def taking_def

lemma queue_invD:
  "queue_inv s \<Longrightarrow> phase_inv s" "queue_inv s \<Longrightarrow> count_inv s" "queue_inv s \<Longrightarrow> order_inv s"
  by (simp_all add: queue_inv_def)

text \<open>A step that only hands blocks and items on.\<close>

lemma queue_inv_move:
  assumes "queue_inv s" "mset (owned t) = mset (owned s)" "kheap t = kheap s" "kfresh s \<le> kfresh t"
    and "set (filled t @ in_hand (thread t) @ queue_list t) \<subseteq> set (filled s @ in_hand (thread s) @ queue_list s)"
    and "length (aDevSettings t) = length (aDevSettings s)" "phase_inv t" "count_inv t" "order_inv t"
  shows "queue_inv t"
proof -
  have h: "distinct (owned s)" "set (owned s) = kheap s" "\<forall>b \<in> kheap s. b < kfresh s"
    using assms(1) by (simp_all add: queue_inv_def heap_inv_def)
  then have "\<forall>b \<in> kheap s. b < kfresh t" using assms(4) by auto
  then have "heap_inv t" using heap_by_mset[OF assms(2) h(1,2)] by (simp add: heap_inv_def assms(3))
  moreover have "items_inv t" using assms(1,5,6)
    unfolding queue_inv_def items_inv_def settings_ok_def by auto
  ultimately show ?thesis using assms(7-9) by (simp add: queue_inv_def)
qed

lemma log_msg_inv [simp]: "queue_inv (log_msg m s) = queue_inv s"
  by (simp add: queue_inv_defs)

lemma settings_call_inv: "queue_inv s \<Longrightarrow> settings_call s t \<Longrightarrow> queue_inv t"
  by (erule settings_call_keeps, rule queue_inv_move) (auto simp: owned_def small_defs dest: queue_invD)

lemma signal_inv:
  assumes "queue_inv s" "unsignalled s = Suc n"
  shows "queue_inv ((QueueUrb_signal s)\<lparr>unsignalled := n\<rparr>)"
  using assms(2) queue_invD[OF assms(1)]
  by (intro queue_inv_move[OF assms(1)]) (auto simp: owned_def small_defs QueueUrb_signal_def)

lemma stop_inv:
  assumes "queue_inv s" "remover s = R_idle" shows "queue_inv (RemoveDumper_stop s)"
  using assms queue_invD[OF assms(1)]
  by (intro queue_inv_move[OF assms(1)]) (auto simp: owned_def small_defs RemoveDumper_stop_def)

lemma heap_invD: "queue_inv s \<Longrightarrow> \<forall>b \<in> kheap s. b < kfresh s"
  by (simp add: queue_inv_defs)

lemma direct_inv:
  assumes "queue_inv s" "ProcessUrb K a u s = Some (Inr t)"
  shows "queue_inv t"
proof -
  from ProcessUrb_keeps[OF assms(2) heap_invD[OF assms(1)]] obtain l n g k where
    "t = s\<lparr>klog := l, uBytesOut := n, uUrbNumGenerator := g, kfresh := k\<rparr>" "kfresh s \<le> k" .
  then show ?thesis using queue_invD[OF assms(1)]
    by (intro queue_inv_move[OF assms(1)]) (auto simp: owned_def small_defs)
qed

lemma fill_inv:
  assumes inv: "queue_inv s" and "OnSubmit_way K u s \<noteq> Ignored \<or> OnReturn_way K u s \<noteq> Ignored"
    and "length (stale_setup a) = 8" and f: "QueueUrb_fill K a u s = Inr (Some it, t)"
  shows "queue_inv (t\<lparr>filled := filled s @ [it]\<rparr>)"
proof -
  from QueueUrb_fill_some[OF f assms(3)] obtain d l g k where
    d: "urb_dev u = Some d" "mini_devnum (it_mini it) = devnum d" "length (mini_setup (it_mini it)) = 8"
    and t: "t = s\<lparr>klog := l, uUrbNumGenerator := g, kheap := set (item_blocks it) \<union> kheap s, kfresh := k\<rparr>"
    and b: "distinct (item_blocks it)" "\<forall>b \<in> set (item_blocks it). kfresh s \<le> b \<and> b < k" "kfresh s \<le> k" .
  have ok: "item_ok it" using watchedD[OF assms(2)] d by (auto simp: item_ok_def)
  have disj: "set (item_blocks it) \<inter> kheap s = {}" using b(2) heap_invD[OF inv] by fastforce
  have below: "\<forall>x \<in> set (item_blocks it) \<union> kheap s. x < k" using b(2,3) heap_invD[OF inv] by fastforce
  show ?thesis (is "queue_inv ?t")
  proof (rule queue_invI)
    show "phase_inv ?t" "count_inv ?t" "order_inv ?t"
      using inv by (simp_all add: t queue_inv_def phase_inv_def count_inv_def order_inv_def extra_def taking_def)
    show "items_inv ?t" using inv ok by (auto simp: t queue_inv_def items_inv_def settings_ok_def)
    have "distinct (owned s)" "set (owned s) = kheap s" using inv by (simp_all add: queue_inv_def heap_inv_def)
    moreover have "mset (owned ?t) = mset (item_blocks it @ owned s)" by (simp add: t owned_def)
    ultimately show "heap_inv ?t" using disj below b(1)
      unfolding heap_inv_def by (intro heap_by_mset[where l = "item_blocks it @ owned s"]) (simp_all add: t)
  qed
qed

lemma add_inv:
  assumes inv: "queue_inv s" and f: "filled s = f1 @ it # f2"
  shows "queue_inv ((QueueUrb_add it s)\<lparr>filled := f1 @ f2, unsignalled := Suc (unsignalled s),
      h_added := h_added s @ [it]\<rparr>)" (is "queue_inv ?t")
proof (rule queue_invI)
  show "phase_inv ?t" "count_inv ?t" "order_inv ?t"
    using inv by (simp_all add: QueueUrb_add_def queue_inv_def phase_inv_def count_inv_def order_inv_def extra_def taking_def)
  show "items_inv ?t" using inv f by (auto simp: QueueUrb_add_def queue_inv_def items_inv_def settings_ok_def)
  have "mset (owned ?t) = mset (owned s)" by (simp add: QueueUrb_add_def owned_def f)
  then show "heap_inv ?t" using inv
    unfolding heap_inv_def queue_inv_def by (intro heap_by_mset) (auto simp: QueueUrb_add_def)
qed

lemma mset_item_blocks:
  "mset (concat (map item_blocks q)) = mset (map it_block q) + mset (concat (map tb_blocks q))"
  by (induction q) (simp_all add: item_blocks_def)

lemma finish_inv:
  assumes inv: "queue_inv s" and "remover s = R_wait_exit" and f: "RemoveDumper_finish s = Some t"
  shows "queue_inv t"
proof -
  from f obtain p where "semExitSignal s \<noteq> 0" and t:
    "t = s\<lparr>semExitSignal := semExitSignal s - 1, queue_list := [],
       kheap := kheap s - set (map it_block (queue_list s)), procfs := p, remover := R_done,
       h_dropped := h_dropped s @ queue_list s\<rparr>" by (rule RemoveDumper_finish_effect)
  with inv assms(2) have ph: "thread s = W_exited" "h_dropped s = []"
    by (auto simp: queue_inv_defs split: if_splits)
  show ?thesis
  proof (rule queue_invI)
    show "phase_inv t" "count_inv t" "order_inv t"
      using inv ph assms(2)
      by (simp_all add: t queue_inv_def phase_inv_def count_inv_def order_inv_def extra_def taking_def)
    show "items_inv t" using inv by (auto simp: t queue_inv_def items_inv_def settings_ok_def)
    let ?l = "concat (map item_blocks (filled s)) @ concat (map tb_blocks (queue_list s))"
    have own: "mset (owned s) = mset (map it_block (queue_list s) @ ?l)"
      using ph by (simp add: owned_def mset_item_blocks)
    have h: "distinct (owned s)" "set (owned s) = kheap s" "\<forall>b \<in> kheap s. b < kfresh s"
      using inv by (simp_all add: queue_inv_def heap_inv_def)
    have "distinct ?l" "set ?l = kheap s - set (map it_block (queue_list s))"
      using heap_split[OF own h(1,2)] by blast+
    moreover have "owned t = ?l" using ph by (simp add: t owned_def)
    ultimately show "heap_inv t" using h(3) by (simp add: heap_inv_def t)
  qed
qed

lemma clean_item:
  "kfree (it_block it) (CleanMini (it_tb it) s) = s\<lparr>kheap := kheap s - set (item_blocks it)\<rparr>"
proof (cases "it_tb it")
  case (Some b)
  have "kheap s - {b} - {it_block it} = kheap s - {it_block it, b}" by blast
  with Some show ?thesis by (simp add: kfree_def CleanMini_def item_blocks_def tb_blocks_def)
qed (simp add: kfree_def CleanMini_def item_blocks_def tb_blocks_def)

lemma worker_inv:
  assumes inv: "queue_inv s" and w: "worker_step K ok s = Some t"
  shows "queue_inv t"
proof (cases "thread s")
  case W_wait
  show ?thesis
  proof (cases "oContinue s")
    case True
    with w W_wait have t: "t = s\<lparr>semItemsQueued := semItemsQueued s - 1, thread := W_take\<rparr>" "semItemsQueued s \<noteq> 0"
      by (simp_all add: worker_step_def Let_def split: if_splits)
    then show ?thesis using queue_invD[OF inv] W_wait True
      by (intro queue_inv_move[OF inv]) (auto simp: small_defs owned_def)
  next
    case False
    let ?u = "s\<lparr>semItemsQueued := semItemsQueued s - 1, semExitSignal := Suc (semExitSignal s), thread := W_exited\<rparr>"
    from w W_wait False have t: "t = log_msg (Printk KERN_DEBUG ''WorkerThreadEntry: exit.'') ?u" "semItemsQueued s \<noteq> 0"
      by (simp_all add: worker_step_def Let_def split: if_splits)
    have "remover s = R_wait_exit"
      using inv W_wait False by (cases "remover s") (auto simp: queue_inv_def phase_inv_def)
    then have "queue_inv ?u" using queue_invD[OF inv] W_wait False t(2)
      by (intro queue_inv_move[OF inv]) (auto simp: small_defs owned_def)
    then show ?thesis by (simp add: t(1))
  qed
next
  case W_take
  with inv have "queue_list s \<noteq> []"
    by (auto simp: queue_inv_def count_inv_def phase_inv_def extra_def taking_def split: if_splits)
  then obtain it q where q: "queue_list s = it # q" by (cases "queue_list s") auto
  with w W_take have t: "t = s\<lparr>queue_list := q, thread := W_busy it\<rparr>" by (simp add: worker_step_def)
  have "h_dropped s = []" using inv W_take by (auto simp: queue_inv_def phase_inv_def)
  then show ?thesis using queue_invD[OF inv] W_take q
    by (intro queue_inv_move[OF inv]) (auto simp: t small_defs owned_def)
next
  case (W_busy it)
  consider (crash) e where "t = s\<lparr>thread := W_crash it e\<rparr>"
    | (good) s1 where "ProcessMini K ok (it_mini it) s = Some (Inr s1)"
      "t = (kfree (it_block it) (CleanMini (it_tb it) s1))\<lparr>thread := W_wait, h_done := h_done s @ [it]\<rparr>"
    using w W_busy by (auto simp: worker_step_def split: option.splits sum.splits)
  then show ?thesis
  proof cases
    case crash
    then show ?thesis using queue_invD[OF inv] W_busy
      by (intro queue_inv_move[OF inv]) (auto simp: small_defs owned_def)
  next
    case good
    from good(1) obtain l n where "s1 = s\<lparr>klog := l, uBytesOut := n\<rparr>" by (rule ProcessMini_keeps)
    then have t: "t = s\<lparr>klog := l, uBytesOut := n, kheap := kheap s - set (item_blocks it), thread := W_wait,
        h_done := h_done s @ [it]\<rparr>" by (simp add: good(2) clean_item)
    have "h_dropped s = []" using inv W_busy by (auto simp: queue_inv_def phase_inv_def)
    moreover have "mset (owned s) = mset (item_blocks it @ owned t)" using W_busy by (simp add: owned_def t)
    moreover have "distinct (owned s)" "set (owned s) = kheap s" "\<forall>b \<in> kheap s. b < kfresh s"
      using inv by (simp_all add: queue_inv_def heap_inv_def)
    ultimately have "heap_inv t"
      unfolding heap_inv_def using heap_split[of "owned s" "item_blocks it" "owned t" "kheap s"] by (simp add: t)
    moreover have "items_inv t" using inv W_busy by (simp add: t queue_inv_def items_inv_def settings_ok_def)
    moreover have "phase_inv t" "count_inv t" "order_inv t"
      using queue_invD[OF inv] W_busy \<open>h_dropped s = []\<close> by (auto simp: t small_defs)
    ultimately show ?thesis by (intro queue_invI)
  qed
qed (use w in \<open>simp_all add: worker_step_def\<close>)

lemma dstep_inv:
  assumes "queue_inv s" "dstep K s t" shows "queue_inv t"
  using assms(2)
proof cases
  case (fill w u a it s')
  then have "OnSubmit_way K u s \<noteq> Ignored \<or> OnReturn_way K u s \<noteq> Ignored" by auto
  from fill_inv[OF assms(1) this fill(4,5)] show ?thesis by (simp add: fill(1))
next
  case no_item
  with assms(1) show ?thesis by (auto dest: QueueUrb_fill_none)
qed (use assms(1) in \<open>auto intro: add_inv signal_inv direct_inv settings_call_inv worker_inv stop_inv finish_inv\<close>)

interpretation dq: safe_machine "dstep K" installed queue_inv for K
  by unfold_locales (auto intro: installed_inv dstep_inv)

section \<open>The abstract queue\<close>

text \<open>What the outside sees of the work queue: an item is put on the list (\<open>QueueUrb\<close>), an item
  has been processed (the worker thread is back from \<open>ProcessMini\<close>), the rest is thrown away
  (\<open>RemoveDumper\<close>).\<close>

datatype work_event = Put item | Deliver item | Flush

text \<open>The steps of the dumper with what they show.\<close>

inductive work_step :: "kenv \<Rightarrow> sys \<Rightarrow> work_event list \<Rightarrow> sys \<Rightarrow> bool" for K where
  put: "filled s = f1 @ it # f2 \<Longrightarrow>
    work_step K s [Put it] ((QueueUrb_add it s)\<lparr>filled := f1 @ f2, unsignalled := Suc (unsignalled s),
      h_added := h_added s @ [it]\<rparr>)"
| deliver: "thread s = W_busy it \<Longrightarrow> worker_step K ok s = Some t \<Longrightarrow> thread t = W_wait \<Longrightarrow>
    work_step K s [Deliver it] t"
| flush: "remover s = R_wait_exit \<Longrightarrow> RemoveDumper_finish s = Some t \<Longrightarrow> work_step K s [Flush] t"
| worker: "worker_step K ok s = Some t \<Longrightarrow> in_hand (thread s) = [] \<or> thread t \<noteq> W_wait \<Longrightarrow> work_step K s [] t"
| fill: "w \<in> {OnSubmit_way K u s, OnReturn_way K u s} \<Longrightarrow> w = Queued \<Longrightarrow> length (stale_setup a) = 8 \<Longrightarrow>
    QueueUrb_fill K a u s = Inr (Some it, s') \<Longrightarrow> work_step K s [] (s'\<lparr>filled := filled s @ [it]\<rparr>)"
| no_item: "QueueUrb_fill K a u s = Inr (None, s') \<Longrightarrow> work_step K s [] s'"
| signal: "unsignalled s = Suc n \<Longrightarrow> work_step K s [] ((QueueUrb_signal s)\<lparr>unsignalled := n\<rparr>)"
| direct: "w \<in> {OnSubmit_way K u s, OnReturn_way K u s} \<Longrightarrow> w = Direct \<Longrightarrow>
    ProcessUrb K a u s = Some (Inr s') \<Longrightarrow> work_step K s [] s'"
| settings: "settings_call s s' \<Longrightarrow> work_step K s [] s'"
| stop: "remover s = R_idle \<Longrightarrow> work_step K s [] (RemoveDumper_stop s)"

text \<open>These are all the steps of the dumper.\<close>

lemma work_step_dstep: "work_step K s es t \<Longrightarrow> dstep K s t"
  by (induction rule: work_step.induct) (auto intro: dstep.intros)

lemma dstep_work_step:
  assumes "dstep K s t" shows "\<exists>es. work_step K s es t"
  using assms
proof cases
  case (worker ok)
  show ?thesis
  proof (cases "in_hand (thread s) = [] \<or> thread t \<noteq> W_wait")
    case False
    with worker obtain it where "thread s = W_busy it"
      by (cases "thread s") (auto simp: worker_step_def)
    with False worker show ?thesis by (blast intro: work_step.deliver)
  qed (use worker in \<open>blast intro: work_step.worker\<close>)
qed (auto intro: work_step.intros)

text \<open>What the worker thread promises: items are delivered from the front of those put; they can
  only be thrown away all at once, and once; and after that nothing is delivered.\<close>

record fifo =
  pending :: "item list"
  closed :: bool

fun fifo_next :: "fifo \<Rightarrow> work_event \<Rightarrow> fifo option" where
  "fifo_next f (Put it) = Some (f\<lparr>pending := pending f @ [it]\<rparr>)"
| "fifo_next f (Deliver it) =
     (case pending f of
        [] \<Rightarrow> None
      | i # q \<Rightarrow> if i = it \<and> \<not> closed f then Some (f\<lparr>pending := q\<rparr>) else None)"
| "fifo_next f Flush = (if closed f then None else Some (f\<lparr>pending := [], closed := True\<rparr>))"

definition fifo_init :: fifo where
  "fifo_init = \<lparr>pending = [], closed = False\<rparr>"

definition fifo_of :: "sys \<Rightarrow> fifo" where
  "fifo_of s = \<lparr>pending = in_hand (thread s) @ queue_list s, closed = (remover s = R_done)\<rparr>"

lemma take_nonempty: "queue_inv s \<Longrightarrow> thread s = W_take \<Longrightarrow> queue_list s \<noteq> []"
  by (auto simp: queue_inv_def small_defs split: if_splits)

lemma worker_silent:
  assumes w: "worker_step K ok s = Some t" and q: "thread s = W_take \<Longrightarrow> queue_list s \<noteq> []"
    and h: "in_hand (thread s) = [] \<or> thread t \<noteq> W_wait"
  shows "fifo_of t = fifo_of s"
  using w q h
  by (cases "thread s")
    (auto simp: worker_step_def fifo_of_def Let_def split: if_splits list.splits option.splits sum.splits)

lemma worker_delivers:
  assumes w: "worker_step K ok s = Some t" and "thread s = W_busy it" "thread t = W_wait"
  shows "queue_list t = queue_list s \<and> remover t = remover s"
  using assms by (auto simp: worker_step_def clean_item elim!: ProcessMini_keeps split: option.splits sum.splits)

lemma work_step_fifo:
  assumes inv: "queue_inv s" and "work_step K s es t"
  shows "accepts fifo_next es (fifo_of s) = Some (fifo_of t)"
  using assms(2)
proof cases
  case (put f1 it f2)
  then show ?thesis by (simp add: fifo_of_def QueueUrb_add_def)
next
  case (deliver it ok)
  have "remover s \<noteq> R_done" using inv deliver(2) by (auto simp: queue_inv_def phase_inv_def)
  then show ?thesis using deliver(1,2,4) worker_delivers[OF deliver(3,2,4)] by (simp add: fifo_of_def)
next
  case flush
  from flush(3) obtain p where sem: "semExitSignal s \<noteq> 0"
    and t: "t = s\<lparr>semExitSignal := semExitSignal s - 1, queue_list := [],
       kheap := kheap s - set (map it_block (queue_list s)), procfs := p, remover := R_done,
       h_dropped := h_dropped s @ queue_list s\<rparr>" by (rule RemoveDumper_finish_effect)
  have "thread s = W_exited" using sem inv by (auto simp: queue_inv_def phase_inv_def split: if_splits)
  then show ?thesis using flush(1,2) by (simp add: fifo_of_def t)
next
  case (worker ok)
  then show ?thesis using worker_silent take_nonempty[OF inv] by simp
next
  case (fill w u a it s')
  from QueueUrb_fill_some[OF fill(6,5)] obtain d l g k where
    "s' = s\<lparr>klog := l, uUrbNumGenerator := g, kheap := set (item_blocks it) \<union> kheap s, kfresh := k\<rparr>" .
  then show ?thesis by (simp add: fill(1,2) fifo_of_def)
next
  case (no_item a u)
  from QueueUrb_fill_none[OF no_item(2)] no_item(1) show ?thesis by (simp add: fifo_of_def)
next
  case (direct w u a)
  from ProcessUrb_keeps[OF direct(4) heap_invD[OF inv]] obtain l n g k where
    "t = s\<lparr>klog := l, uBytesOut := n, uUrbNumGenerator := g, kfresh := k\<rparr>" .
  then show ?thesis by (simp add: direct(1) fifo_of_def)
next
  case settings
  from settings(2) obtain d l where "t = s\<lparr>aDevSettings := d, klog := l\<rparr>" by (rule settings_call_keeps)
  then show ?thesis by (simp add: settings(1) fifo_of_def)
next
  case stop
  then show ?thesis by (simp add: fifo_of_def RemoveDumper_stop_def)
qed (simp add: fifo_of_def QueueUrb_signal_def)

interpretation dqf: trace_refinement "work_step K" installed queue_inv fifo_of fifo_next fifo_init for K
proof unfold_locales
  show "fifo_of s = fifo_init" if "installed s" for s
    using that by (auto simp: fifo_init_def fifo_of_def dumper_boot_def elim!: installed_fields)
qed (auto intro: installed_inv dstep_inv work_step_dstep work_step_fifo)

text \<open>The items of a sequence of events that were put, and those that were delivered.\<close>

fun puts :: "work_event list \<Rightarrow> item list" where
  "puts [] = []"
| "puts (Put it # es) = it # puts es"
| "puts (_ # es) = puts es"

fun delivered :: "work_event list \<Rightarrow> item list" where
  "delivered [] = []"
| "delivered (Deliver it # es) = it # delivered es"
| "delivered (_ # es) = delivered es"

lemma fifo_order:
  "accepts fifo_next es f = Some g \<Longrightarrow>
     (closed f \<longrightarrow> closed g \<and> delivered es = []) \<and>
     (\<not> closed f \<longrightarrow> (\<exists>r. pending f @ puts es = delivered es @ r)) \<and>
     (Flush \<notin> set es \<longrightarrow> closed g = closed f \<and> pending f @ puts es = delivered es @ pending g)"
proof (induction es arbitrary: f)
  case (Cons e es)
  from Cons.prems obtain h where h: "fifo_next f e = Some h" "accepts fifo_next es h = Some g"
    by (auto split: option.splits)
  from Cons.IH[OF h(2)] show ?case
    using h(1) by (cases e) (auto split: list.splits if_splits)
qed simp

section \<open>A run\<close>

text \<open>Device 3 is set to asynchronous dumping, one URB of two bytes is queued, and the worker takes
  it; or the dumper is removed instead.\<close>

definition async_settings :: settings where
  "async_settings = \<lparr>oEnabled = 1, oAsync = 1, pfnDumper = Some Fn_DumpUrbToPrintk,
     uOutLimit = UINT_MAX, uInLimit = UINT_MAX\<rparr>"

definition run_urb :: urb where
  "run_urb = \<lparr>urb_dev = Some \<lparr>devnum = 3, dev_bus = True\<rparr>, urb_pipe = 0xC0000300,
     urb_transfer_flags = 0, urb_transfer_buffer = 0x1000, urb_transfer_buffer_length = 2,
     urb_actual_length = 0, urb_setup_packet = 0, urb_interval = 0, urb_complete = True\<rparr>"

definition run_answers :: answers where
  "run_answers = \<lparr>ok_item = True, ok_tb = True, ok_text = True, mem_now = (\<lambda>a. word_of_int a),
     stale_setup = replicate 8 0\<rparr>"

definition run0 :: sys where
  "run0 = SideDumper_InstallDumper 1 (\<lambda>_ _. True) dumper_boot"

definition run1 :: sys where
  "run1 = SideDumper_SetDeviceSettings 3 (Some async_settings) run0"

definition run_item :: item where
  "run_item = \<lparr>it_block = 0, it_mini = \<lparr>mini_number = 1, mini_devnum = 3, mini_pipe = 0xC0000300,
     mini_tb_length = 2, mini_actual = 0, mini_setup = replicate 8 0,
     mini_tb = Some (bytes_at (\<lambda>a. word_of_int a) 0x1000 2)\<rparr>, it_tb = Some 1\<rparr>"

definition run2 :: sys where
  "run2 = (log_msg (queue_msg linux_env (it_mini run_item)) run1)\<lparr>uUrbNumGenerator := 2,
     kheap := {0, 1}, kfresh := 2, filled := [run_item]\<rparr>"

definition run3 :: sys where
  "run3 = (QueueUrb_signal ((QueueUrb_add run_item run2)
     \<lparr>filled := [], unsignalled := 1, h_added := [run_item]\<rparr>))\<lparr>unsignalled := 0\<rparr>"

definition run4 :: sys where
  "run4 = run3\<lparr>semItemsQueued := 0, thread := W_take\<rparr>"

lemma run0_eq: "\<exists>p. run0 = dumper_boot\<lparr>uUrbNumGenerator := 1, oContinue := True, pid := 1,
    thread := W_wait, procfs := p\<rparr>"
  by (simp add: run0_def SideDumper_InstallDumper_def dumper_boot_def Let_def)

lemma run1_fields:
  "filled run1 = []" "unsignalled run1 = 0" "h_added run1 = []" "h_done run1 = []" "h_dropped run1 = []"
  "thread run1 = W_wait" "remover run1 = R_idle" "oContinue run1" "queue_list run1 = []"
  "semItemsQueued run1 = 0" "kheap run1 = {}" "kfresh run1 = 0" "uUrbNumGenerator run1 = 1" "pid run1 = 1"
  "semExitSignal run1 = 0" "uBytesOut run1 = 0" "aDevSettings run1 = (replicate N_DEVICES default_settings)[3 := async_settings]"
proof -
  from run0_eq obtain p where p: "run0 = dumper_boot\<lparr>uUrbNumGenerator := 1, oContinue := True, pid := 1,
    thread := W_wait, procfs := p\<rparr>" ..
  show "filled run1 = []" "unsignalled run1 = 0" "h_added run1 = []" "h_done run1 = []" "h_dropped run1 = []"
    "thread run1 = W_wait" "remover run1 = R_idle" "oContinue run1" "queue_list run1 = []"
    "semItemsQueued run1 = 0" "kheap run1 = {}" "kfresh run1 = 0" "uUrbNumGenerator run1 = 1" "pid run1 = 1"
    "semExitSignal run1 = 0" "uBytesOut run1 = 0"
    "aDevSettings run1 = (replicate N_DEVICES default_settings)[3 := async_settings]"
    by (simp_all add: run1_def p SideDumper_SetDeviceSettings_def N_DEVICES_def dumper_boot_def)
qed

lemma run1_dev: "aDevSettings run1 ! 3 = async_settings" "length (aDevSettings run1) = 16"
  by (simp_all add: run1_fields N_DEVICES_def)

lemma run_way: "OnSubmit_way linux_env run_urb run1 = Queued"
  by (simp add: OnSubmit_way_def watched_def run_urb_def run1_dev N_DEVICES_def async_settings_def drop_bit_eq_div)

lemma run_fill: "QueueUrb_fill linux_env run_answers run_urb run1 = Inr (Some run_item, run2\<lparr>filled := []\<rparr>)"
  by (simp add: QueueUrb_fill_def InitMini_def kmalloc_def uTbBytes_def run_urb_def run_answers_def
      run_item_def run2_def run1_fields Let_def drop_bit_eq_div log_msg_def insert_commute)

definition run2_put :: sys where
  "run2_put = (QueueUrb_add run_item run2)\<lparr>filled := [], unsignalled := 1, h_added := [run_item]\<rparr>"

lemma run_steps:
  "work_step linux_env run0 [] run1" "work_step linux_env run1 [] run2"
  "work_step linux_env run2 [Put run_item] run2_put" "work_step linux_env run2_put [] run3"
  "work_step linux_env run3 [] run4"
proof -
  show "work_step linux_env run0 [] run1"
    unfolding run1_def by (rule work_step.settings) (rule settings_call.set_device)
  have "run2 = (run2\<lparr>filled := []\<rparr>)\<lparr>filled := filled run1 @ [run_item]\<rparr>"
    by (simp add: run2_def run1_fields)
  moreover have "length (stale_setup run_answers) = 8" by (simp add: run_answers_def)
  ultimately show "work_step linux_env run1 [] run2"
    using work_step.fill[of Queued linux_env run_urb run1 run_answers run_item "run2\<lparr>filled := []\<rparr>"] run_way run_fill
    by simp
  show "work_step linux_env run2 [Put run_item] run2_put"
    using work_step.put[of run2 "[]" run_item "[]" linux_env] by (simp add: run2_put_def run2_def run1_fields)
  show "work_step linux_env run2_put [] run3"
    using work_step.signal[of run2_put 0 linux_env] by (simp add: run3_def run2_put_def)
  have "worker_step linux_env True run3 = Some run4"
    by (simp add: worker_step_def run4_def run3_def run2_def QueueUrb_signal_def QueueUrb_add_def run1_fields)
  then show "work_step linux_env run3 [] run4"
    by (rule work_step.worker) (simp add: run3_def run2_def QueueUrb_signal_def QueueUrb_add_def run1_fields)
qed

lemma run0_installed: "installed run0"
  unfolding run0_def by (rule installed.intros) simp

lemma run_reach: "reach (dstep linux_env) installed run1" "reach (dstep linux_env) installed run2"
  "reach (dstep linux_env) installed run3" "reach (dstep linux_env) installed run4"
proof -
  note d = run_steps[THEN work_step_dstep]
  have "reach (dstep linux_env) installed run0" using run0_installed by (rule reach.start)
  from this d(1) show r1: "reach (dstep linux_env) installed run1" by (rule reach.next_step)
  from r1 d(2) show r2: "reach (dstep linux_env) installed run2" by (rule reach.next_step)
  show r3: "reach (dstep linux_env) installed run3"
    using r2 d(3,4) by (blast intro: reach.next_step)
  from r3 d(5) show "reach (dstep linux_env) installed run4" by (rule reach.next_step)
qed

lemma run_traced: "run (work_step linux_env) installed [Put run_item] run4"
proof -
  have "run (work_step linux_env) installed [] run0" using run0_installed by (rule run.run_start)
  from this run_steps(1) have "run (work_step linux_env) installed ([] @ []) run1" by (rule run.run_step)
  from this run_steps(2) have "run (work_step linux_env) installed (([] @ []) @ []) run2" by (rule run.run_step)
  from this run_steps(3) have "run (work_step linux_env) installed ((([] @ []) @ []) @ [Put run_item]) run2_put"
    by (rule run.run_step)
  from this run_steps(4) have "run (work_step linux_env) installed (((([] @ []) @ []) @ [Put run_item]) @ []) run3"
    by (rule run.run_step)
  from run.run_step[OF this run_steps(5)] show ?thesis by simp
qed

section \<open>What holds in every reachable state\<close>

text \<open>C1. However submissions, returns, settings changes, the worker thread and a removal
  interleave: an item is counted by \<open>semItemsQueued\<close> exactly once it is on the list and signalled,
  so the worker, past its \<open>down\<close>, never finds the list empty; every queued item is for a device
  below 16, the bound of \<open>aDevSettings\<close>; the items put on the list are those processed, the one
  in hand, those removed and those waiting, in this order; and every allocated block belongs to
  exactly one item.\<close>

theorem dumper_reachable_inv:
  assumes "reach (dstep K) installed s"
  shows "semItemsQueued s + unsignalled s + taking s = length (queue_list s) + length (h_dropped s) + extra s \<and>
    (thread s = W_take \<longrightarrow> queue_list s \<noteq> []) \<and>
    (\<forall>it \<in> set (in_hand (thread s) @ queue_list s). unat (mini_devnum (it_mini it)) < N_DEVICES) \<and>
    h_added s = h_done s @ in_hand (thread s) @ h_dropped s @ queue_list s \<and>
    distinct (owned s) \<and> kheap s = set (owned s)"
proof -
  have inv: "queue_inv s" using assms by (rule dq.reach_inv)
  with take_nonempty[OF this] show ?thesis
    by (auto simp: queue_inv_def count_inv_def items_inv_def order_inv_def heap_inv_def item_ok_def)
qed

theorem dumper_reachable_inv_witness:
  "thread run4 = W_take \<and> queue_list run4 \<noteq> [] \<and> kheap run4 = {0, 1}"
  using dumper_reachable_inv[OF run_reach(4)] by (simp add: run4_def run3_def run2_def QueueUrb_signal_def QueueUrb_add_def)

text \<open>C2. The work queue refines a first-in first-out queue. Whatever the interleaving, the sequence
  of what happens to items -- put on the list by a submission or return, delivered to the dumper
  function by the worker thread, thrown away by a removal -- is one the abstract queue accepts: each
  delivery is of the oldest item that is pending, a removal throws away all that are left and nothing
  is delivered after it. The queue's pending items are then exactly the one in the worker's hand and
  those on the list; so the items delivered are an initial part of those put, in the same order, and
  until a removal none of the others is lost.\<close>

theorem dumper_refines_fifo:
  assumes "run (work_step K) installed es s"
  shows "accepts fifo_next es fifo_init = Some (fifo_of s) \<and>
    (\<exists>rest. puts es = delivered es @ rest) \<and>
    (Flush \<notin> set es \<longrightarrow> puts es = delivered es @ in_hand (thread s) @ queue_list s)"
proof -
  have a: "accepts fifo_next es fifo_init = Some (fifo_of s)" using assms by (rule dqf.run_accepted)
  then show ?thesis using fifo_order[OF a] by (simp add: fifo_init_def fifo_of_def)
qed

theorem dumper_refines_fifo_witness:
  "accepts fifo_next [Put run_item] fifo_init = Some \<lparr>pending = [run_item], closed = False\<rparr> \<and>
   puts [Put run_item] = in_hand (thread run4) @ queue_list run4"
  using dumper_refines_fifo[OF run_traced]
  by (simp add: fifo_of_def run4_def run3_def run2_def QueueUrb_signal_def QueueUrb_add_def run1_fields)

end
