(* ===== verification/Dumper_Live.thy ===== *)
theory Dumper_Live
  imports Dumper_Safety
begin

text \<open>
  Progress of the dumper: the worker gets through the list, \<open>SideDumper_RemoveDumper\<close> returns
  when the thread was created and waits for ever when it was not; and what each leaves in memory.
\<close>

section \<open>The worker on its own\<close>

text \<open>At most \<open>n\<close> steps of the worker, up to where it waits, ends or hangs.\<close>

fun worker_run :: "kenv \<Rightarrow> bool \<Rightarrow> nat \<Rightarrow> sys \<Rightarrow> sys" where
  "worker_run K ok 0 s = s"
| "worker_run K ok (Suc n) s = (case worker_step K ok s of None \<Rightarrow> s | Some t \<Rightarrow> worker_run K ok n t)"

text \<open>The dump of an item returns, with whatever count of bytes put out before.\<close>

definition dumps :: "kenv \<Rightarrow> bool \<Rightarrow> sys \<Rightarrow> item \<Rightarrow> bool" where
  "dumps K ok s it \<longleftrightarrow>
     (\<forall>n. \<exists>r. DumpUrbToPrintk K ok (aDevSettings s ! unat (mini_devnum (it_mini it))) (it_mini it) n =
       Some (Inr r))"

lemma dumps_process:
  assumes "dumps K ok s it" "aDevSettings s' = aDevSettings s"
  obtains l n where "ProcessMini K ok (it_mini it) (s' :: sys) = Some (Inr (s'\<lparr>klog := l, uBytesOut := n\<rparr>))"
proof -
  from assms obtain r where
    "DumpUrbToPrintk K ok (aDevSettings s' ! unat (mini_devnum (it_mini it))) (it_mini it) (uBytesOut s') = Some (Inr r)"
    unfolding dumps_def by metis
  moreover have "s' = s'\<lparr>klog := klog s', uBytesOut := uBytesOut s'\<rparr>" by simp
  ultimately have "ProcessMini K ok (it_mini it) s' \<in> {Some (Inr (s'\<lparr>klog := klog s', uBytesOut := uBytesOut s'\<rparr>)),
      Some (Inr (s'\<lparr>klog := klog s' @ out_msgs (events r), uBytesOut := bytes_out r\<rparr>))}"
    by (simp add: ProcessMini_def call_dumper_def Let_def split: option.split dumper_fn.split)
  with that show thesis by blast
qed

lemma worker_busy:
  assumes "thread s = W_busy it" "dumps K ok s it"
  obtains l n where "worker_step K ok s = Some (s\<lparr>klog := l, uBytesOut := n,
     kheap := kheap s - set (item_blocks it), thread := W_wait, h_done := h_done s @ [it]\<rparr>)"
proof -
  from dumps_process[OF assms(2) refl] obtain l n where
    "ProcessMini K ok (it_mini it) s = Some (Inr (s\<lparr>klog := l, uBytesOut := n\<rparr>))" .
  then show thesis using that[where l = l and n = n] assms(1) by (simp add: worker_step_def clean_item)
qed

text \<open>One item: three steps.\<close>

lemma worker_one:
  assumes "thread s = W_wait" "oContinue s" "semItemsQueued s = Suc k" "queue_list s = it # q"
    and "dumps K ok s it"
  obtains l n where "worker_run K ok (3 + m) s = worker_run K ok m (s\<lparr>semItemsQueued := k, queue_list := q,
     klog := l, uBytesOut := n, kheap := kheap s - set (item_blocks it), thread := W_wait,
     h_done := h_done s @ [it]\<rparr>)"
proof -
  let ?a = "s\<lparr>semItemsQueued := k, thread := W_take\<rparr>"
  let ?b = "?a\<lparr>queue_list := q, thread := W_busy it\<rparr>"
  have a: "worker_step K ok s = Some ?a" using assms(1-3) by (simp add: worker_step_def)
  have b: "worker_step K ok ?a = Some ?b" using assms(4) by (simp add: worker_step_def)
  have "dumps K ok ?b it" using assms(5) by (simp add: dumps_def)
  then obtain l n where c: "worker_step K ok ?b = Some (?b\<lparr>klog := l, uBytesOut := n,
     kheap := kheap ?b - set (item_blocks it), thread := W_wait, h_done := h_done ?b @ [it]\<rparr>)"
    by (rule worker_busy[rotated]) simp_all
  have three: "3 + m = Suc (Suc (Suc m))" by simp
  have "worker_run K ok (3 + m) s = worker_run K ok m (?b\<lparr>klog := l, uBytesOut := n,
     kheap := kheap ?b - set (item_blocks it), thread := W_wait, h_done := h_done ?b @ [it]\<rparr>)"
    by (simp only: three worker_run.simps a b c option.case)
  then show thesis using that[where l = l and n = n] by simp
qed

lemma worker_drain:
  assumes "thread s = W_wait" "oContinue s" "semItemsQueued s = length (queue_list s)"
    and "\<forall>it \<in> set (queue_list s). dumps K ok s it"
  shows "let t = worker_run K ok (3 * length (queue_list s)) s in
    thread t = W_wait \<and> queue_list t = [] \<and> semItemsQueued t = 0 \<and> h_done t = h_done s @ queue_list s \<and>
    kheap t = kheap s - set (concat (map item_blocks (queue_list s)))"
  using assms
proof (induction "queue_list s" arbitrary: s)
  case (Cons it q)
  have q: "queue_list s = it # q" using Cons.hyps(2) by simp
  with Cons.prems have "semItemsQueued s = Suc (length q)" "dumps K ok s it" by simp_all
  from worker_one[OF Cons.prems(1,2) this(1) q this(2)] obtain l n where run: "worker_run K ok (3 + 3 * length q) s = worker_run K ok (3 * length q)
      (s\<lparr>semItemsQueued := length q, queue_list := q, klog := l, uBytesOut := n,
         kheap := kheap s - set (item_blocks it), thread := W_wait, h_done := h_done s @ [it]\<rparr>)"
    by blast
  let ?s = "s\<lparr>semItemsQueued := length q, queue_list := q, klog := l, uBytesOut := n,
         kheap := kheap s - set (item_blocks it), thread := W_wait, h_done := h_done s @ [it]\<rparr>"
  have "q = queue_list ?s" by simp
  from Cons.hyps(1)[OF this] Cons.prems have ih: "let t = worker_run K ok (3 * length q) ?s in
    thread t = W_wait \<and> queue_list t = [] \<and> semItemsQueued t = 0 \<and> h_done t = h_done ?s @ q \<and>
    kheap t = kheap ?s - set (concat (map item_blocks q))"
    by (simp add: dumps_def q)
  have n: "3 * length (queue_list s) = 3 + 3 * length q" by (simp add: q)
  show ?case using ih unfolding n run Let_def
    by (auto simp: q)
qed simp

text \<open>C14. The worker catches up: when every \<open>QueueUrb\<close> under way has finished and the dumps of the
  queued items return, then three worker steps per item empty the list. All items have then been
  processed in their order, all their memory is freed, and the worker waits again.\<close>

theorem worker_drains:
  assumes "reach (dstep K) installed s" "thread s = W_wait" "oContinue s" "unsignalled s = 0"
    and "\<forall>it \<in> set (queue_list s). dumps K ok s it"
  shows "let t = worker_run K ok (3 * length (queue_list s)) s in
    thread t = W_wait \<and> queue_list t = [] \<and> semItemsQueued t = 0 \<and> h_done t = h_done s @ queue_list s \<and>
    kheap t = set (concat (map item_blocks (filled s)))"
proof -
  have inv: "queue_inv s" using assms(1) by (rule dq.reach_inv)
  then have d: "h_dropped s = []" using assms(3) by (auto simp: queue_inv_def phase_inv_def)
  then have "semItemsQueued s = length (queue_list s)" using inv assms(2-4)
    by (simp add: queue_inv_def small_defs)
  moreover have "kheap s - set (concat (map item_blocks (queue_list s))) = set (concat (map item_blocks (filled s)))"
  proof -
    have "distinct (owned s)" "kheap s = set (owned s)" using inv by (simp_all add: queue_inv_def heap_inv_def)
    then show ?thesis using d assms(2) unfolding owned_def by auto
  qed
  ultimately show ?thesis using worker_drain[OF assms(2,3) _ assms(5)] by simp
qed

lemma run_item_ok: "tb_ok linux_env (it_mini run_item)" "setup_ok linux_env (it_mini run_item)"
  "TestForStdDescriptor linux_env (it_mini run_item) = Inr False"
  by (simp_all add: tb_ok_def setup_ok_def within_def mini_len_def run_item_def TestForStdDescriptor_def)

lemma run_dumps: "dumps linux_env True s run_item"
  unfolding dumps_def using DumpUrbToPrintk_returns[OF run_item_ok(1,2) _ run_item_ok(3)] by simp blast

lemma run3_fields:
  "thread run3 = W_wait" "oContinue run3" "unsignalled run3 = 0" "queue_list run3 = [run_item]" "filled run3 = []"
  "h_done run3 = []" "h_dropped run3 = []" "remover run3 = R_idle" "semItemsQueued run3 = 1" "kheap run3 = {0, 1}"
  by (simp_all add: run3_def run2_def QueueUrb_signal_def QueueUrb_add_def run1_fields)

theorem worker_drains_witness:
  "h_done (worker_run linux_env True 3 run3) = [run_item] \<and> kheap (worker_run linux_env True 3 run3) = {}"
proof -
  have "\<forall>it \<in> set (queue_list run3). dumps linux_env True run3 it" using run_dumps by (simp add: run3_fields)
  from worker_drains[OF run_reach(3) run3_fields(1-3) this] show ?thesis
    unfolding run3_fields(4-6) Let_def by simp
qed

section \<open>Removing\<close>

text \<open>The worker after the stop: it waits for an item, or it is at one.\<close>

lemma stop_waiting:
  assumes "thread u = W_wait" "\<not> oContinue u" "semItemsQueued u \<noteq> 0"
  shows "\<exists>t. RemoveDumper_finish (worker_run K ok (Suc 0) u) = Some t \<and> queue_list t = [] \<and> h_done t = h_done u \<and>
     h_dropped t = h_dropped u @ queue_list u"
  using assms by (simp add: worker_step_def RemoveDumper_finish_def drop_items_effect Let_def)

lemma stop_busy:
  assumes "thread u = W_busy it" "dumps K ok u it" "\<not> oContinue u" "semItemsQueued u \<noteq> 0"
  shows "\<exists>t. RemoveDumper_finish (worker_run K ok (Suc (Suc 0)) u) = Some t \<and> queue_list t = [] \<and>
     h_done t = h_done u @ [it] \<and> h_dropped t = h_dropped u @ queue_list u"
proof -
  obtain l n where w: "worker_step K ok u = Some (u\<lparr>klog := l, uBytesOut := n,
      kheap := kheap u - set (item_blocks it), thread := W_wait, h_done := h_done u @ [it]\<rparr>)" (is "_ = Some ?v")
    using worker_busy[OF assms(1,2)] by blast
  then show ?thesis using assms(3,4) stop_waiting[of ?v K ok] by simp
qed

text \<open>C25. \<open>SideDumper_RemoveDumper\<close> returns: in every reachable state, after it has asked the
  worker to stop, at most three steps of the worker, whose current dump must return, let it pass
  its wait for \<open>semExitSignal\<close>. Afterwards the list is empty, and nothing was processed but the item
  the worker had in hand.\<close>

theorem RemoveDumper_returns:
  assumes "reach (dstep K) installed s" "remover s = R_idle" "\<nexists>it e. thread s = W_crash it e"
    and "\<forall>it \<in> set (in_hand (thread s) @ queue_list s). dumps K ok s it"
  shows "\<exists>n t. n \<le> 3 \<and> RemoveDumper_finish (worker_run K ok n (RemoveDumper_stop s)) = Some t \<and>
    queue_list t = [] \<and> (\<exists>k \<le> 1. h_done t @ h_dropped t = h_added s \<and> length (h_done t) = length (h_done s) + k)"
proof -
  have inv: "queue_inv s" using assms(1) by (rule dq.reach_inv)
  let ?r = "RemoveDumper_stop s"
  have r: "oContinue ?r = False" "semItemsQueued ?r = Suc (semItemsQueued s)" "thread ?r = thread s"
    "queue_list ?r = queue_list s" "semExitSignal ?r = semExitSignal s" "h_done ?r = h_done s"
    "h_dropped ?r = h_dropped s" by (simp_all add: RemoveDumper_stop_def)
  have ph: "thread s \<noteq> W_none" "thread s \<noteq> W_exited" "h_dropped s = []" using inv assms(2)
    by (auto simp: queue_inv_def phase_inv_def)
  have ord: "h_added s = h_done s @ in_hand (thread s) @ queue_list s"
    using inv ph(3) by (simp add: queue_inv_def order_inv_def)
  show ?thesis
  proof (cases "thread s")
    case W_wait
    then show ?thesis using stop_waiting[of ?r K ok] r ord ph(3) by (intro exI[of _ "Suc 0"]) auto
  next
    case W_take
    then obtain it q where q: "queue_list s = it # q" using take_nonempty[OF inv] by (cases "queue_list s") auto
    let ?u = "?r\<lparr>queue_list := q, thread := W_busy it\<rparr>"
    have "worker_step K ok ?r = Some ?u" using W_take q r by (simp add: worker_step_def)
    moreover have "dumps K ok ?u it" using assms(4) q by (simp add: dumps_def RemoveDumper_stop_def)
    ultimately show ?thesis using stop_busy[of ?u it K ok] r ord ph(3) W_take q
      by (intro exI[of _ "Suc (Suc (Suc 0))"]) auto
  next
    case (W_busy it)
    have "dumps K ok ?r it" using assms(4) W_busy by (simp add: dumps_def RemoveDumper_stop_def)
    then show ?thesis using stop_busy[of ?r it K ok] r ord ph(3) W_busy by (intro exI[of _ "Suc (Suc 0)"]) auto
  qed (use ph assms(3) in auto)
qed

theorem RemoveDumper_returns_witness:
  "\<exists>n t. n \<le> 3 \<and> RemoveDumper_finish (worker_run linux_env True n (RemoveDumper_stop run3)) = Some t \<and>
     queue_list t = [] \<and> h_done t @ h_dropped t = [run_item]"
proof -
  have "\<nexists>it e. thread run3 = W_crash it e" by (simp add: run3_fields)
  moreover have "\<forall>it \<in> set (in_hand (thread run3) @ queue_list run3). dumps linux_env True run3 it"
    using run_dumps by (simp add: run3_fields)
  moreover have "h_added run3 = [run_item]" by (simp add: run3_def QueueUrb_signal_def)
  ultimately show ?thesis
    using RemoveDumper_returns[OF run_reach(3) run3_fields(8)] by metis
qed

text \<open>C26. What a removal leaks: once \<open>SideDumper_RemoveDumper\<close> is through and no \<open>QueueUrb\<close> is
  under way or came after it, the blocks still allocated are exactly the copied transfer buffers of
  the items that were removed unprocessed: \<open>kfree(pItem)\<close> is not preceded by \<open>CleanMini\<close>.\<close>

theorem RemoveDumper_leaks:
  assumes "reach (dstep K) installed s" "remover s = R_done" "filled s = []" "queue_list s = []"
  shows "kheap s = {b. \<exists>it \<in> set (h_dropped s). it_tb it = Some b}"
proof -
  have inv: "queue_inv s" using assms(1) by (rule dq.reach_inv)
  then have "in_hand (thread s) = []" using assms(2) by (simp add: queue_inv_def phase_inv_def)
  then have "kheap s = set (concat (map tb_blocks (h_dropped s)))"
    using inv assms(3,4) by (simp add: queue_inv_def heap_inv_def owned_def)
  then show ?thesis by (auto simp: tb_blocks_def split: option.splits)
qed

definition run5 :: sys where
  "run5 = (log_msg (Printk KERN_DEBUG ''WorkerThreadEntry: exit.'')
     ((RemoveDumper_stop run3)\<lparr>semItemsQueued := 1, semExitSignal := 1, thread := W_exited\<rparr>))"

definition run6 :: sys where
  "run6 = the (RemoveDumper_finish run5)"

lemma run_reach6: "reach (dstep linux_env) installed run5" "reach (dstep linux_env) installed run6"
proof -
  have "reach (dstep linux_env) installed (RemoveDumper_stop run3)"
    using run_reach(3) dstep.stop[OF run3_fields(8)] by (rule reach.next_step)
  moreover have "worker_step linux_env True (RemoveDumper_stop run3) = Some run5"
    using run3_fields(1,9) by (simp add: worker_step_def RemoveDumper_stop_def run5_def run3_def QueueUrb_signal_def QueueUrb_add_def run2_def run1_fields)
  ultimately show r5: "reach (dstep linux_env) installed run5" by (blast intro: reach.next_step dstep.worker)
  have "RemoveDumper_finish run5 = Some run6" "remover run5 = R_wait_exit"
    by (simp_all add: run6_def run5_def RemoveDumper_finish_def RemoveDumper_stop_def Let_def)
  with r5 show "reach (dstep linux_env) installed run6" by (blast intro: reach.next_step dstep.finish)
qed

lemma run6_fields:
  "remover run6 = R_done" "filled run6 = []" "queue_list run6 = []" "h_dropped run6 = [run_item]"
  "thread run6 = W_exited" "semExitSignal run6 = 0"
  by (simp_all add: run6_def run5_def RemoveDumper_finish_def drop_items_effect RemoveDumper_stop_def Let_def
      run3_fields)

theorem RemoveDumper_leaks_witness:
  "kheap run6 = {1}"
  using RemoveDumper_leaks[OF run_reach6(2) run6_fields(1-3)] by (simp add: run6_fields(4)) (simp add: run_item_def)

section \<open>Without a thread\<close>

text \<open>The thread has not been created, or has ended.\<close>

definition no_thread :: "sys \<Rightarrow> bool" where
  "no_thread s \<longleftrightarrow> thread s \<in> {W_none, W_exited} \<and> semExitSignal s = 0 \<and> remover s \<noteq> R_done"

lemma no_thread_worker: "no_thread s \<Longrightarrow> worker_step K ok s = None"
  by (auto simp: no_thread_def worker_step_def)

lemma no_thread_step:
  assumes n: "no_thread s" and "dstep K s t"
  shows "no_thread t \<and> h_done t = h_done s"
  using assms(2)
proof cases
  case (fill w u a it s')
  from QueueUrb_fill_some[OF fill(5,4)] obtain d l g k where
    "s' = s\<lparr>klog := l, uUrbNumGenerator := g, kheap := set (item_blocks it) \<union> kheap s, kfresh := k\<rparr>" .
  then show ?thesis using n by (simp add: fill(1) no_thread_def)
next
  case (direct w u a)
  from direct(3) obtain m tb s1 s2 where i: "InitMini K a u s = Inr (m, tb, s1)"
    and p: "ProcessMini K (ok_text a) m s1 = Some (Inr s2)" and t: "t = CleanMini tb s2"
    by (auto simp: ProcessUrb_def split: sum.splits option.splits prod.splits)
  from p obtain l k where "s2 = s1\<lparr>klog := l, uBytesOut := k\<rparr>" by (rule ProcessMini_keeps)
  then show ?thesis using n i t
    by (auto simp: no_thread_def CleanMini_def kfree_def elim!: InitMini_cases split: option.splits)
next
  case settings
  then obtain d l where "t = s\<lparr>aDevSettings := d, klog := l\<rparr>" by (rule settings_call_keeps)
  then show ?thesis using n by (simp add: no_thread_def)
next
  case (worker ok)
  then show ?thesis using no_thread_worker[OF n] by simp
next
  case no_item
  from QueueUrb_fill_none[OF no_item(1)] show ?thesis using n by (simp add: no_thread_def)
next
  case finish
  then show ?thesis using n by (simp add: no_thread_def RemoveDumper_finish_def)
qed (use n in \<open>simp_all add: no_thread_def QueueUrb_add_def QueueUrb_signal_def RemoveDumper_stop_def\<close>)

interpretation nt: safe_machine "dstep K" "\<lambda>s. no_thread s \<and> h_done s = d" "\<lambda>s. no_thread s \<and> h_done s = d"
  for K d by unfold_locales (auto dest: no_thread_step)

lemma install_again:
  assumes "reach (dstep K) installed s" "remover s = R_done"
  shows "no_thread ((SideDumper_InstallDumper kt ans s)\<lparr>remover := R_idle\<rparr>) \<and>
    h_done (SideDumper_InstallDumper kt ans s) = h_done s \<and>
    klog (SideDumper_InstallDumper kt ans s) =
      klog s @ [Printk KERN_ERR ''SideDumper_InstallDumper: called twice.'']"
proof -
  have "queue_inv s" using assms(1) by (rule dq.reach_inv)
  then show ?thesis using assms(2)
    by (auto simp: SideDumper_InstallDumper_def no_thread_def queue_inv_def phase_inv_def Let_def)
qed

text \<open>C27. A removal without a thread never returns. That is the case before the first installation
  (the error paths of \<open>hc_found_ohci\<close> get there), and after a removal followed by another
  installation: \<open>pid\<close> was not reset, so no thread is created. Whatever happens from then on,
  \<open>RemoveDumper\<close> stays at its wait, and no queued item is processed any more.\<close>

theorem RemoveDumper_without_thread:
  assumes "u0 = dumper_boot \<or> (\<exists>s kt ans. reach (dstep K) installed s \<and> remover s = R_done \<and>
      u0 = (SideDumper_InstallDumper kt ans s)\<lparr>remover := R_idle\<rparr>)"
    and "reach (dstep K) (\<lambda>x. x = u0) u"
  shows "RemoveDumper_finish u = None \<and> worker_step K ok u = None \<and> h_done u = h_done u0"
proof -
  have "no_thread u0"
  proof (cases "u0 = dumper_boot")
    case True
    then show ?thesis by (simp add: no_thread_def dumper_boot_def)
  next
    case False
    then show ?thesis using assms(1) install_again by blast
  qed
  then have "reach (dstep K) (\<lambda>x. no_thread x \<and> h_done x = h_done u0) u"
    by (auto intro: reach_mono[OF assms(2)])
  then have "no_thread u \<and> h_done u = h_done u0" by (rule nt.reach_inv)
  then show ?thesis using no_thread_worker by (auto simp: no_thread_def RemoveDumper_finish_def)
qed

theorem RemoveDumper_without_thread_witness:
  "RemoveDumper_finish (RemoveDumper_stop dumper_boot) = None \<and>
   RemoveDumper_finish (RemoveDumper_stop ((SideDumper_InstallDumper 2 (\<lambda>_ _. True) run6)\<lparr>remover := R_idle\<rparr>)) = None"
proof -
  let ?i = "(SideDumper_InstallDumper 2 (\<lambda>_ _. True) run6)\<lparr>remover := R_idle\<rparr>"
  have r: "reach (dstep linux_env) (\<lambda>x. x = v) (RemoveDumper_stop v)" if "remover v = R_idle" for v
    using that by (blast intro: reach.intros dstep.stop)
  have "RemoveDumper_finish (RemoveDumper_stop ?i) = None"
  proof (rule conjunct1[OF RemoveDumper_without_thread[OF disjI2 r]])
    show "\<exists>s kt ans. reach (dstep linux_env) installed s \<and> remover s = R_done \<and>
        ?i = (SideDumper_InstallDumper kt ans s)\<lparr>remover := R_idle\<rparr>"
      using run_reach6(2) run6_fields(1) by blast
  qed simp
  moreover have "remover dumper_boot = R_idle" by (simp add: dumper_boot_def)
  ultimately show ?thesis using RemoveDumper_without_thread[OF disjI1[OF refl] r] by blast
qed

section \<open>The entry points\<close>

lemma InitMini_fail:
  assumes "urb_dev u = Some d" "urb_transfer_buffer u \<noteq> 0" "uTbBytes K u \<noteq> 0" "\<not> ok_tb a"
  shows "InitMini K a u s = Inl Null_deref"
  using assms by (simp add: InitMini_def kmalloc_def Let_def)

text \<open>The copy of an URB of the device \<open>d\<close>, with the number \<open>n\<close>.\<close>

definition copy_of :: "kenv \<Rightarrow> answers \<Rightarrow> urb \<Rightarrow> usb_device \<Rightarrow> u32 \<Rightarrow> mini" where
  "copy_of K a u d n = \<lparr>mini_number = n, mini_devnum = devnum d, mini_pipe = urb_pipe u,
     mini_tb_length = urb_transfer_buffer_length u, mini_actual = urb_actual_length u,
     mini_setup = (if urb_setup_packet u \<noteq> 0 then bytes_at (mem_now a) (urb_setup_packet u) 8 else stale_setup a),
     mini_tb = (if uTbBytes K u = 0 then None
       else Some (bytes_at (mem_now a) (urb_transfer_buffer u) (unat (uTbBytes K u))))\<rparr>"

lemma InitMini_good:
  assumes "urb_dev u = Some d" "urb_transfer_buffer u \<noteq> 0" "uTbBytes K u = 0 \<or> ok_tb a"
  obtains tb k f where "InitMini K a u s = Inr (copy_of K a u d (uUrbNumGenerator s), tb,
      s\<lparr>uUrbNumGenerator := uUrbNumGenerator s + 1, kheap := k, kfresh := f\<rparr>)"
proof -
  have "\<exists>tb k f. InitMini K a u s = Inr (copy_of K a u d (uUrbNumGenerator s), tb,
      s\<lparr>uUrbNumGenerator := uUrbNumGenerator s + 1, kheap := k, kfresh := f\<rparr>)"
  proof (cases "uTbBytes K u = 0")
    case True
    then show ?thesis using assms(1)
      by (intro exI[of _ None] exI[of _ "kheap s"] exI[of _ "kfresh s"]) (simp add: InitMini_def copy_of_def Let_def)
  next
    case False
    then show ?thesis using assms
      by (intro exI[of _ "Some (kfresh s)"] exI[of _ "insert (kfresh s) (kheap s)"] exI[of _ "Suc (kfresh s)"])
        (simp add: InitMini_def kmalloc_def copy_of_def Let_def)
  qed
  with that show thesis by blast
qed

lemma copy_ok:
  assumes "length (stale_setup a) = 8" "within K 8 [DR_requesttype, DR_request, DR_value, DR_index, DR_length]"
    and "usb_pipetype K (urb_pipe u) \<noteq> macro K PIPE_CONTROL"
  shows "tb_ok K (copy_of K a u d n)" "setup_ok K (copy_of K a u d n)" "TestForStdDescriptor K (copy_of K a u d n) = Inr False"
  using assms
  by (simp_all add: tb_ok_def setup_ok_def TestForStdDescriptor_def copy_of_def mini_len_def uTbBytes_def unat_eq_0)

text \<open>The two ways, when the transfer buffer can be copied.\<close>

definition dumped :: "kenv \<Rightarrow> answers \<Rightarrow> settings \<Rightarrow> mini \<Rightarrow> 'a dumper_scheme \<Rightarrow> 'a dumper_scheme \<Rightarrow> bool" where
  "dumped K a d m s t \<longleftrightarrow>
     (case pfnDumper d of
        None \<Rightarrow> klog t = klog s \<and> uBytesOut t = uBytesOut s
      | Some _ \<Rightarrow> \<exists>p. DumpUrbToPrintk K (ok_text a) d m (uBytesOut s) = Some (Inr p) \<and>
          klog t = klog s @ out_msgs (events p) \<and> uBytesOut t = bytes_out p)"

lemma ProcessUrb_good:
  assumes "urb_dev u = Some d" "urb_transfer_buffer u \<noteq> 0" "uTbBytes K u = 0 \<or> ok_tb a" "length (stale_setup a) = 8"
    and "within K 8 [DR_requesttype, DR_request, DR_value, DR_index, DR_length]"
    and "usb_pipetype K (urb_pipe u) \<noteq> macro K PIPE_CONTROL" "length (KERN_DEBUG_str K) \<le> 45" "\<forall>b \<in> kheap s. b < kfresh s"
    and "oEnabled (aDevSettings s ! unat (devnum d)) \<noteq> 0"
  shows "\<exists>t. ProcessUrb K a u s = Some (Inr t) \<and> kheap t = kheap s \<and> queue_list t = queue_list s \<and>
    semItemsQueued t = semItemsQueued s \<and>
    dumped K a (aDevSettings s ! unat (devnum d)) (copy_of K a u d (uUrbNumGenerator s)) s t"
proof -
  let ?m = "copy_of K a u d (uUrbNumGenerator s)" and ?d = "aDevSettings s ! unat (devnum d)"
  obtain tb k f where i: "InitMini K a u s = Inr (?m, tb, s\<lparr>uUrbNumGenerator := uUrbNumGenerator s + 1, kheap := k, kfresh := f\<rparr>)"
    by (rule InitMini_good[OF assms(1-3)])
  note ok = copy_ok[OF assms(4-6), of d "uUrbNumGenerator s"]
  obtain r where r: "DumpUrbToPrintk K (ok_text a) ?d ?m (uBytesOut s) = Some (Inr r)"
    using DumpUrbToPrintk_returns[OF ok(1,2) assms(7) ok(3)] by blast
  let ?s = "s\<lparr>uUrbNumGenerator := uUrbNumGenerator s + 1, kheap := k, kfresh := f\<rparr>"
  have "mini_devnum ?m = devnum d" by (simp add: copy_of_def)
  then have "\<exists>t. ProcessMini K (ok_text a) ?m ?s = Some (Inr t) \<and> dumped K a ?d ?m s t"
    using assms(9) r
    by (cases "pfnDumper ?d") (simp_all add: ProcessMini_def call_dumper_def dumped_def Let_def split: dumper_fn.split)
  then obtain t where t: "ProcessMini K (ok_text a) ?m ?s = Some (Inr t)" "dumped K a ?d ?m s t" by blast
  then have p: "ProcessUrb K a u s = Some (Inr (CleanMini tb t))" using i by (simp add: ProcessUrb_def)
  have "dumped K a ?d ?m s (CleanMini tb t)"
    using t(2) by (simp add: dumped_def CleanMini_def kfree_def split: option.splits)
  moreover from ProcessUrb_keeps[OF p assms(8)] obtain l' n' g' k' where
    "CleanMini tb t = s\<lparr>klog := l', uBytesOut := n', uUrbNumGenerator := g', kfresh := k'\<rparr>" .
  ultimately show ?thesis using p by simp
qed

lemma QueueUrb_good:
  assumes "urb_dev u = Some d" "urb_transfer_buffer u \<noteq> 0" "uTbBytes K u = 0 \<or> ok_tb a" "length (stale_setup a) = 8" "ok_item a"
  shows "\<exists>t it. QueueUrb K a u s = Inr t \<and> queue_list t = queue_list s @ [it] \<and> semItemsQueued t = Suc (semItemsQueued s) \<and>
     kheap t = set (item_blocks it) \<union> kheap s \<and> it_mini it = copy_of K a u d (uUrbNumGenerator s)"
proof -
  let ?s = "s\<lparr>kheap := insert (kfresh s) (kheap s), kfresh := Suc (kfresh s)\<rparr>"
  obtain tb k f where i: "InitMini K a u ?s = Inr (copy_of K a u d (uUrbNumGenerator s), tb,
      ?s\<lparr>uUrbNumGenerator := uUrbNumGenerator s + 1, kheap := k, kfresh := f\<rparr>)"
    by (rule InitMini_good[OF assms(1-3), of ?s]) simp
  define it where "it = \<lparr>it_block = kfresh s, it_mini = copy_of K a u d (uUrbNumGenerator s), it_tb = tb\<rparr>"
  obtain t where t: "QueueUrb_fill K a u s = Inr (Some it, t)" "queue_list t = queue_list s" "semItemsQueued t = semItemsQueued s"
    using i assms(5) by (simp add: QueueUrb_fill_def kmalloc_def it_def)
  have "kheap t = set (item_blocks it) \<union> kheap s" by (rule QueueUrb_fill_some[OF t(1) assms(4)]) simp
  with t show ?thesis
    by (simp add: QueueUrb_def QueueUrb_add_def QueueUrb_signal_def it_def)
qed

lemma watched_enabled:
  assumes "OnSubmit_way K u s = w \<or> OnReturn_way K u s = w" "w \<noteq> Ignored"
  obtains d where "urb_dev u = Some d" "oEnabled (aDevSettings s ! unat (devnum d)) \<noteq> 0"
  using assms by (auto simp: OnSubmit_way_def OnReturn_way_def watched_def split: option.splits if_splits)

text \<open>C24. The whole path of an URB with data that is not ignored, from an entry point on. \<open>c\<close> is the
  copy of the URB: its number, device, pipe and lengths, the setup packet and the transferred bytes.
  When the URB is to be queued and there is no memory for the item, this is logged and nothing else
  happens. Otherwise, when there is no memory for the transferred bytes, the kernel writes through
  \<open>NULL\<close> (the result of this \<open>kmalloc\<close> is not tested). Otherwise the call returns. A queued URB is
  now one item with the copy \<open>c\<close> at the end of the list, its blocks are allocated, and the semaphore
  is raised by one. An URB that is dumped directly -- this is proved for those that are no control
  transfer -- has been dumped: the dumper function of the device's settings, if there is one, was
  called for \<open>c\<close>, what it prints is in the log and its counter is moved on; and everything that was
  allocated is freed, the list and the semaphore are as before.\<close>

theorem entry_point_outcome:
  assumes "(r, w) \<in> {(SideDumper_OnSubmit K a u s, OnSubmit_way K u s),
      (SideDumper_OnReturn K a u s, OnReturn_way K u s)}" "w \<noteq> Ignored"
    and "urb_dev u = Some d" "urb_transfer_buffer u \<noteq> 0"
    and "w = Direct \<Longrightarrow> usb_pipetype K (urb_pipe u) \<noteq> macro K PIPE_CONTROL"
    and "length (KERN_DEBUG_str K) \<le> 45" "within K 8 [DR_requesttype, DR_request, DR_value, DR_index, DR_length]"
    and "length (stale_setup a) = 8" "\<forall>b \<in> kheap s. b < kfresh s"
    and "c = copy_of K a u d (uUrbNumGenerator s)"
  shows "if w = Queued \<and> \<not> ok_item a
    then r = Some (Inr (log_msg (Printk KERN_ERR ''QueueUrb: out of memory.'') s))
    else if uTbBytes K u \<noteq> 0 \<and> \<not> ok_tb a then r = Some (Inl Null_deref)
    else \<exists>t. r = Some (Inr t) \<and>
      (if w = Queued
       then \<exists>it. queue_list t = queue_list s @ [it] \<and> semItemsQueued t = Suc (semItemsQueued s) \<and>
         kheap t = set (item_blocks it) \<union> kheap s \<and> it_mini it = c
       else kheap t = kheap s \<and> queue_list t = queue_list s \<and> semItemsQueued t = semItemsQueued s \<and>
         (case pfnDumper (aDevSettings s ! unat (devnum d)) of
            None \<Rightarrow> klog t = klog s \<and> uBytesOut t = uBytesOut s
          | Some _ \<Rightarrow> \<exists>p. DumpUrbToPrintk K (ok_text a) (aDevSettings s ! unat (devnum d)) c (uBytesOut s) = Some (Inr p) \<and>
              klog t = klog s @ out_msgs (events p) \<and> uBytesOut t = bytes_out p))"
proof -
  have r: "r = take_way w K a u s"
    using assms(1) by (auto simp: SideDumper_OnSubmit_def SideDumper_OnReturn_def)
  have on: "oEnabled (aDevSettings s ! unat (devnum d)) \<noteq> 0"
    using watched_enabled[of K u s w] assms(1-3) by auto
  consider (q) "w = Queued" | (d) "w = Direct" using assms(2) by (cases w) auto
  then show ?thesis
  proof cases
    case q
    consider (no) "\<not> ok_item a" | (fail) "ok_item a" "uTbBytes K u \<noteq> 0 \<and> \<not> ok_tb a"
      | (ok) "ok_item a" "uTbBytes K u = 0 \<or> ok_tb a" by blast
    then show ?thesis
    proof cases
      case no
      then show ?thesis using q by (simp add: r QueueUrb_def QueueUrb_fill_def kmalloc_def)
    next
      case fail
      then have "InitMini K a u v = Inl Null_deref" for v :: "'a dumper_scheme"
        using InitMini_fail[OF assms(3,4)] by blast
      with fail q show ?thesis by (simp add: r QueueUrb_def QueueUrb_fill_def kmalloc_def)
    next
      case ok
      then show ?thesis using q QueueUrb_good[OF assms(3,4) ok(2) assms(8) ok(1)] by (auto simp: r assms(10))
    qed
  next
    case d
    show ?thesis
    proof (cases "uTbBytes K u \<noteq> 0 \<and> \<not> ok_tb a")
      case True
      then have "InitMini K a u s = Inl Null_deref" using InitMini_fail[OF assms(3,4)] by blast
      with True d show ?thesis by (simp add: r ProcessUrb_def)
    next
      case False
      then have "uTbBytes K u = 0 \<or> ok_tb a" by blast
      from ProcessUrb_good[OF assms(3,4) this assms(8,7) assms(5)[OF d] assms(6,9) on] show ?thesis
        using d False by (auto simp: r assms(10) dumped_def split: option.splits)
    qed
  qed
qed

text \<open>The run's URB is queued; when its device is set to direct dumping it is dumped.\<close>

definition direct1 :: sys where
  "direct1 = run1\<lparr>aDevSettings := (aDevSettings run1)[3 := async_settings\<lparr>oAsync := 0\<rparr>]\<rparr>"

theorem entry_point_outcome_witness:
  "(\<exists>t it. SideDumper_OnSubmit linux_env run_answers run_urb run1 = Some (Inr t) \<and> queue_list t = [it]) \<and>
   (\<exists>t p. SideDumper_OnSubmit linux_env run_answers run_urb direct1 = Some (Inr t) \<and> queue_list t = [] \<and>
      DumpUrbToPrintk linux_env True (async_settings\<lparr>oAsync := 0\<rparr>)
        (copy_of linux_env run_answers run_urb \<lparr>devnum = 3, dev_bus = True\<rparr> 1) 0 = Some (Inr p) \<and>
      klog t = klog direct1 @ out_msgs (events p))"
proof -
  let ?d = "\<lparr>devnum = 3, dev_bus = True\<rparr>"
  have f: "aDevSettings direct1 ! 3 = async_settings\<lparr>oAsync := 0\<rparr>" "kheap direct1 = {}" "queue_list direct1 = []"
    "uUrbNumGenerator direct1 = 1" "uBytesOut direct1 = 0"
    using run1_dev by (simp_all add: direct1_def run1_fields)
  have w: "OnSubmit_way linux_env run_urb direct1 = Direct"
    by (simp add: OnSubmit_way_def watched_def run_urb_def f(1) N_DEVICES_def async_settings_def drop_bit_eq_div)
  have h: "urb_dev run_urb = Some ?d" "urb_transfer_buffer run_urb \<noteq> 0"
    "usb_pipetype linux_env (urb_pipe run_urb) \<noteq> macro linux_env PIPE_CONTROL" "length (KERN_DEBUG_str linux_env) \<le> 45"
    "within linux_env 8 [DR_requesttype, DR_request, DR_value, DR_index, DR_length]" "length (stale_setup run_answers) = 8"
    "ok_item run_answers" "ok_tb run_answers" "ok_text run_answers"
    by (simp_all add: run_urb_def run_answers_def within_def)
  have e: "\<forall>b \<in> kheap run1. b < kfresh run1" "\<forall>b \<in> kheap direct1. b < kfresh direct1" by (simp_all add: run1_fields f)
  note q = entry_point_outcome[where s = run1 and w = Queued and K = linux_env and u = run_urb and a = run_answers,
      OF _ _ h(1,2) _ h(4-6) e(1) refl, of "SideDumper_OnSubmit linux_env run_answers run_urb run1"]
  note p = entry_point_outcome[where s = direct1 and w = Direct and K = linux_env and u = run_urb and a = run_answers,
      OF _ _ h(1,2,3) h(4-6) e(2) refl, of "SideDumper_OnSubmit linux_env run_answers run_urb direct1"]
  have "\<exists>t it. SideDumper_OnSubmit linux_env run_answers run_urb run1 = Some (Inr t) \<and> queue_list t = [it]"
    using q by (auto simp: run_way h(7,8) run1_fields)
  moreover have "\<exists>t p. SideDumper_OnSubmit linux_env run_answers run_urb direct1 = Some (Inr t) \<and> queue_list t = [] \<and>
      DumpUrbToPrintk linux_env True (async_settings\<lparr>oAsync := 0\<rparr>) (copy_of linux_env run_answers run_urb ?d 1) 0 = Some (Inr p) \<and>
      klog t = klog direct1 @ out_msgs (events p)"
    using p by (auto simp: w h(7-9) f async_settings_def)
  ultimately show ?thesis ..
qed

end
