(* ===== verification/Ohci_Sched.thy ===== *)
theory Ohci_Sched
  imports Prelude
begin

text \<open>
  The arithmetic of the interrupt schedule (\<open>ep_int_ballance\<close>, \<open>ep_2_n_interval\<close> and \<open>ep_rev\<close>
  of \<open>portable-ohci-core.c\<close>). The host controller polls slot \<open>n mod 32\<close> of its table in frame
  \<open>n\<close>; an interrupt endpoint of interval \<open>2^k\<close> is linked into every slot of one residue class.
  The \<open>int\<close>s are small and never negative, and are natural numbers here; the loads are integers.
\<close>

section \<open>The functions\<close>

definition N_INTS :: nat where "N_INTS = 32"

definition least_loaded :: "int list \<Rightarrow> nat \<Rightarrow> nat" where
  "least_loaded l n = fold (\<lambda>i branch. if l ! i < l ! branch then i else branch) [0..<n] 0"

function add_load :: "nat \<Rightarrow> nat \<Rightarrow> int \<Rightarrow> int list \<Rightarrow> int list" where
  "add_load interval i ld l =
     (if i < N_INTS \<and> 0 < interval then add_load interval (i + interval) ld (l[i := l ! i + ld]) else l)"
  by pat_completeness auto
termination by (relation "measure (\<lambda>(interval, i, ld, l). N_INTS - i)") auto

declare add_load.simps [simp del]

definition ep_int_ballance :: "nat \<Rightarrow> int \<Rightarrow> int list \<Rightarrow> nat \<times> int list" where
  "ep_int_ballance interval ld l =
     (let branch = least_loaded l N_INTS mod interval in (branch, add_load interval branch ld l))"

function log_loop :: "nat \<Rightarrow> nat \<Rightarrow> nat" where
  "log_loop period i = (if 1 < drop_bit i period \<and> i < 5 then log_loop period (Suc i) else i)"
  by pat_completeness auto
termination by (relation "measure (\<lambda>(period, i). 5 - i)") auto

declare log_loop.simps [simp del]

definition ep_2_n_interval :: "nat \<Rightarrow> nat" where
  "ep_2_n_interval period = push_bit (log_loop period 0) 1"

definition ep_rev :: "nat \<Rightarrow> nat \<Rightarrow> nat" where
  "ep_rev num_bits word = fold (\<lambda>i wout. wout OR push_bit (num_bits - i - 1) (drop_bit i word AND 1)) [0..<num_bits] 0"

section \<open>Bit reversal\<close>

lemma one_bit: "bit (push_bit m (drop_bit i (w :: nat) mod 2)) j \<longleftrightarrow> j = m \<and> bit w i"
proof -
  have "drop_bit i w mod 2 = of_bool (bit w i)" by (simp add: bit_iff_odd_drop_bit mod2_eq_if)
  then show ?thesis by (auto simp: bit_push_bit_iff bit_1_iff simp flip: One_nat_def)
qed

lemma rev_fold_bits:
  "bit (fold (\<lambda>i wout. wout OR push_bit (n - Suc i) (drop_bit i w mod 2)) is (a :: nat)) j \<longleftrightarrow>
     bit a j \<or> (\<exists>i \<in> set is. j = n - Suc i \<and> bit w i)"
  by (induction "is" arbitrary: a) (auto simp: bit_or_iff one_bit)

lemma bit_ep_rev: "bit (ep_rev n w) j \<longleftrightarrow> j < n \<and> bit w (n - 1 - j)"
proof -
  have "(\<exists>i < n. j = n - Suc i \<and> bit w i) \<longleftrightarrow> j < n \<and> bit w (n - 1 - j)"
    by (auto intro: exI[of _ "n - 1 - j"])
  then show ?thesis by (auto simp: ep_rev_def rev_fold_bits and_one_eq)
qed

text \<open>\<open>ep_rev\<close> reverses the low \<open>n\<close> bits of a number: bit \<open>j\<close> of the result is bit
  \<open>n - 1 - j\<close> of the argument, the result is below \<open>2^n\<close>, and reversing twice gives the low
  \<open>n\<close> bits back.\<close>

theorem ep_rev_reverses:
  "(bit (ep_rev n w) j \<longleftrightarrow> j < n \<and> bit w (n - 1 - j)) \<and> ep_rev n w < 2 ^ n \<and>
   ep_rev n (ep_rev n w) = w mod 2 ^ n"
proof -
  have "take_bit n (ep_rev n w) = ep_rev n w"
    by (rule bit_eqI) (simp add: bit_take_bit_iff bit_ep_rev)
  then have "ep_rev n w < 2 ^ n" by (simp add: take_bit_nat_eq_self_iff)
  moreover have "ep_rev n (ep_rev n w) = take_bit n w"
    by (rule bit_eqI) (auto simp: bit_take_bit_iff bit_ep_rev)
  ultimately show ?thesis by (simp add: bit_ep_rev take_bit_eq_mod)
qed

section \<open>Intervals\<close>

lemma one_less_drop_bit: "Suc 0 < drop_bit i n \<longleftrightarrow> 2 ^ Suc i \<le> (n :: nat)"
proof -
  have "2 ^ Suc i \<le> n \<longleftrightarrow> 2 * 2 ^ i \<le> n" by simp
  also have "\<dots> \<longleftrightarrow> 2 \<le> n div 2 ^ i" by (simp add: less_eq_div_iff_mult_less_eq)
  finally show ?thesis by (auto simp: drop_bit_eq_div)
qed

lemma log_loop_tail:
  "log_loop p 5 = 5" "log_loop p 4 = (if 32 \<le> p then 5 else 4)"
  "log_loop p 3 = (if 16 \<le> p then log_loop p 4 else 3)"
  "log_loop p 2 = (if 8 \<le> p then log_loop p 3 else 2)"
  "log_loop p (Suc 0) = (if 4 \<le> p then log_loop p 2 else 1)"
  "log_loop p 0 = (if 2 \<le> p then log_loop p (Suc 0) else 0)"
  by (simp add: log_loop.simps[of p 5], subst log_loop.simps, simp add: one_less_drop_bit log_loop.simps[of p 5])
     (subst log_loop.simps, simp add: one_less_drop_bit)+

lemma ep_2_n_interval_cases: "ep_2_n_interval p = (if p < 2 then 2 ^ 0 else if p < 4 then 2 ^ 1 else if p < 8 then 2 ^ 2
     else if p < 16 then 2 ^ 3 else if p < 32 then 2 ^ 4 else 2 ^ 5)"
proof -
  have "log_loop p 0 = (if p < 2 then 0 else if p < 4 then 1 else if p < 8 then 2 else if p < 16 then 3
     else if p < 32 then 4 else 5)"
    by (simp add: log_loop_tail)
  then show ?thesis by (simp add: ep_2_n_interval_def)
qed

lemma ep_2_n_interval_power: "\<exists>k \<le> 5. ep_2_n_interval p = 2 ^ k"
  unfolding ep_2_n_interval_cases
  by (auto intro: exI[of _ 0] exI[of _ 1] exI[of _ 2] exI[of _ 3] exI[of _ 4] exI[of _ 5])

text \<open>\<open>ep_2_n_interval\<close> rounds a polling period down to a power of two that divides 32: the
  result is at most the period (for a period of at least 1), and doubling it would exceed the
  period or 32.\<close>

theorem ep_2_n_interval_rounds:
  "(\<exists>k \<le> 5. ep_2_n_interval p = 2 ^ k) \<and> (p = 0 \<or> ep_2_n_interval p \<le> p) \<and>
   (p < 2 * ep_2_n_interval p \<or> ep_2_n_interval p = N_INTS)"
  using ep_2_n_interval_power by (auto simp: ep_2_n_interval_cases N_INTS_def)

section \<open>Load balancing\<close>

lemma add_load_effect:
  assumes "0 < interval" "length l = N_INTS"
  shows "length (add_load interval i ld l) = N_INTS \<and>
    (\<forall>j < N_INTS. add_load interval i ld l ! j =
      l ! j + (if i \<le> j \<and> (j - i) mod interval = 0 then ld else 0))"
  using assms
proof (induction interval i ld l rule: add_load.induct)
  case (1 interval i ld l)
  show ?case
  proof (cases "i < N_INTS")
    case False
    then show ?thesis using "1.prems" by (subst (1 2) add_load.simps) auto
  next
    case True
    let ?l = "l[i := l ! i + ld]"
    have e: "add_load interval i ld l = add_load interval (i + interval) ld ?l"
      using True "1.prems" by (subst add_load.simps) simp
    have mod: "i + interval \<le> j \<and> (j - (i + interval)) mod interval = 0 \<longleftrightarrow> i < j \<and> (j - i) mod interval = 0" for j
    proof (cases "i + interval \<le> j")
      case True
      then have "j - i = (j - (i + interval)) + interval" by simp
      then have "(j - i) mod interval = (j - (i + interval)) mod interval" by (metis mod_add_self2)
      then show ?thesis using True "1.prems" by simp
    next
      case False
      then have "j - i < interval" using "1.prems"(1) by linarith
      then show ?thesis using False by auto
    qed
    have "length ?l = N_INTS" using "1.prems" by simp
    with "1.IH"[OF _ "1.prems"(1)] True "1.prems"(1) have ih: "length (add_load interval (i + interval) ld ?l) = N_INTS"
      "\<forall>j < N_INTS. add_load interval (i + interval) ld ?l ! j =
        ?l ! j + (if i + interval \<le> j \<and> (j - (i + interval)) mod interval = 0 then ld else 0)"
      by blast+
    show ?thesis using ih(1) ih(2)[unfolded mod] "1.prems"(2) True
      unfolding e by (auto simp: nth_list_update)
  qed
qed

lemma residue_class:
  assumes "branch < (interval :: nat)"
  shows "branch \<le> j \<and> (j - branch) mod interval = 0 \<longleftrightarrow> j mod interval = branch"
proof
  assume "branch \<le> j \<and> (j - branch) mod interval = 0"
  then obtain q where "j = branch + interval * q" by (metis le_add_diff_inverse dvd_eq_mod_eq_0 dvdE)
  then show "j mod interval = branch" using assms by simp
next
  assume j: "j mod interval = branch"
  then have "branch \<le> j" by (metis mod_less_eq_dividend)
  moreover have "j - branch = interval * (j div interval)" using j minus_mod_eq_mult_div by blast
  ultimately show "branch \<le> j \<and> (j - branch) mod interval = 0" by simp
qed

lemma add_load_class:
  assumes "branch < interval" "length l = N_INTS"
  shows "length (add_load interval branch ld l) = N_INTS"
    "j < N_INTS \<Longrightarrow> add_load interval branch ld l ! j = l ! j + (if j mod interval = branch then ld else 0)"
  using add_load_effect[OF _ assms(2), of interval branch ld] assms(1) residue_class[OF assms(1)] by auto

lemma least_loaded_Suc:
  "least_loaded l (Suc n) = (if l ! n < l ! least_loaded l n then n else least_loaded l n)"
  by (simp add: least_loaded_def)

lemma least_loaded_least:
  "least_loaded l (Suc n) < Suc n \<and> (\<forall>i < Suc n. l ! least_loaded l (Suc n) \<le> l ! i)"
proof (induction n)
  case 0
  then show ?case by (simp add: least_loaded_Suc) (simp add: least_loaded_def)
next
  case (Suc n)
  then show ?case unfolding least_loaded_Suc[of l "Suc n"] by (auto simp: less_Suc_eq dest: order_trans)
qed

text \<open>C31. \<open>ep_int_ballance\<close> puts an endpoint of interval \<open>2^k\<close> into the branch of a least loaded
  slot: the branch is below the interval, its class contains a slot no busier than any of the 32,
  and exactly the slots of that class get the load.\<close>

theorem ep_int_ballance_least:
  assumes "length l = N_INTS" "0 < interval" "interval \<le> N_INTS" "interval dvd N_INTS"
    and "ep_int_ballance interval ld l = (branch, l')"
  shows "branch < interval \<and> length l' = N_INTS \<and>
    (\<exists>j < N_INTS. j mod interval = branch \<and> (\<forall>i < N_INTS. l ! j \<le> l ! i)) \<and>
    (\<forall>j < N_INTS. l' ! j = l ! j + (if j mod interval = branch then ld else 0))"
proof -
  let ?m = "least_loaded l N_INTS"
  have b: "branch = ?m mod interval" "l' = add_load interval branch ld l"
    using assms(5) by (auto simp: ep_int_ballance_def Let_def)
  have m: "?m < N_INTS" "\<forall>i < N_INTS. l ! ?m \<le> l ! i"
    using least_loaded_least[of l 31] by (simp_all add: N_INTS_def)
  have lt: "branch < interval" using b(1) assms(2) by simp
  have "length l' = N_INTS" "\<forall>j < N_INTS. l' ! j = l ! j + (if j mod interval = branch then ld else 0)"
    using add_load_class[OF lt assms(1), where ld = ld] unfolding b(2)[symmetric] by blast+
  then show ?thesis using lt m b(1) by blast
qed

theorem ep_int_ballance_least_witness:
  "fst (ep_int_ballance 8 5 ((replicate 32 7)[13 := 3])) < 8"
proof -
  have "length ((replicate 32 7)[13 := 3 :: int]) = N_INTS" "(0::nat) < 8" "8 \<le> N_INTS" "8 dvd N_INTS"
    by (simp_all add: N_INTS_def)
  from ep_int_ballance_least[OF this, of 5] show ?thesis
    by (cases "ep_int_ballance 8 5 ((replicate 32 7)[13 := 3])") simp
qed

section \<open>Slots and loads agree\<close>

text \<open>The slots that \<open>ep_link\<close> starts from for an endpoint of the given branch and interval.\<close>

definition link_slots :: "nat \<Rightarrow> nat \<Rightarrow> nat set" where
  "link_slots interval branch = (\<lambda>i. ep_rev 5 i + branch) ` {..<ep_rev 6 interval}"

lemma ep_rev_power: "k \<le> 5 \<Longrightarrow> ep_rev 6 (2 ^ k) = 2 ^ (5 - k)"
  by (rule bit_eqI) (auto simp: bit_ep_rev bit_exp_iff)

lemma bit_below: "i < 2 ^ m \<Longrightarrow> m \<le> j \<Longrightarrow> \<not> bit (i :: nat) j"
  by (metis bit_take_bit_iff leD take_bit_nat_eq_self)

lemma dvd_bits: "2 ^ k dvd (x :: nat) \<longleftrightarrow> (\<forall>j < k. \<not> bit x j)"
proof -
  have "2 ^ k dvd x \<longleftrightarrow> take_bit k x = 0" by (simp add: take_bit_eq_0_iff)
  also have "\<dots> \<longleftrightarrow> (\<forall>j < k. \<not> bit x j)" by (auto simp: bit_eq_iff bit_take_bit_iff)
  finally show ?thesis .
qed

text \<open>The table slots from which \<open>ep_link\<close> enters the chains for an interrupt endpoint are
  exactly the slots whose load \<open>ep_int_ballance\<close> raised: stepping through the bit-reversed indices
  visits the residue class of the branch, and stays inside the table of 32.\<close>

theorem link_slots_class:
  assumes "k \<le> 5" "branch < 2 ^ k"
  shows "link_slots (2 ^ k) branch = {j. j < N_INTS \<and> j mod 2 ^ k = branch}"
proof (intro equalityI subsetI)
  have p: "(2::nat) ^ 5 = 2 ^ k * 2 ^ (5 - k)" using assms(1) by (simp flip: power_add)
  fix j
  {
    assume "j \<in> link_slots (2 ^ k) branch"
    then obtain i where i: "i < 2 ^ (5 - k)" "j = ep_rev 5 i + branch"
      using assms(1) by (auto simp: link_slots_def ep_rev_power)
    have "2 ^ k dvd ep_rev 5 i"
      unfolding dvd_bits using bit_below[OF i(1)] by (auto simp: bit_ep_rev)
    then obtain q where q: "ep_rev 5 i = 2 ^ k * q" ..
    moreover have "ep_rev 5 i < 2 ^ 5" using bit_ep_rev
      by (metis (no_types, lifting) bit_eqI bit_take_bit_iff take_bit_nat_eq_self_iff)
    ultimately have "2 ^ k * q < 2 ^ k * 2 ^ (5 - k)" using p by simp
    then have "Suc q \<le> 2 ^ (5 - k)" by simp
    then have "2 ^ k * Suc q \<le> 2 ^ 5" unfolding p by (rule mult_le_mono2)
    then show "j \<in> {j. j < N_INTS \<and> j mod 2 ^ k = branch}"
      using i(2) q assms(2) by (simp add: N_INTS_def)
  next
    assume "j \<in> {j. j < N_INTS \<and> j mod 2 ^ k = branch}"
    then have j: "j < 32" "j mod 2 ^ k = branch" by (simp_all add: N_INTS_def)
    let ?x = "j - branch"
    have x: "2 ^ k dvd ?x" "j = ?x + branch" using j(2) by (auto simp: minus_mod_eq_mult_div)
    have rr: "ep_rev 5 (ep_rev 5 ?x) = ?x"
    proof (rule bit_eqI)
      fix m
      have "?x < 2 ^ 5" using j(1) by simp
      then have "bit ?x m \<Longrightarrow> m < 5" using bit_below[of ?x 5 m] by fastforce
      then show "bit (ep_rev 5 (ep_rev 5 ?x)) m \<longleftrightarrow> bit ?x m" by (auto simp: bit_ep_rev)
    qed
    have "take_bit (5 - k) (ep_rev 5 ?x) = ep_rev 5 ?x"
    proof (rule bit_eqI)
      fix m
      have "n < 5 - k" if "n < 5" "bit ?x (4 - n)" for n
      proof (rule ccontr)
        assume "\<not> n < 5 - k"
        with that(1) have "4 - n < k" by linarith
        with that(2) x(1) show False unfolding dvd_bits by blast
      qed
      then show "bit (take_bit (5 - k) (ep_rev 5 ?x)) m \<longleftrightarrow> bit (ep_rev 5 ?x) m"
        by (auto simp: bit_take_bit_iff bit_ep_rev)
    qed
    then have "ep_rev 5 ?x < 2 ^ (5 - k)" by (simp add: take_bit_nat_eq_self_iff)
    then show "j \<in> link_slots (2 ^ k) branch"
      using rr x(2) assms(1) unfolding link_slots_def ep_rev_power[OF assms(1)]
      by (intro image_eqI[of _ _ "ep_rev 5 ?x"]) simp_all
  }
qed

theorem link_slots_class_witness: "link_slots 8 3 = {j. j < N_INTS \<and> j mod 8 = 3}"
  using link_slots_class[of 3 3] by simp

end
