(* ===== verification/Ohci_Base.thy ===== *)
theory Ohci_Base
  imports Urb Ohci_Sched
begin

text \<open>
  The parts of \<open>portable-ohci.h\<close> that all of the driver uses: the controller's registers and
  their masks, the transfer descriptor fields and condition codes, and the driver's description of a
  controller (\<open>struct ohci\<close>).

  The controller itself is hardware. What the driver does to it is the trace \<open>io\<close> of register
  accesses and delays (with the calls of completion handlers, of the dumper's two entry points and of
  \<open>wake_up\<close> in between); what it answers is a parameter \<open>hw\<close> of the operations, a function from the
  trace so far and the register that is read to the value read. Nothing is assumed about it, so a
  register may change between any two reads.
\<close>

section \<open>Registers\<close>

text \<open>\<open>struct ohci_regs\<close>. \<open>Rh_portstatus i\<close> is \<open>portstatus[i]\<close>; the source computes \<open>i\<close>
  without a bound, so it is an integer.\<close>

datatype ohci_reg =
    Revision | Control | Cmdstatus | Intrstatus | Intrenable | Intrdisable
  | Hcca_addr | Ed_periodcurrent | Ed_controlhead | Ed_controlcurrent | Ed_bulkhead | Ed_bulkcurrent
  | Donehead | Fminterval | Fmremaining | Fmnumber | Periodicstart | Lsthresh
  | Rh_a | Rh_b | Rh_status | Rh_portstatus int

definition MAX_ROOT_PORTS :: nat where "MAX_ROOT_PORTS = 15"

subsection \<open>Control and status masks\<close>

definition OHCI_CTRL_CBSR :: u32 where [simp]: "OHCI_CTRL_CBSR = 0x3"
definition OHCI_CTRL_PLE :: u32 where [simp]: "OHCI_CTRL_PLE = 0x4"
definition OHCI_CTRL_IE :: u32 where [simp]: "OHCI_CTRL_IE = 0x8"
definition OHCI_CTRL_CLE :: u32 where [simp]: "OHCI_CTRL_CLE = 0x10"
definition OHCI_CTRL_BLE :: u32 where [simp]: "OHCI_CTRL_BLE = 0x20"
definition OHCI_CTRL_HCFS :: u32 where [simp]: "OHCI_CTRL_HCFS = 0xC0"
definition OHCI_CTRL_IR :: u32 where [simp]: "OHCI_CTRL_IR = 0x100"

definition OHCI_USB_RESET :: u32 where [simp]: "OHCI_USB_RESET = 0x00"
definition OHCI_USB_RESUME :: u32 where [simp]: "OHCI_USB_RESUME = 0x40"
definition OHCI_USB_OPER :: u32 where [simp]: "OHCI_USB_OPER = 0x80"
definition OHCI_USB_SUSPEND :: u32 where [simp]: "OHCI_USB_SUSPEND = 0xC0"

definition OHCI_CONTROL_INIT :: u32 where [simp]:
  "OHCI_CONTROL_INIT = (OHCI_CTRL_CBSR AND 0x3) OR OHCI_CTRL_BLE OR OHCI_CTRL_CLE OR OHCI_CTRL_IE OR OHCI_CTRL_PLE"

definition OHCI_HCR :: u32 where [simp]: "OHCI_HCR = 0x1"
definition OHCI_CLF :: u32 where [simp]: "OHCI_CLF = 0x2"
definition OHCI_BLF :: u32 where [simp]: "OHCI_BLF = 0x4"
definition OHCI_OCR :: u32 where [simp]: "OHCI_OCR = 0x8"

definition OHCI_INTR_SO :: u32 where [simp]: "OHCI_INTR_SO = 0x1"
definition OHCI_INTR_WDH :: u32 where [simp]: "OHCI_INTR_WDH = 0x2"
definition OHCI_INTR_SF :: u32 where [simp]: "OHCI_INTR_SF = 0x4"
definition OHCI_INTR_UE :: u32 where [simp]: "OHCI_INTR_UE = 0x10"
definition OHCI_INTR_MIE :: u32 where [simp]: "OHCI_INTR_MIE = 0x80000000"

subsection \<open>Root hub masks\<close>

definition RH_PS_CCS :: u32 where [simp]: "RH_PS_CCS = 0x00000001"
definition RH_PS_PES :: u32 where [simp]: "RH_PS_PES = 0x00000002"
definition RH_PS_PSS :: u32 where [simp]: "RH_PS_PSS = 0x00000004"
definition RH_PS_POCI :: u32 where [simp]: "RH_PS_POCI = 0x00000008"
definition RH_PS_PRS :: u32 where [simp]: "RH_PS_PRS = 0x00000010"
definition RH_PS_PPS :: u32 where [simp]: "RH_PS_PPS = 0x00000100"
definition RH_PS_LSDA :: u32 where [simp]: "RH_PS_LSDA = 0x00000200"
definition RH_PS_CSC :: u32 where [simp]: "RH_PS_CSC = 0x00010000"
definition RH_PS_PESC :: u32 where [simp]: "RH_PS_PESC = 0x00020000"
definition RH_PS_PSSC :: u32 where [simp]: "RH_PS_PSSC = 0x00040000"
definition RH_PS_OCIC :: u32 where [simp]: "RH_PS_OCIC = 0x00080000"
definition RH_PS_PRSC :: u32 where [simp]: "RH_PS_PRSC = 0x00100000"

definition RH_HS_DRWE :: u32 where [simp]: "RH_HS_DRWE = 0x00008000"
definition RH_HS_LPSC :: u32 where [simp]: "RH_HS_LPSC = 0x00010000"
definition RH_HS_OCIC :: u32 where [simp]: "RH_HS_OCIC = 0x00020000"
definition RH_HS_CRWE :: u32 where [simp]: "RH_HS_CRWE = 0x80000000"

definition RH_B_DR :: u32 where [simp]: "RH_B_DR = 0x0000ffff"
definition RH_A_NDP :: u32 where [simp]: "RH_A_NDP = 0xff"
definition RH_A_PSM :: u32 where [simp]: "RH_A_PSM = 0x100"
definition RH_A_NPS :: u32 where [simp]: "RH_A_NPS = 0x200"
definition RH_A_OCPM :: u32 where [simp]: "RH_A_OCPM = 0x800"
definition RH_A_NOCP :: u32 where [simp]: "RH_A_NOCP = 0x1000"
definition RH_A_POTPGT :: u32 where [simp]: "RH_A_POTPGT = 0xff000000"

section \<open>Accesses\<close>

datatype io_event =
    Rd ohci_reg u32
  | Wr ohci_reg u32
  | Delay_us nat
  | Complete addr
  | Dump_submit addr
  | Dump_return addr
  | Wake_up

text \<open>What the hardware answers.\<close>

type_synonym hw = "io_event list \<Rightarrow> ohci_reg \<Rightarrow> u32"

text \<open>A transfer descriptor or endpoint descriptor pointer is its bus address, 0 is \<open>NULL\<close>:
  \<open>virt_to_bus\<close> and \<open>bus_to_virt\<close> are inverse to each other on descriptors.\<close>

type_synonym desc = u32

record ohci =
  io :: "io_event list"
  int_table :: "desc list"
  frame_no :: u16
  done_head :: u32
  irq :: int
  disabled :: nat
  ohci_int_load :: "int list"
  ed_rm_list :: "desc list"
  ed_bulktail :: desc
  ed_controltail :: desc
  ed_isotail :: desc
  hc_control :: u32
  rh_devnum :: u32
  rh_urb :: addr
  rh_send :: bool
  rh_interval :: u32
  rh_timer :: "u32 option"
  olog :: "kmsg list"

definition readl :: "hw \<Rightarrow> ohci_reg \<Rightarrow> 'a ohci_scheme \<Rightarrow> u32 \<times> 'a ohci_scheme" where
  "readl hw r s = (let v = hw (io s) r in (v, s\<lparr>io := io s @ [Rd r v]\<rparr>))"

definition writel :: "u32 \<Rightarrow> ohci_reg \<Rightarrow> 'a ohci_scheme \<Rightarrow> 'a ohci_scheme" where
  "writel v r s = s\<lparr>io := io s @ [Wr r v]\<rparr>"

definition delay :: "nat \<Rightarrow> 'a ohci_scheme \<Rightarrow> 'a ohci_scheme" where
  "delay us s = s\<lparr>io := io s @ [Delay_us us]\<rparr>"

definition err_log :: "string \<Rightarrow> 'a ohci_scheme \<Rightarrow> 'a ohci_scheme" where
  "err_log t s = s\<lparr>olog := olog s @ [Printk KERN_ERR t]\<rparr>"

text \<open>The \<open>memset\<close> of \<open>hc_alloc_ohci\<close>.\<close>

definition ohci_zero :: ohci where
  "ohci_zero = \<lparr>io = [], int_table = replicate N_INTS 0, frame_no = 0, done_head = 0, irq = -1,
     disabled = 0, ohci_int_load = replicate N_INTS 0, ed_rm_list = [0, 0], ed_bulktail = 0,
     ed_controltail = 0, ed_isotail = 0, hc_control = 0, rh_devnum = 0, rh_urb = 0, rh_send = False,
     rh_interval = 0, rh_timer = None, olog = []\<rparr>"

text \<open>The writes of a trace to one register.\<close>

fun writes_to :: "ohci_reg \<Rightarrow> io_event list \<Rightarrow> u32 list" where
  "writes_to r [] = []"
| "writes_to r (Wr q v # es) = (if q = r then v # writes_to r es else writes_to r es)"
| "writes_to r (_ # es) = writes_to r es"

lemma writes_to_append [simp]: "writes_to r (a @ b) = writes_to r a @ writes_to r b"
  by (induction r a rule: writes_to.induct) auto

section \<open>Condition codes\<close>

text \<open>The status of an URB: the error numbers, or 0.\<close>

datatype status = Done | EILSEQ | EPROTO | EPIPE | ETIMEDOUT | EOVERFLOW | EREMOTEIO | ECOMM
  | EINPROGRESS | ENOENT | ECONNRESET | EXDEV

definition TD_CC_NOERROR :: nat where [simp]: "TD_CC_NOERROR = 0x00"
definition TD_CC_STALL :: nat where [simp]: "TD_CC_STALL = 0x04"
definition TD_DATAUNDERRUN :: nat where [simp]: "TD_DATAUNDERRUN = 0x09"

definition cc_to_error :: "status list" where
  "cc_to_error = [Done, EILSEQ, EPROTO, EILSEQ, EPIPE, ETIMEDOUT, EPROTO, EPROTO, EOVERFLOW, EREMOTEIO,
     ETIMEDOUT, ETIMEDOUT, ECOMM, ECOMM, ETIMEDOUT, ETIMEDOUT]"

definition TD_CC_GET :: "u32 \<Rightarrow> nat" where
  "TD_CC_GET info = unat (drop_bit 28 info AND 0x0f)"

lemma TD_CC_GET_bound: "TD_CC_GET info < length cc_to_error"
proof -
  have "drop_bit 28 info AND 0x0f \<le> (0x0f :: u32)" by (rule word_and_le1)
  then show ?thesis by (simp add: TD_CC_GET_def cc_to_error_def word_le_nat_alt)
qed

end
