(* ===== verification/Ohci_Ed.thy ===== *)
theory Ohci_Ed
  imports Ohci_Base
begin

text \<open>
  Endpoint descriptors (\<open>ep_link\<close>, \<open>ep_unlink\<close>, \<open>ep_add_ed\<close> and \<open>ep_rm_ed\<close> of
  \<open>portable-ohci-core.c\<close>). The descriptors live in memory that driver and controller share: the
  store \<open>eds\<close> maps the bus address of a descriptor to its contents, and all chains are threaded
  through it, so aliasing is what it is in the code.

  The chain of the control endpoints starts in the register \<open>ed_controlhead\<close>, that of the bulk
  endpoints in \<open>ed_bulkhead\<close>; interrupt and isochronous endpoints hang off the 32 slots of
  \<open>int_table\<close>. The code is compiled with \<open>CONFIG_PS2\<close>.
\<close>

section \<open>State\<close>

definition ED_NEW :: u8 where [simp]: "ED_NEW = 0x00"
definition ED_UNLINK :: u8 where [simp]: "ED_UNLINK = 0x01"
definition ED_OPER :: u8 where [simp]: "ED_OPER = 0x02"
definition ED_DEL :: u8 where [simp]: "ED_DEL = 0x04"
definition ED_URB_DEL :: u8 where [simp]: "ED_URB_DEL = 0x08"

definition ISO :: u8 where [simp]: "ISO = 0x00"
definition INT_ep :: u8 where [simp]: "INT_ep = 0x01"
definition CTRL :: u8 where [simp]: "CTRL = 0x02"
definition BULK :: u8 where [simp]: "BULK = 0x03"

definition OHCI_ED_SKIP :: u32 where [simp]: "OHCI_ED_SKIP = 0x4000"

record ed =
  hwINFO :: u32
  hwTailP :: u32
  hwHeadP :: u32
  hwNextED :: u32
  ed_prev :: desc
  int_period :: u8
  int_branch :: u8
  int_load :: u8
  int_interval :: u8
  state :: u8
  ed_type :: u8
  last_iso :: u16
  rm_next :: desc

record ohci_ed = ohci +
  eds :: "desc \<Rightarrow> ed"
  ed_lock :: bool
  dev_table :: "u32 \<Rightarrow> addr"

definition upd_ed :: "desc \<Rightarrow> (ed \<Rightarrow> ed) \<Rightarrow> 'a ohci_ed_scheme \<Rightarrow> 'a ohci_ed_scheme" where
  "upd_ed e f s = s\<lparr>eds := (eds s)(e := f (eds s e))\<rparr>"

text \<open>What the source's \<open>ed_p\<close> points to: a slot of the table, or the next pointer of an ED.\<close>

datatype link_ptr = Slot nat | Next desc

fun read_ptr :: "link_ptr \<Rightarrow> 'a ohci_ed_scheme \<Rightarrow> desc" where
  "read_ptr (Slot i) s = int_table s ! i"
| "read_ptr (Next e) s = hwNextED (eds s e)"

fun write_ptr :: "link_ptr \<Rightarrow> desc \<Rightarrow> 'a ohci_ed_scheme \<Rightarrow> 'a ohci_ed_scheme" where
  "write_ptr (Slot i) v s = s\<lparr>int_table := (int_table s)[i := v]\<rparr>"
| "write_ptr (Next e) v s = upd_ed e (hwNextED_update (\<lambda>_. v)) s"

section \<open>Linking\<close>

text \<open>At the end of the control or bulk chain, whose last ED is \<open>tail\<close>.\<close>

definition link_last :: "ohci_reg \<Rightarrow> desc \<Rightarrow> desc \<Rightarrow> 'a ohci_ed_scheme \<Rightarrow> 'a ohci_ed_scheme" where
  "link_last head tail e s =
     upd_ed e (ed_prev_update (\<lambda>_. tail))
       (if tail = 0 then writel e head s else upd_ed tail (hwNextED_update (\<lambda>_. e)) s)"

text \<open>The inner loop: pass all EDs of at least the given interval. The result is the pointer to
  change and \<open>inter\<close>, the number of slots that share it; there is none if the chain is cyclic.\<close>

partial_function (option) link_walk ::
  "'a ohci_ed_scheme \<Rightarrow> nat \<Rightarrow> link_ptr \<Rightarrow> nat \<Rightarrow> (link_ptr \<times> nat) option" where
  "link_walk s interval p period =
     (let q = read_ptr p s in
      if q \<noteq> 0 \<and> interval \<le> unat (int_interval (eds s q))
      then link_walk s interval (Next q) (ep_rev 6 (unat (int_interval (eds s q))))
      else Some (p, period))"

partial_function (option) link_int ::
  "desc \<Rightarrow> nat \<Rightarrow> nat \<Rightarrow> nat \<Rightarrow> 'a ohci_ed_scheme \<Rightarrow> 'a ohci_ed_scheme option" where
  "link_int e interval branch i s =
     (if i < ep_rev 6 interval
      then Option.bind (link_walk s interval (Slot (ep_rev 5 i + branch)) 1) (\<lambda>(p, n).
        link_int e interval branch (i + n)
          (write_ptr p e (upd_ed e (hwNextED_update (\<lambda>_. read_ptr p s)) s)))
      else Some s)"

partial_function (option) link_iso ::
  "desc \<Rightarrow> nat \<Rightarrow> 'a ohci_ed_scheme \<Rightarrow> 'a ohci_ed_scheme option" where
  "link_iso e i s =
     (if i < 32
      then Option.bind (link_walk s 0 (Slot (ep_rev 5 i)) 1) (\<lambda>(p, n). link_iso e (i + n) (write_ptr p e s))
      else Some s)"

text \<open>The result is \<open>None\<close> when a walk never ends.\<close>

definition ep_link :: "desc \<Rightarrow> 'a ohci_ed_scheme \<Rightarrow> 'a ohci_ed_scheme option" where
  "ep_link e s0 =
     (let s = upd_ed e (\<lambda>d. d\<lparr>state := ED_OPER, hwNextED := 0\<rparr>) s0; t = ed_type (eds s e) in
      if t = CTRL then Some ((link_last Ed_controlhead (ed_controltail s) e s)\<lparr>ed_controltail := e\<rparr>)
      else if t = BULK then Some ((link_last Ed_bulkhead (ed_bulktail s) e s)\<lparr>ed_bulktail := e\<rparr>)
      else if t = INT_ep
      then (let ld = int (unat (int_load (eds s e)));
                interval = ep_2_n_interval (unat (int_period (eds s e)));
                (branch, loads) = ep_int_ballance interval ld (ohci_int_load s) in
        link_int e interval branch 0
          (upd_ed e (\<lambda>d. d\<lparr>int_interval := of_nat interval, int_branch := of_nat branch\<rparr>)
            (s\<lparr>ohci_int_load := loads\<rparr>)))
      else if t = ISO
      then (let s1 = upd_ed e (int_interval_update (\<lambda>_. 1)) s in
        map_option (\<lambda>s2. s2\<lparr>ed_isotail := e\<rparr>)
          (if ed_isotail s1 \<noteq> 0
           then Some (upd_ed e (ed_prev_update (\<lambda>_. ed_isotail s1))
                  (upd_ed (ed_isotail s1) (hwNextED_update (\<lambda>_. e)) s1))
           else map_option (upd_ed e (ed_prev_update (\<lambda>_. 0))) (link_iso e 0 s1)))
      else Some s)"

section \<open>Unlinking\<close>

text \<open>Out of the control or bulk chain; the result is the new tail.\<close>

definition unlink_chain :: "ohci_reg \<Rightarrow> desc \<Rightarrow> desc \<Rightarrow> 'a ohci_ed_scheme \<Rightarrow> desc \<times> 'a ohci_ed_scheme" where
  "unlink_chain head tail e s =
     (let prev = ed_prev (eds s e); n = hwNextED (eds s e);
          s1 = (if prev = 0 then writel n head s else upd_ed prev (hwNextED_update (\<lambda>_. n)) s) in
      if tail = e then (ed_prev (eds s1 e), s1)
      else (tail, upd_ed (hwNextED (eds s1 e)) (ed_prev_update (\<lambda>_. ed_prev (eds s1 e))) s1))"

text \<open>The inner loop for interrupt endpoints. \<open>inter\<close> is computed after \<open>ed_p\<close> has moved on, from
  the ED that follows; where none follows the code reads it at \<open>bus_to_virt(0)\<close>, which is
  whatever the memory at bus address 0 holds: \<open>eds s 0\<close>, of which nothing is known.\<close>

partial_function (option) unlink_walk ::
  "desc \<Rightarrow> link_ptr \<Rightarrow> nat \<Rightarrow> 'a ohci_ed_scheme \<Rightarrow> (nat \<times> 'a ohci_ed_scheme) option" where
  "unlink_walk e p period s =
     (let q = read_ptr p s in
      if q \<noteq> 0 \<and> q \<noteq> hwNextED (eds s e)
      then if q = e then Some (period, write_ptr p (hwNextED (eds s e)) s)
           else unlink_walk e (Next q)
                  (ep_rev 6 (unat (int_interval (eds s (hwNextED (eds s q)))))) s
      else Some (period, s))"

partial_function (option) unlink_int ::
  "desc \<Rightarrow> nat \<Rightarrow> nat \<Rightarrow> nat \<Rightarrow> 'a ohci_ed_scheme \<Rightarrow> 'a ohci_ed_scheme option" where
  "unlink_int e interval branch i s =
     (if i < ep_rev 6 interval
      then Option.bind (unlink_walk e (Slot (ep_rev 5 i + branch)) 1 s) (\<lambda>(n, t).
        unlink_int e interval branch (i + n) t)
      else Some s)"

partial_function (option) unlink_iso_walk ::
  "desc \<Rightarrow> link_ptr \<Rightarrow> 'a ohci_ed_scheme \<Rightarrow> 'a ohci_ed_scheme option" where
  "unlink_iso_walk e p s =
     (let q = read_ptr p s in
      if q \<noteq> 0
      then if q = e then Some (write_ptr p (hwNextED (eds s e)) s) else unlink_iso_walk e (Next q) s
      else Some s)"

fun unlink_iso :: "desc \<Rightarrow> nat list \<Rightarrow> 'a ohci_ed_scheme \<Rightarrow> 'a ohci_ed_scheme option" where
  "unlink_iso e [] s = Some s"
| "unlink_iso e (i # is) s = Option.bind (unlink_iso_walk e (Slot (ep_rev 5 i)) s) (unlink_iso e is)"

definition ep_unlink :: "desc \<Rightarrow> 'a ohci_ed_scheme \<Rightarrow> 'a ohci_ed_scheme option" where
  "ep_unlink e s0 =
     (let s = upd_ed e (\<lambda>d. d\<lparr>hwINFO := hwINFO d OR OHCI_ED_SKIP\<rparr>) s0; d = eds s e; t = ed_type d in
      map_option (upd_ed e (state_update (\<lambda>_. ED_UNLINK)))
        (if t = CTRL
         then (let (tail, s1) = unlink_chain Ed_controlhead (ed_controltail s) e s in
           Some (s1\<lparr>ed_controltail := tail\<rparr>))
         else if t = BULK
         then (let (tail, s1) = unlink_chain Ed_bulkhead (ed_bulktail s) e s in
           Some (s1\<lparr>ed_bulktail := tail\<rparr>))
         else if t = INT_ep
         then (let branch = unat (int_branch d); interval = unat (int_interval d) in
           if interval = 0 then None else map_option (\<lambda>s1. s1\<lparr>ohci_int_load := add_load interval branch (- int (unat (int_load d))) (ohci_int_load s1)\<rparr>)
             (unlink_int e interval branch 0 s))
         else if t = ISO
         then (let s1 = (if ed_isotail s = e then s\<lparr>ed_isotail := ed_prev d\<rparr> else s);
                   s2 = (if hwNextED d \<noteq> 0 then upd_ed (hwNextED d) (ed_prev_update (\<lambda>_. ed_prev d)) s1 else s1) in
           if ed_prev d \<noteq> 0 then Some (upd_ed (ed_prev d) (hwNextED_update (\<lambda>_. hwNextED (eds s2 e))) s2)
           else unlink_iso e [0..<32] s2)
         else Some s))"

declare link_walk.simps [code] link_int.simps [code] link_iso.simps [code]
  unlink_walk.simps [code] unlink_int.simps [code] unlink_iso_walk.simps [code]

section \<open>Adding and removing endpoints\<close>

text \<open>The pipe macros of \<open>linux/usb.h\<close> that only this part uses.\<close>

record penv = kenv +
  usb_pipecontrol :: "u32 \<Rightarrow> u32"
  usb_pipeisoc :: "u32 \<Rightarrow> u32"
  usb_pipeslow :: "u32 \<Rightarrow> u32"
  usb_maxpacket :: "u32 \<Rightarrow> u32 \<Rightarrow> u32"

text \<open>\<open>struct ohci_device\<close>: the addresses of its 32 EDs, and \<open>ed_cnt\<close>.\<close>

definition NUM_EDS :: nat where "NUM_EDS = 32"

record ohci_device =
  dev_eds :: "desc list"
  ed_cnt :: int

definition ed_index :: "penv \<Rightarrow> u32 \<Rightarrow> nat" where
  "ed_index K pipe = unat (push_bit 1 (usb_pipeendpoint K pipe) OR
     (if usb_pipecontrol K pipe \<noteq> 0 then 0 else usb_pipeout K pipe))"

definition ed_info :: "penv \<Rightarrow> u32 \<Rightarrow> u32" where
  "ed_info K pipe = usb_pipedevice K pipe OR push_bit 7 (usb_pipeendpoint K pipe) OR
     (if usb_pipeisoc K pipe \<noteq> 0 then 0x8000 else 0) OR
     (if usb_pipecontrol K pipe \<noteq> 0 then 0 else if usb_pipeout K pipe \<noteq> 0 then 0x800 else 0x1000) OR
     push_bit 13 (usb_pipeslow K pipe) OR push_bit 16 (usb_maxpacket K pipe (usb_pipeout K pipe))"

text \<open>\<open>spin_lock\<close> on a lock that is held never returns (on a uniprocessor kernel it is empty).
  \<open>td\<close> is the answer of \<open>AllocLocalMem\<close>, \<open>up\<close> the address of the \<open>usb_device\<close>. The result is the
  ED, 0 for \<open>NULL\<close>, or \<open>None\<close> for the deadlock.\<close>

definition ep_add_ed ::
  "penv \<Rightarrow> desc \<Rightarrow> addr \<Rightarrow> u32 \<Rightarrow> u32 \<Rightarrow> u8 \<Rightarrow> ohci_device \<Rightarrow> 'a ohci_ed_scheme \<Rightarrow>
   (desc \<times> ohci_device \<times> 'a ohci_ed_scheme) option" where
  "ep_add_ed K td up pipe interval ld dev s0 =
     (if ed_lock s0 then None
      else let s = s0\<lparr>ed_lock := True\<rparr>; e = dev_eds dev ! ed_index K pipe in
        if state (eds s e) AND ED_DEL \<noteq> 0 \<or> state (eds s e) AND ED_URB_DEL \<noteq> 0 then Some (0, dev, s)
        else if state (eds s e) = ED_NEW \<and> td = 0
        then Some (0, dev, upd_ed e (hwINFO_update (\<lambda>_. OHCI_ED_SKIP)) s)
        else let fresh = (state (eds s e) = ED_NEW);
                 s1 = (if fresh
                       then upd_ed e (\<lambda>d. d\<lparr>hwINFO := OHCI_ED_SKIP, hwTailP := td, hwHeadP := td, state := ED_UNLINK,
                              ed_type := ucast (usb_pipetype K pipe)\<rparr>) s
                       else s);
                 dev1 = (if fresh then dev\<lparr>ed_cnt := ed_cnt dev + 1\<rparr> else dev);
                 s2 = s1\<lparr>dev_table := (dev_table s1)(usb_pipedevice K pipe := up)\<rparr>;
                 s3 = upd_ed e (hwINFO_update (\<lambda>_. ed_info K pipe)) s2;
                 s4 = (if ed_type (eds s3 e) = INT_ep \<and> state (eds s3 e) = ED_UNLINK
                       then upd_ed e (\<lambda>d. d\<lparr>int_period := ucast interval, int_load := ld\<rparr>) s3 else s3) in
          Some (e, dev1, s4\<lparr>ed_lock := False\<rparr>))"

definition ep_rm_ed :: "desc \<Rightarrow> 'a ohci_ed_scheme \<Rightarrow> 'a ohci_ed_scheme" where
  "ep_rm_ed e s0 =
     (if state (eds s0 e) AND ED_DEL \<noteq> 0 \<or> state (eds s0 e) AND ED_URB_DEL \<noteq> 0 then s0
      else let s1 = writel OHCI_INTR_SF Intrenable (writel OHCI_INTR_SF Intrstatus
                 (upd_ed e (\<lambda>d. d\<lparr>hwINFO := hwINFO d OR OHCI_ED_SKIP\<rparr>) s0));
               frame = unat (frame_no s1 AND 1);
               s2 = (upd_ed e (rm_next_update (\<lambda>_. ed_rm_list s1 ! frame)) s1)
                      \<lparr>ed_rm_list := (ed_rm_list s1)[frame := e]\<rparr>;
               t = ed_type (eds s2 e) in
        if t = CTRL
        then (let c = hc_control s2 AND NOT OHCI_CTRL_CLE in writel c Control (s2\<lparr>hc_control := c\<rparr>))
        else if t = BULK
        then (let c = hc_control s2 AND NOT OHCI_CTRL_BLE in writel c Control (s2\<lparr>hc_control := c\<rparr>))
        else s2)"

end
