(* ===== verification/Portable_Urb.thy ===== *)
theory Portable_Urb
  imports Urb
begin

text \<open>
  The DMA staging of the PS2 port (\<open>Portable_PrepareUrbOnSubmit\<close>,
  \<open>Portable_PrepareUrbOnReturn\<close>, \<open>Portable_FreeUrb\<close> and \<open>QuadCopy\<close> of
  \<open>portable-ohci-ps2.c\<close>): the controller can reach IOP memory only, so the transfer buffer
  and the setup packet of an URB are copied into allocator blocks on submit and back on return.
  The state is the allocator and the memory; \<open>Portable_Extra_t\<close> is the record \<open>px\<close>.
\<close>

section \<open>State and operations\<close>

record px =
  px_transfer_buffer :: addr
  px_setup_packet :: addr

record dma =
  dma_lm :: local_mem
  dma_mem :: memory

datatype port_err = Mem_err mem_err | No_return

definition QUAD_COPY_CHUNK_SIZE :: u32 where "QUAD_COPY_CHUNK_SIZE = 64"

text \<open>
  The assembler loop of \<open>QuadCopy\<close>: four quadwords are loaded and stored, both pointers advance
  by 64, and the loop goes on while \<open>pSrc != pEnd\<close>.
\<close>

partial_function (option) quad_loop :: "addr \<Rightarrow> addr \<Rightarrow> addr \<Rightarrow> memory \<Rightarrow> memory option" where
  "quad_loop dst src pend m =
     (if src + 64 \<noteq> pend then quad_loop (dst + 64) (src + 64) pend (memcpy dst src 64 m)
      else Some (memcpy dst src 64 m))"

definition QuadCopy :: "addr \<Rightarrow> addr \<Rightarrow> u32 \<Rightarrow> memory \<Rightarrow> memory option" where
  "QuadCopy dst src uBytes m = quad_loop dst src (src + uint uBytes) m"

text \<open>\<open>uBytes\<close> of the aligned case.\<close>

definition quad_bytes :: "u32 \<Rightarrow> u32" where
  "quad_bytes len = (len + QUAD_COPY_CHUNK_SIZE) AND NOT (QUAD_COPY_CHUNK_SIZE - 1)"

text \<open>The first half of \<open>Portable_PrepareUrbOnSubmit\<close>: the transfer buffer.\<close>

definition prepare_data ::
  "(u32 \<Rightarrow> addr) \<Rightarrow> alloc_in \<Rightarrow> urb \<Rightarrow> px \<Rightarrow> dma \<Rightarrow> port_err + (errno option \<times> px \<times> dma)" where
  "prepare_data b2v e u p st =
     (if urb_transfer_buffer_length u \<noteq> 0
      then
        (if urb_transfer_buffer u AND 0x1f = 0
         then (let uBytes = quad_bytes (urb_transfer_buffer_length u) in
           case AllocLocalMem b2v e (sint uBytes) (dma_lm st) of
             Inl x \<Rightarrow> Inl (Mem_err x)
           | Inr (None, l) \<Rightarrow>
               Inr (Some ENOMEM, p\<lparr>px_transfer_buffer := 0\<rparr>, st\<lparr>dma_lm := l\<rparr>)
           | Inr (Some q, l) \<Rightarrow>
               (case QuadCopy q (urb_transfer_buffer u) uBytes (dma_mem st) of
                  None \<Rightarrow> Inl No_return
                | Some m \<Rightarrow> Inr (None, p\<lparr>px_transfer_buffer := q\<rparr>, st\<lparr>dma_lm := l, dma_mem := m\<rparr>)))
         else
           (case AllocLocalMem b2v e (sint (urb_transfer_buffer_length u)) (dma_lm st) of
             Inl x \<Rightarrow> Inl (Mem_err x)
           | Inr (None, l) \<Rightarrow>
               Inr (Some ENOMEM, p\<lparr>px_transfer_buffer := 0\<rparr>, st\<lparr>dma_lm := l\<rparr>)
           | Inr (Some q, l) \<Rightarrow>
               Inr (None, p\<lparr>px_transfer_buffer := q\<rparr>, st\<lparr>dma_lm := l,
                 dma_mem := memcpy q (urb_transfer_buffer u) (uint (urb_transfer_buffer_length u))
                   (dma_mem st)\<rparr>)))
      else Inr (None, p, st))"

text \<open>The second half: the setup packet. The 64-bit move and the \<open>memcpy\<close> copy the same 8 bytes.\<close>

definition prepare_setup ::
  "(u32 \<Rightarrow> addr) \<Rightarrow> alloc_in \<Rightarrow> urb \<Rightarrow> px \<Rightarrow> dma \<Rightarrow> port_err + (errno option \<times> px \<times> dma)" where
  "prepare_setup b2v e u p st =
     (if urb_setup_packet u \<noteq> 0
      then (case AllocLocalMem b2v e 8 (dma_lm st) of
              Inl x \<Rightarrow> Inl (Mem_err x)
            | Inr (None, l) \<Rightarrow> Inr (Some ENOMEM, p\<lparr>px_setup_packet := 0\<rparr>, st\<lparr>dma_lm := l\<rparr>)
            | Inr (Some q, l) \<Rightarrow>
                Inr (None, p\<lparr>px_setup_packet := q\<rparr>, st\<lparr>dma_lm := l,
                  dma_mem := memcpy q (urb_setup_packet u) 8 (dma_mem st)\<rparr>))
      else Inr (None, p, st))"

definition Portable_PrepareUrbOnSubmit ::
  "(u32 \<Rightarrow> addr) \<Rightarrow> alloc_in \<Rightarrow> alloc_in \<Rightarrow> urb \<Rightarrow> px \<Rightarrow> dma \<Rightarrow>
   port_err + (errno option \<times> px \<times> dma)" where
  "Portable_PrepareUrbOnSubmit b2v e1 e2 u p st =
     (case prepare_data b2v e1 u p st of
        Inl x \<Rightarrow> Inl x
      | Inr (Some err, p1, st1) \<Rightarrow> Inr (Some err, p1, st1)
      | Inr (None, p1, st1) \<Rightarrow> prepare_setup b2v e2 u p1 st1)"

definition Portable_PrepareUrbOnReturn :: "kenv \<Rightarrow> urb \<Rightarrow> px \<Rightarrow> dma \<Rightarrow> dma" where
  "Portable_PrepareUrbOnReturn K u p st =
     (if usb_pipein K (urb_pipe u) \<noteq> 0 \<and> urb_actual_length u \<noteq> 0
      then st\<lparr>dma_mem := memcpy (urb_transfer_buffer u) (px_transfer_buffer p)
                (uint (urb_actual_length u)) (dma_mem st)\<rparr>
      else st)"

definition Portable_FreeUrb :: "px \<Rightarrow> dma \<Rightarrow> px \<times> dma" where
  "Portable_FreeUrb p st =
     (let l1 = snd (FreeLocalMem (px_transfer_buffer p) (dma_lm st));
          l2 = snd (FreeLocalMem (px_setup_packet p) l1) in
      (p\<lparr>px_transfer_buffer := 0, px_setup_packet := 0\<rparr>, st\<lparr>dma_lm := l2\<rparr>))"

section \<open>Sizes\<close>

lemma and_not_mask: "x AND NOT (mask k) = push_bit k (drop_bit k x)" for x :: u32
  by (rule bit_eqI) (auto simp: bit_simps)

lemma and_not_63: "x AND - 64 = x - x mod 64" for x :: u32
proof -
  have "(- 64 :: u32) = NOT (mask 6)"
    using minus_exp_eq_not_mask[of 6, where 'a = u32] by simp
  then have "x AND - 64 = push_bit 6 (drop_bit 6 x)"
    by (simp only: and_not_mask)
  moreover have "push_bit 6 (drop_bit 6 x) + x mod 64 = x"
    using bits_ident[of 6 x] by (simp add: take_bit_eq_mod)
  ultimately show ?thesis by (metis add_diff_cancel_right')
qed

lemma and_not_63': "x AND NOT (64 - 1) = x - x mod 64" for x :: u32
  using and_not_63 by simp

lemma unat_minus_mod_64: "unat (x - x mod 64 :: u32) = unat x - unat x mod 64"
proof -
  have "x mod 64 \<le> x" by (simp add: word_le_nat_alt unat_mod)
  then show ?thesis by (simp add: unat_sub unat_mod)
qed

lemma round_64: "a + 64 - (a + 64) mod 64 = (a div 64 + 1) * (64 :: nat)"
proof -
  define q r where "q = a div 64" and "r = a mod 64"
  then have a: "a = 64 * q + r" and r: "r < 64" by simp_all
  have "a + 64 = 64 * (q + 1) + r" using a by simp
  then have "(a + 64) mod 64 = r" using r by (metis mod_less mod_mult_self4)
  moreover have "a div 64 = q" by (simp add: q_def)
  ultimately show ?thesis using a by simp
qed

lemma round_64_int: "int l < 64 * (int (l div 64) + 1) \<and> 64 * (int (l div 64) + 1) \<le> int l + 64"
  by (simp add: zdiv_int) presburger

lemma unat_quad_bytes:
  assumes "unat len < 2 ^ 31"
  shows "unat (quad_bytes len) = (unat len div 64 + 1) * 64"
proof -
  have "unat (len + 64) = (unat len + 64) mod 2 ^ 32"
    by (simp add: unat_word_ariths)
  then have "unat (len + 64) = unat len + 64" using assms by simp
  then show ?thesis
    by (simp only: quad_bytes_def QUAD_COPY_CHUNK_SIZE_def and_not_63' unat_minus_mod_64 round_64)
qed

lemma memcpy_chunk:
  assumes disj: "{s..<s + 64 + k} \<inter> {d..<d + 64 + k} = {}" and k: "0 \<le> k"
  shows "memcpy (d + 64) (s + 64) k (memcpy d s 64 m) = memcpy d s (64 + k) m"
proof (rule ext)
  fix a
  consider (low) "d \<le> a" "a < d + 64" | (high) "d + 64 \<le> a" "a < d + 64 + k"
    | (out) "a < d \<or> d + 64 + k \<le> a" by linarith
  then show "memcpy (d + 64) (s + 64) k (memcpy d s 64 m) a = memcpy d s (64 + k) m a"
  proof cases
    case high
    have "s + (a - d) \<in> {s..<s + 64 + k}" using high by simp
    then have "s + (a - d) \<notin> {d..<d + 64}" using disj k by auto
    then have "memcpy d s 64 m (s + (a - d)) = m (s + (a - d))"
      by (rule memcpy_out)
    let ?M = "memcpy d s 64 m"
    have "memcpy (d + 64) (s + 64) k ?M a = ?M (s + 64 + (a - (d + 64)))"
      using high by (intro memcpy_in) auto
    also have "\<dots> = ?M (s + (a - d))" by (rule arg_cong[of _ _ ?M]) simp
    also have "\<dots> = m (s + (a - d))" by fact
    also have "\<dots> = memcpy d s (64 + k) m a"
      using high by (intro memcpy_in[symmetric]) auto
    finally show ?thesis .
  qed (use k in \<open>auto simp: memcpy_def\<close>)
qed

lemma quad_loop_chunks:
  "{src..<src + 64 * (int n + 1)} \<inter> {dst..<dst + 64 * (int n + 1)} = {} \<Longrightarrow>
   quad_loop dst src (src + 64 * (int n + 1)) m = Some (memcpy dst src (64 * (int n + 1)) m)"
proof (induction n arbitrary: dst src m)
  case 0
  then show ?case by (simp add: quad_loop.simps)
next
  case (Suc n)
  let ?k = "64 * (int n + 1)"
  have eq: "src + 64 * (int (Suc n) + 1) = (src + 64) + ?k" and k: "64 * (int (Suc n) + 1) = 64 + ?k"
    by simp_all
  have disj: "{src..<src + 64 + ?k} \<inter> {dst..<dst + 64 + ?k} = {}"
    using Suc.prems unfolding eq k by (simp only: add.assoc)
  then have "{src + 64..<src + 64 + ?k} \<inter> {dst + 64..<dst + 64 + ?k} = {}" by auto
  from Suc.IH[OF this] have "quad_loop (dst + 64) (src + 64) (src + 64 + ?k) (memcpy dst src 64 m) =
      Some (memcpy dst src (64 + ?k) m)"
    by (subst memcpy_chunk[OF disj, symmetric]) simp_all
  then show ?case unfolding eq k by (subst quad_loop.simps) (simp add: add_ac)
qed

lemma quad_loop_returns: "\<exists>m'. quad_loop dst src (src + 64 * (int n + 1)) m = Some m'"
proof (induction n arbitrary: dst src m)
  case 0
  then show ?case by (simp add: quad_loop.simps)
next
  case (Suc n)
  have eq: "src + 64 * (int (Suc n) + 1) = (src + 64) + 64 * (int n + 1)" by simp
  show ?case using Suc.IH[of "dst + 64" "src + 64"]
    unfolding eq by (subst quad_loop.simps) auto
qed

lemma quad_bytes_chunks:
  assumes "unat len < 2 ^ 31"
  shows "uint (quad_bytes len) = 64 * (int (unat len div 64) + 1)"
  using unat_quad_bytes[OF assms] by (simp add: uint_nat)

section \<open>What the two halves do\<close>

text \<open>The number of bytes \<open>Portable_PrepareUrbOnSubmit\<close> asks for and copies.\<close>

definition staged_bytes :: "urb \<Rightarrow> int" where
  "staged_bytes u =
     (if urb_transfer_buffer u AND 0x1f = 0 then uint (quad_bytes (urb_transfer_buffer_length u))
      else uint (urb_transfer_buffer_length u))"

lemma staged_bytes_bounds:
  assumes "urb_transfer_buffer_length u \<noteq> 0" "unat (urb_transfer_buffer_length u) + 64 < 2 ^ 31"
  shows "0 < staged_bytes u" "uint (urb_transfer_buffer_length u) \<le> staged_bytes u"
    "staged_bytes u \<le> uint (urb_transfer_buffer_length u) + 64"
proof -
  let ?l = "unat (urb_transfer_buffer_length u)"
  have q: "uint (quad_bytes (urb_transfer_buffer_length u)) = 64 * (int (?l div 64) + 1)"
    using assms(2) by (intro quad_bytes_chunks) simp
  have l: "uint (urb_transfer_buffer_length u) = int ?l" by simp
  have pos: "0 < uint (urb_transfer_buffer_length u)" using assms(1) by (metis uint_ge_0 uint_0_iff order_le_less)
  note round_64_int[of ?l]
  then show "0 < staged_bytes u" "uint (urb_transfer_buffer_length u) \<le> staged_bytes u"
    "staged_bytes u \<le> uint (urb_transfer_buffer_length u) + 64"
    using pos unfolding staged_bytes_def q l by auto
qed

lemma sint_staged:
  assumes "unat (urb_transfer_buffer_length u) + 64 < 2 ^ 31"
  shows "sint (urb_transfer_buffer_length u) = uint (urb_transfer_buffer_length u)"
    "sint (quad_bytes (urb_transfer_buffer_length u)) = uint (quad_bytes (urb_transfer_buffer_length u))"
proof -
  let ?l = "unat (urb_transfer_buffer_length u)"
  have "unat (quad_bytes (urb_transfer_buffer_length u)) = (?l div 64 + 1) * 64"
    using assms by (intro unat_quad_bytes) simp
  also have "\<dots> \<le> ?l + 64" by simp
  finally have "unat (quad_bytes (urb_transfer_buffer_length u)) < 2 ^ 31" using assms by simp
  then show "sint (quad_bytes (urb_transfer_buffer_length u)) = uint (quad_bytes (urb_transfer_buffer_length u))"
    using sint_small by simp
  show "sint (urb_transfer_buffer_length u) = uint (urb_transfer_buffer_length u)"
    using sint_small[of "urb_transfer_buffer_length u"] assms by simp
qed

lemma QuadCopy_ok:
  assumes "unat len < 2 ^ 31"
  shows "\<exists>m'. QuadCopy dst src (quad_bytes len) m = Some m' \<and>
    ({src..<src + uint (quad_bytes len)} \<inter> {dst..<dst + uint (quad_bytes len)} = {} \<longrightarrow>
     m' = memcpy dst src (uint (quad_bytes len)) m)"
  using quad_loop_returns[of dst src "unat len div 64" m] quad_loop_chunks[of src "unat len div 64" dst m]
  unfolding QuadCopy_def quad_bytes_chunks[OF assms] by auto

lemma prepare_data_cases:
  assumes prep: "prepare_data b2v e u p st = Inr (r, p', st')"
    and len: "unat (urb_transfer_buffer_length u) + 64 < 2 ^ 31"
  obtains (none) "urb_transfer_buffer_length u = 0" "r = None" "p' = p" "st' = st"
  | (nomem) l where "urb_transfer_buffer_length u \<noteq> 0"
      "AllocLocalMem b2v e (staged_bytes u) (dma_lm st) = Inr (None, l)" "r = Some ENOMEM"
      "p' = p\<lparr>px_transfer_buffer := 0\<rparr>" "st' = st\<lparr>dma_lm := l\<rparr>"
  | (ok) q l m where "urb_transfer_buffer_length u \<noteq> 0"
      "AllocLocalMem b2v e (staged_bytes u) (dma_lm st) = Inr (Some q, l)" "r = None"
      "p' = p\<lparr>px_transfer_buffer := q\<rparr>" "st' = st\<lparr>dma_lm := l, dma_mem := m\<rparr>"
      "{urb_transfer_buffer u..<urb_transfer_buffer u + staged_bytes u} \<inter> {q..<q + staged_bytes u} = {} \<longrightarrow>
       m = memcpy q (urb_transfer_buffer u) (staged_bytes u) (dma_mem st)"
proof (cases "urb_transfer_buffer_length u = 0")
  case True
  with prep show thesis by (intro none) (simp_all add: prepare_data_def)
next
  case False
  have len': "unat (urb_transfer_buffer_length u) < 2 ^ 31" using len by simp
  note sint = sint_staged[OF len]
  show thesis
  proof (cases "urb_transfer_buffer u AND 0x1f = 0")
    case True
    then have n: "staged_bytes u = uint (quad_bytes (urb_transfer_buffer_length u))"
      by (simp add: staged_bytes_def)
    obtain a l where al: "AllocLocalMem b2v e (staged_bytes u) (dma_lm st) = Inr (a, l)"
      using prep False True sint n by (auto simp: prepare_data_def Let_def split: sum.splits)
    show thesis
    proof (cases a)
      case None
      with prep False True sint n al show thesis by (intro nomem) (auto simp: prepare_data_def)
    next
      case (Some q)
      obtain m where "QuadCopy q (urb_transfer_buffer u) (quad_bytes (urb_transfer_buffer_length u)) (dma_mem st) = Some m"
        "{urb_transfer_buffer u..<urb_transfer_buffer u + staged_bytes u} \<inter> {q..<q + staged_bytes u} = {} \<longrightarrow>
         m = memcpy q (urb_transfer_buffer u) (staged_bytes u) (dma_mem st)"
        using QuadCopy_ok[OF len'] unfolding n by blast
      with prep False True sint n al Some show thesis by (intro ok) (auto simp: prepare_data_def)
    qed
  next
    case unaligned: False
    then have n: "staged_bytes u = uint (urb_transfer_buffer_length u)"
      by (simp add: staged_bytes_def)
    obtain a l where al: "AllocLocalMem b2v e (staged_bytes u) (dma_lm st) = Inr (a, l)"
      using prep False unaligned sint n by (auto simp: prepare_data_def split: sum.splits)
    with prep False unaligned sint n nomem[of l] ok[of _ l] show thesis
      by (cases a) (auto simp: prepare_data_def)
  qed
qed

lemma prepare_setup_cases:
  assumes "prepare_setup b2v e u p st = Inr (r, p', st')"
  obtains (none) "urb_setup_packet u = 0" "r = None" "p' = p" "st' = st"
  | (nomem) l where "urb_setup_packet u \<noteq> 0" "AllocLocalMem b2v e 8 (dma_lm st) = Inr (None, l)"
      "r = Some ENOMEM" "p' = p\<lparr>px_setup_packet := 0\<rparr>" "st' = st\<lparr>dma_lm := l\<rparr>"
  | (ok) q l where "urb_setup_packet u \<noteq> 0" "AllocLocalMem b2v e 8 (dma_lm st) = Inr (Some q, l)"
      "r = None" "p' = p\<lparr>px_setup_packet := q\<rparr>"
      "st' = st\<lparr>dma_lm := l, dma_mem := memcpy q (urb_setup_packet u) 8 (dma_mem st)\<rparr>"
  using assms by (auto simp: prepare_setup_def split: if_splits sum.splits option.splits prod.splits)

section \<open>Properties\<close>

text \<open>The IOP heap behaves during both requests of one URB.\<close>

definition iop_ok2 :: "(u32 \<Rightarrow> addr) \<Rightarrow> alloc_in \<Rightarrow> alloc_in \<Rightarrow> int \<Rightarrow> local_mem \<Rightarrow> bool" where
  "iop_ok2 b2v e1 e2 n l \<longleftrightarrow> iop_heap_ok b2v e1 l \<and> iop_heap_ok b2v e2 l \<and>
     (case AllocLocalMem b2v e1 n l of Inl _ \<Rightarrow> True | Inr (_, l') \<Rightarrow> iop_heap_ok b2v e2 l')"

lemma iop_ok2D:
  assumes "iop_ok2 b2v e1 e2 n l"
  shows "iop_heap_ok b2v e1 l" "iop_heap_ok b2v e2 l"
    "AllocLocalMem b2v e1 n l = Inr (r, l') \<Longrightarrow> iop_heap_ok b2v e2 l'"
  using assms by (auto simp: iop_ok2_def)




definition stage_urb :: urb where
  "stage_urb = \<lparr>urb_dev = None, urb_pipe = 0, urb_transfer_flags = 0, urb_transfer_buffer = 0x1001,
     urb_transfer_buffer_length = 4, urb_actual_length = 0, urb_setup_packet = 0x2000,
     urb_interval = 0, urb_complete = True\<rparr>"

definition px0 :: px where "px0 = \<lparr>px_transfer_buffer = 0, px_setup_packet = 0\<rparr>"

definition stage_dma :: dma where
  "stage_dma = \<lparr>dma_lm = one_arena, dma_mem = (\<lambda>a. word_of_int a)\<rparr>"

definition staged_lm1 :: local_mem where
  "staged_lm1 = one_arena\<lparr>FreeList := [\<lparr>mb_p = 0x10000, mb_size = 0xFF00\<rparr>],
     AllocList := [\<lparr>mb_p = 0x1FF00, mb_size = 0x100\<rparr>], mb_nodes := 2\<rparr>"

definition staged_lm2 :: local_mem where
  "staged_lm2 = one_arena\<lparr>FreeList := [\<lparr>mb_p = 0x10000, mb_size = 0xFE00\<rparr>],
     AllocList := [\<lparr>mb_p = 0x1FE00, mb_size = 0x100\<rparr>, \<lparr>mb_p = 0x1FF00, mb_size = 0x100\<rparr>],
     mb_nodes := 3\<rparr>"

definition staged_dma :: dma where
  "staged_dma = \<lparr>dma_lm = staged_lm2,
     dma_mem = memcpy 0x1FE00 0x2000 8 (memcpy 0x1FF00 0x1001 4 (\<lambda>a. word_of_int a))\<rparr>"

lemma stage_alloc1: "AllocLocalMem id_b2v ok_alloc 4 one_arena = Inr (Some 0x1FF00, staged_lm1)"
  by (simp add: AllocLocalMem_def alloc_grow_def alloc_scan_def size256_def extract_Cons_code
      signed_divide_int_def staged_lm1_def run_defs)

lemma stage_alloc2: "AllocLocalMem id_b2v ok_alloc 8 staged_lm1 = Inr (Some 0x1FE00, staged_lm2)"
  by (simp add: AllocLocalMem_def alloc_grow_def alloc_scan_def size256_def extract_Cons_code
      signed_divide_int_def staged_lm1_def staged_lm2_def run_defs)

lemma stage_bytes: "staged_bytes stage_urb = 4"
  by (simp add: staged_bytes_def stage_urb_def)


lemma stage_iop: "iop_ok2 id_b2v ok_alloc ok_alloc (staged_bytes stage_urb) (dma_lm stage_dma)"
proof -
  have "iop_heap_ok id_b2v ok_alloc staged_lm1"
    using one_arena_iop by (simp add: iop_heap_ok_def arenas_def staged_lm1_def)
  then show ?thesis
    using one_arena_iop by (simp add: iop_ok2_def stage_bytes stage_dma_def stage_alloc1)
qed

lemma stage_prepare:
  "Portable_PrepareUrbOnSubmit id_b2v ok_alloc ok_alloc stage_urb px0 stage_dma =
     Inr (None, \<lparr>px_transfer_buffer = 0x1FF00, px_setup_packet = 0x1FE00\<rparr>, staged_dma)"
  using stage_alloc1 stage_alloc2
  by (simp add: Portable_PrepareUrbOnSubmit_def prepare_data_def prepare_setup_def stage_urb_def
      stage_dma_def staged_dma_def px0_def)



lemma FreeLocalMem_0 [simp]: "FreeLocalMem 0 s = (False, s)"
  by (simp add: FreeLocalMem_def)

lemma release_setup:
  assumes inv: "lm_inv b2v (dma_lm st)" and iop: "iop_heap_ok b2v e (dma_lm st)"
    and s: "prepare_setup b2v e u p st = Inr (r, p', st')" and p: "px_setup_packet p = 0"
  shows "lm_inv b2v (dma_lm st') \<and> px_transfer_buffer p' = px_transfer_buffer p \<and>
    lm_live (snd (FreeLocalMem (px_setup_packet p') (dma_lm st'))) = lm_live (dma_lm st)"
  using s
proof (cases rule: prepare_setup_cases)
  case (nomem l)
  then show ?thesis using lm.alloc_inv[OF inv iop _ nomem(2)] lm.alloc_none[OF inv iop _ nomem(2)]
    by simp
next
  case (ok q l)
  obtain b l' where f: "FreeLocalMem q l = (b, l')" by (cases "FreeLocalMem q l")
  then show ?thesis
    using ok lm.alloc_inv[OF inv iop _ ok(2)] lm.alloc_release[OF inv iop _ ok(2) f] by simp
qed (use inv p in simp_all)

lemma release_data:
  assumes inv: "lm_inv b2v l0" and iop: "iop_heap_ok b2v e l0" and n: "0 < n"
    and a: "AllocLocalMem b2v e n l0 = Inr (Some q, l)" and l: "lm_inv b2v l'" "lm_live l' = lm_live l"
  shows "lm_live (snd (FreeLocalMem q l')) = lm_live l0"
proof -
  obtain b r where f: "FreeLocalMem q l' = (b, r)" by (cases "FreeLocalMem q l'")
  obtain k where k: "lm_live l = insert (q, k) (lm_live l0)" using lm.alloc_live[OF inv iop n a] by blast
  have "lm_live r = lm_live l' - {(q, k)}" using lm.release_live[OF l(1) _ f] k l(2) by blast
  moreover have "(q, k) \<notin> lm_live l0" using lm.alloc_fresh[OF inv iop n a] by force
  ultimately show ?thesis using f k l(2) by simp
qed

text \<open>C16. The blocks of an URB never leak: whatever \<open>Portable_PrepareUrbOnSubmit\<close> returned
  (success, or \<open>-ENOMEM\<close> after zero or one allocation), \<open>Portable_FreeUrb\<close> brings the set of
  allocated blocks back to what it was before, and clears both pointers.\<close>

theorem Portable_FreeUrb_no_leak:
  assumes inv: "lm_inv b2v (dma_lm st)"
    and iop: "iop_ok2 b2v e1 e2 (staged_bytes u) (dma_lm st)"
    and len: "unat (urb_transfer_buffer_length u) + 64 < 2 ^ 31"
    and prep: "Portable_PrepareUrbOnSubmit b2v e1 e2 u px0 st = Inr (r, p', st')"
  shows "lm_live (dma_lm (snd (Portable_FreeUrb p' st'))) = lm_live (dma_lm st) \<and>
    fst (Portable_FreeUrb p' st') = px0"
proof -
  note i = iop_ok2D[OF iop]
  have fst: "fst (Portable_FreeUrb p' st') = px0"
    by (simp add: Portable_FreeUrb_def Let_def px0_def)
  obtain r1 p1 st1 where d: "prepare_data b2v e1 u px0 st = Inr (r1, p1, st1)"
    and s: "r1 \<noteq> None \<Longrightarrow> p' = p1 \<and> st' = st1"
      "r1 = None \<Longrightarrow> prepare_setup b2v e2 u p1 st1 = Inr (r, p', st')"
    using prep by (auto simp: Portable_PrepareUrbOnSubmit_def
        split: sum.splits option.splits prod.splits)
  from d len have "lm_live (dma_lm (snd (Portable_FreeUrb p' st'))) = lm_live (dma_lm st)"
  proof (cases rule: prepare_data_cases)
    case none
    with release_setup[OF inv i(2) s(2)[unfolded none(3,4)]] show ?thesis
      by (simp add: Portable_FreeUrb_def px0_def)
  next
    case (nomem l)
    with s(1) lm.alloc_none[OF inv i(1) staged_bytes_bounds(1)[OF nomem(1) len] nomem(2)]
    show ?thesis by (simp add: Portable_FreeUrb_def px0_def)
  next
    case (ok q l m)
    note pos = staged_bytes_bounds(1)[OF ok(1) len]
    have inv1: "lm_inv b2v (dma_lm st1)" using lm.alloc_inv[OF inv i(1) pos ok(2)] ok(5) by simp
    have "prepare_setup b2v e2 u p1 st1 = Inr (r, p', st')" using s(2) ok(3) by simp
    then show ?thesis
    proof (cases rule: prepare_setup_cases)
      case none
      then show ?thesis using release_data[OF inv i(1) pos ok(2)] inv1 ok by (simp add: Portable_FreeUrb_def px0_def)
    next
      case (nomem l2)
      have "lm_inv b2v l2" "lm_live l2 = lm_live l"
        using nomem(2) inv1 i(3)[OF ok(2)] ok(5) lm.alloc_inv[of b2v l e2 8] lm.alloc_none[of b2v l e2 8] by auto
      then show ?thesis using release_data[OF inv i(1) pos ok(2)] nomem ok by (simp add: Portable_FreeUrb_def px0_def)
    next
      case ok2: (ok q2 l2)
      obtain b l' where f: "FreeLocalMem q l2 = (b, l')" by (cases "FreeLocalMem q l2")
      obtain b2 l'' where f2: "FreeLocalMem q2 l' = (b2, l'')" by (cases "FreeLocalMem q2 l'")
      have a2: "AllocLocalMem b2v e2 8 l = Inr (Some q2, l2)" using ok2 ok(5) by simp
      from lm.alloc2_release2[OF inv i(1) pos ok(2) i(3)[OF ok(2)] _ a2 f f2]
      show ?thesis using ok2 ok(4) f f2 by (simp add: Portable_FreeUrb_def px0_def)
    qed
  qed
  with fst show ?thesis by simp
qed

theorem Portable_FreeUrb_no_leak_witness:
  "lm_live (dma_lm (snd (Portable_FreeUrb \<lparr>px_transfer_buffer = 0x1FF00, px_setup_packet = 0x1FE00\<rparr>
     staged_dma))) = {}"
proof -
  have h: "lm_inv id_b2v (dma_lm stage_dma)" "unat (urb_transfer_buffer_length stage_urb) + 64 < 2 ^ 31"
    using one_arena_inv by (simp_all add: stage_dma_def stage_urb_def)
  from Portable_FreeUrb_no_leak[OF h(1) stage_iop h(2) stage_prepare]
  show ?thesis by (simp add: stage_dma_def lm_live_def run_defs)
qed

section \<open>The copy reads past the buffer\<close>

lemma quad_bytes_over:
  assumes "unat len < 2 ^ 31"
  shows "uint len < uint (quad_bytes len)" "uint (quad_bytes len) \<le> uint len + 64"
  using round_64_int[of "unat len"] unfolding quad_bytes_chunks[OF assms] by simp_all

text \<open>C33. The aligned path copies more than the caller's buffer holds: for a 32-byte aligned
  transfer buffer of \<open>n\<close> bytes, between 1 and 64 bytes that follow the buffer (\<open>k\<close> of them) are
  read and stored behind the data in the staged block, even when \<open>n\<close> is a multiple of 64.\<close>

theorem prepare_data_over_reads:
  assumes inv: "lm_inv b2v (dma_lm st)" and iop: "iop_heap_ok b2v e (dma_lm st)"
    and al: "urb_transfer_buffer u AND 0x1f = 0" and len: "urb_transfer_buffer_length u \<noteq> 0"
      "unat (urb_transfer_buffer_length u) + 64 < 2 ^ 31"
    and prep: "prepare_data b2v e u p st = Inr (None, p', st')"
    and out: "{urb_transfer_buffer u..<urb_transfer_buffer u + staged_bytes u} \<inter>
      arena_bytes b2v (dma_lm st') = {}"
  shows "\<exists>k. 0 < k \<and> k \<le> 64 \<and>
    bytes_at (dma_mem st') (px_transfer_buffer p') (unat (urb_transfer_buffer_length u) + k) =
    bytes_at (dma_mem st) (urb_transfer_buffer u) (unat (urb_transfer_buffer_length u) + k)"
proof -
  let ?tb = "urb_transfer_buffer u" and ?n = "staged_bytes u"
    and ?l = "unat (urb_transfer_buffer_length u)"
  from prep len(1) obtain q l m where q: "AllocLocalMem b2v e ?n (dma_lm st) = Inr (Some q, l)"
    "p' = p\<lparr>px_transfer_buffer := q\<rparr>" "st' = st\<lparr>dma_lm := l, dma_mem := m\<rparr>"
    and m: "{?tb..<?tb + ?n} \<inter> {q..<q + ?n} = {} \<longrightarrow> m = memcpy q ?tb ?n (dma_mem st)"
    by (elim prepare_data_cases[OF _ len(2)]) simp_all
  have n: "?n = uint (quad_bytes (urb_transfer_buffer_length u))" using al by (simp add: staged_bytes_def)
  have l31: "?l < 2 ^ 31" using len(2) by simp
  note over = quad_bytes_over[OF l31, folded n]
  note b = AllocLocalMem_block[OF inv iop staged_bytes_bounds(1)[OF len] q(1)]
  have "dma_lm st' = l" using q(3) by simp
  then have "{?tb..<?tb + ?n} \<inter> {q..<q + ?n} = {}" using b(2,5) out by blast
  then have m': "m = memcpy q ?tb ?n (dma_mem st)" by (rule m[rule_format])
  obtain k where k: "?n = int (?l + k)" "0 < k" "k \<le> 64"
  proof
    show "?n = int (?l + nat (?n - int ?l))" "0 < nat (?n - int ?l)" "nat (?n - int ?l) \<le> 64"
      using over by simp_all
  qed
  have "bytes_at m q (?l + k) = bytes_at (dma_mem st) ?tb (?l + k)"
    unfolding m' k(1) by (rule bytes_at_memcpy)
  then show ?thesis using k q by auto
qed

definition over_urb :: urb where
  "over_urb = stage_urb\<lparr>urb_transfer_buffer := 0x1000, urb_setup_packet := 0\<rparr>"

definition over_dma :: dma where
  "over_dma = \<lparr>dma_lm = staged_lm1, dma_mem = memcpy 0x1FF00 0x1000 64 (\<lambda>a. word_of_int a)\<rparr>"

lemma over_fields:
  "urb_transfer_buffer over_urb = 0x1000" "urb_transfer_buffer_length over_urb = 4"
  "staged_bytes over_urb = 64" "quad_bytes 4 = 64"
  by (simp_all add: over_urb_def stage_urb_def staged_bytes_def quad_bytes_def QUAD_COPY_CHUNK_SIZE_def)

lemma over_alloc: "AllocLocalMem id_b2v ok_alloc 64 one_arena = Inr (Some 0x1FF00, staged_lm1)"
  by (simp add: AllocLocalMem_def alloc_grow_def alloc_scan_def size256_def extract_Cons_code
      signed_divide_int_def staged_lm1_def run_defs)

lemma over_prepare:
  "prepare_data id_b2v ok_alloc over_urb px0 stage_dma =
     Inr (None, px0\<lparr>px_transfer_buffer := 0x1FF00\<rparr>, over_dma)"
  using over_alloc
  by (simp add: prepare_data_def over_fields stage_dma_def over_dma_def QuadCopy_def quad_loop.simps)

theorem prepare_data_over_reads_witness:
  "\<exists>k. 0 < k \<and> k \<le> 64 \<and>
     bytes_at (dma_mem over_dma) 0x1FF00 (4 + k) = bytes_at (dma_mem stage_dma) 0x1000 (4 + k)"
proof -
  have h: "lm_inv id_b2v (dma_lm stage_dma)" "iop_heap_ok id_b2v ok_alloc (dma_lm stage_dma)"
    "urb_transfer_buffer over_urb AND 0x1f = 0" "urb_transfer_buffer_length over_urb \<noteq> 0"
    "unat (urb_transfer_buffer_length over_urb) + 64 < 2 ^ 31"
    using one_arena_inv one_arena_iop by (simp_all add: stage_dma_def over_fields)
  have o: "{urb_transfer_buffer over_urb..<urb_transfer_buffer over_urb + staged_bytes over_urb} \<inter>
      arena_bytes id_b2v (dma_lm over_dma) = {}"
    by (simp add: over_fields over_dma_def staged_lm1_def arena_bytes_def arenas_def arena_block_def
      block_range_def run_defs)
  from prepare_data_over_reads[OF h over_prepare o] show ?thesis by (simp add: over_fields)
qed

end
