(* ===== verification/Ohci_Td.thy ===== *)
theory Ohci_Td
  imports Ohci_Ed Portable_Urb
begin

text \<open>
  Transfer descriptors (\<open>td_fill\<close>, \<open>td_submit_urb\<close>, \<open>dl_transfer_length\<close> and
  \<open>dl_reverse_done_list\<close> of \<open>portable-ohci-core.c\<close>). As the endpoint descriptors they live in a
  store of bus addresses, \<open>tds\<close>; the URBs of the driver's clients live in \<open>urbs\<close>, with their
  private part in \<open>hcpriv\<close> (\<open>None\<close> is \<open>NULL\<close>). The queue of an endpoint runs from \<open>hwHeadP\<close> to
  \<open>hwTailP\<close>, which points to an empty descriptor: a submission fills this one and leaves a new
  empty one behind.

  A result \<open>None\<close> means that the code does not return: it dereferences \<open>NULL\<close> or loops for ever.
\<close>

section \<open>State\<close>

definition TD_CC :: u32 where [simp]: "TD_CC = 0xf0000000"
definition TD_T_DATA0 :: u32 where [simp]: "TD_T_DATA0 = 0x02000000"
definition TD_T_DATA1 :: u32 where [simp]: "TD_T_DATA1 = 0x03000000"
definition TD_T_TOGGLE :: u32 where [simp]: "TD_T_TOGGLE = 0x00000000"
definition TD_R :: u32 where [simp]: "TD_R = 0x00040000"
definition TD_DP_SETUP :: u32 where [simp]: "TD_DP_SETUP = 0x00000000"
definition TD_DP_IN :: u32 where [simp]: "TD_DP_IN = 0x00100000"
definition TD_DP_OUT :: u32 where [simp]: "TD_DP_OUT = 0x00080000"
definition TD_ISO :: u32 where [simp]: "TD_ISO = 0x00010000"

record td =
  tINFO :: u32
  hwCBP :: u32
  hwNextTD :: u32
  hwBE :: u32
  hwPSW0 :: u16
  td_index :: u8
  td_ed :: desc
  next_dl_td :: desc
  td_urb :: addr

text \<open>\<open>urb_priv_t\<close>; \<open>td\<close> has as many entries as \<open>size\<close> says when the URB is submitted.\<close>

record urb_priv =
  p_ed :: desc
  p_length :: u16
  td_cnt :: u16
  p_state :: int
  portable :: px
  p_td :: "desc list"

record iso_packet =
  iso_offset :: u32
  iso_length :: u32
  iso_actual :: u32
  iso_status :: status

record hurb = urb +
  urb_devp :: addr
  hcpriv :: "urb_priv option"
  urb_status :: status
  urb_start_frame :: u32
  urb_number_of_packets :: u32
  iso_frame_desc :: "iso_packet list"
  urb_next :: addr

text \<open>The driver with its clients: data toggles and halts of the endpoints, by device number,
  endpoint and direction, the use counts of the devices, and their private data (by the address of
  the \<open>usb_device\<close>; \<open>dev_priv\<close> tells whether its pointer is set).\<close>

record hcd = ohci_ed +
  tds :: "desc \<Rightarrow> td"
  urbs :: "addr \<Rightarrow> hurb"
  toggles :: "u32 \<Rightarrow> u32 \<Rightarrow> u32 \<Rightarrow> bool"
  halts :: "u32 \<Rightarrow> u32 \<Rightarrow> u32 \<Rightarrow> bool"
  dev_use :: "u32 \<Rightarrow> int"
  hcd_dma :: dma
  devs :: "addr \<Rightarrow> ohci_device"
  dev_priv :: "addr \<Rightarrow> bool"

text \<open>The platform's address translation, flags of \<open>linux/usb.h\<close>, and what the completion handlers
  of the clients do.\<close>

record henv = penv +
  virt_to_bus :: "addr \<Rightarrow> u32"
  bus_to_virt :: "u32 \<Rightarrow> addr"
  usb_disable_spd :: u32
  usb_iso_asap :: u32
  usb_async_unlink :: u32
  on_complete :: "addr \<Rightarrow> hcd \<Rightarrow> hcd"

definition upd_td :: "desc \<Rightarrow> (td \<Rightarrow> td) \<Rightarrow> hcd \<Rightarrow> hcd" where
  "upd_td t f s = s\<lparr>tds := (tds s)(t := f (tds s t))\<rparr>"

definition upd_urb :: "addr \<Rightarrow> (hurb \<Rightarrow> hurb) \<Rightarrow> hcd \<Rightarrow> hcd" where
  "upd_urb u f s = s\<lparr>urbs := (urbs s)(u := f (urbs s u))\<rparr>"

definition upd_priv :: "addr \<Rightarrow> (urb_priv \<Rightarrow> urb_priv) \<Rightarrow> hcd \<Rightarrow> hcd" where
  "upd_priv u f = upd_urb u (hcpriv_update (map_option f))"

definition ptr :: "u32 \<Rightarrow> desc" where
  "ptr w = w AND 0xfffffff0"

section \<open>Filling descriptors\<close>

definition td_fill :: "henv \<Rightarrow> u32 \<Rightarrow> addr \<Rightarrow> int \<Rightarrow> addr \<Rightarrow> nat \<Rightarrow> hcd \<Rightarrow> hcd option" where
  "td_fill K info data len u index s =
     (case hcpriv (urbs s u) of
        None \<Rightarrow> None
      | Some p \<Rightarrow>
          if unat (p_length p) \<le> index then Some (err_log ''internal OHCI error: TD index > length'' s)
          else let e = p_ed p; td_pt = p_td p ! index; td = ptr (hwTailP (eds s e));
                   s1 = upd_priv u (p_td_update (\<lambda>l. l[index := td])) s;
                   iso = (ucast (ed_type (eds s1 e) AND 3) = macro K PIPE_ISOCHRONOUS);
                   cbp = (if data = 0 \<or> len = 0 then 0 else virt_to_bus K data);
                   s2 = upd_td td (\<lambda>d. d\<lparr>td_ed := e, td_index := of_nat index, td_urb := u, tINFO := info,
                          hwCBP := if iso then cbp AND 0xFFFFF000 else cbp,
                          hwBE := if data = 0 \<or> len = 0 then 0 else virt_to_bus K (data + len - 1),
                          hwNextTD := td_pt, hwPSW0 := ucast ((virt_to_bus K data AND 0x0FFF) OR 0xE000)\<rparr>) s1;
                   s3 = (if iso then upd_ed e (last_iso_update (\<lambda>_. ucast (info AND 0xffff))) s2 else s2);
                   s4 = upd_td td_pt (hwNextTD_update (\<lambda>_. 0)) s3;
                   s5 = upd_ed e (hwTailP_update (\<lambda>_. hwNextTD (tds s4 td))) s4 in
            Some (upd_td td (next_dl_td_update (\<lambda>_. 0)) s5))"

text \<open>The loop for bulk transfers: one descriptor for every 4096 bytes but the last. The result is
  what \<open>data\<close>, \<open>data_len\<close> and \<open>cnt\<close> have become.\<close>

function bulk_loop ::
  "henv \<Rightarrow> u32 \<Rightarrow> u32 \<Rightarrow> addr \<Rightarrow> addr \<Rightarrow> int \<Rightarrow> nat \<Rightarrow> hcd \<Rightarrow> (addr \<times> int \<times> nat \<times> hcd) option" where
  "bulk_loop K info toggle u data data_len cnt s =
     (if 4096 < data_len
      then Option.bind (td_fill K (info OR (if cnt \<noteq> 0 then TD_T_TOGGLE else toggle)) data 4096 u cnt s)
             (bulk_loop K info toggle u (data + 4096) (data_len - 4096) (Suc cnt))
      else Some (data, data_len, cnt, s))"
  by pat_completeness auto
termination by (relation "measure (\<lambda>(K, info, toggle, u, data, data_len, cnt, s). nat data_len)") auto

declare bulk_loop.simps [simp del]

fun iso_loop :: "henv \<Rightarrow> addr \<Rightarrow> addr \<Rightarrow> nat list \<Rightarrow> hcd \<Rightarrow> hcd option" where
  "iso_loop K u data [] s = Some s"
| "iso_loop K u data (cnt # cnts) s =
     (let w = urbs s u; f = iso_frame_desc w ! cnt in
      Option.bind (td_fill K (TD_CC OR TD_ISO OR ((urb_start_frame w + of_nat cnt) AND 0xffff))
          (data + uint (iso_offset f)) (sint (iso_length f)) u cnt s)
        (iso_loop K u data cnts))"

text \<open>The result is \<open>cnt\<close>, the number of descriptors, and the state. \<open>sync_and_flush\<close> only orders
  the stores.\<close>

definition td_submit_urb :: "henv \<Rightarrow> addr \<Rightarrow> hcd \<Rightarrow> (nat \<times> hcd) option" where
  "td_submit_urb K u s0 =
     (case (hcpriv (urbs s0 u), urb_dev (urbs s0 u)) of
        (Some p, Some dev) \<Rightarrow>
          let w = urbs s0 u; pipe = urb_pipe w; ep = usb_pipeendpoint K pipe; out = usb_pipeout K pipe;
              ctrl = px_setup_packet (portable p); data = px_transfer_buffer (portable p);
              data_len = sint (urb_transfer_buffer_length w);
              (toggle, s1) = (if toggles s0 (devnum dev) ep out then (TD_T_TOGGLE, s0)
                 else (TD_T_DATA0, s0\<lparr>toggles := (toggles s0)(devnum dev := (toggles s0 (devnum dev))
                   (ep := (toggles s0 (devnum dev) ep)(out := True)))\<rparr>));
              s = upd_priv u (td_cnt_update (\<lambda>_. 0)) s1 in
            if usb_pipetype K pipe = macro K PIPE_BULK
            then Option.bind (bulk_loop K (if out \<noteq> 0 then TD_CC OR TD_DP_OUT else TD_CC OR TD_DP_IN) toggle u data data_len 0 s)
                   (\<lambda>(data, data_len, cnt, s).
                 map_option (\<lambda>s. (Suc cnt, writel OHCI_BLF Cmdstatus s))
                   (td_fill K ((if out \<noteq> 0 then TD_CC OR TD_DP_OUT else TD_CC OR TD_R OR TD_DP_IN) OR
                      (if cnt \<noteq> 0 then TD_T_TOGGLE else toggle)) data data_len u cnt s))
            else if usb_pipetype K pipe = macro K PIPE_INTERRUPT
            then map_option (Pair 1)
                   (td_fill K (if out \<noteq> 0 then TD_CC OR TD_DP_OUT OR toggle else TD_CC OR TD_R OR TD_DP_IN OR toggle)
                      data data_len u 0 s)
            else if usb_pipetype K pipe = macro K PIPE_CONTROL
            then Option.bind (td_fill K (TD_CC OR TD_DP_SETUP OR TD_T_DATA0) ctrl 8 u 0 s) (\<lambda>s.
                 Option.bind (if 0 < data_len
                   then map_option (Pair 2) (td_fill K (if out \<noteq> 0 then TD_CC OR TD_R OR TD_DP_OUT OR TD_T_DATA1
                          else TD_CC OR TD_R OR TD_DP_IN OR TD_T_DATA1) data data_len u 1 s)
                   else Some (1, s)) (\<lambda>(cnt, s).
                 map_option (\<lambda>s. (Suc cnt, writel OHCI_CLF Cmdstatus s))
                   (td_fill K (if out \<noteq> 0 then TD_CC OR TD_DP_IN OR TD_T_DATA1 else TD_CC OR TD_DP_OUT OR TD_T_DATA1)
                      0 0 u cnt s)))
            else if usb_pipetype K pipe = macro K PIPE_ISOCHRONOUS
            then (let n = nat (sint (urb_number_of_packets w)) in
                 map_option (Pair n) (iso_loop K u data [0..<n] s))
            else Some (0, s)
      | _ \<Rightarrow> None)"

text \<open>\<open>size\<close>: how many descriptors \<open>sohci_submit_urb\<close> allocates for an URB.\<close>

definition urb_size :: "henv \<Rightarrow> hurb \<Rightarrow> int" where
  "urb_size K w =
     (let t = usb_pipetype K (urb_pipe w); len = sint (urb_transfer_buffer_length w) in
      if t = macro K PIPE_BULK then (len - 1) sdiv 4096 + 1
      else if t = macro K PIPE_ISOCHRONOUS then sint (urb_number_of_packets w)
      else if t = macro K PIPE_CONTROL then (if len = 0 then 2 else (len - 1) sdiv 4096 + 3)
      else if t = macro K PIPE_INTERRUPT then 1
      else 0)"

section \<open>What has been transferred\<close>

definition dl_transfer_length :: "henv \<Rightarrow> desc \<Rightarrow> hcd \<Rightarrow> hcd option" where
  "dl_transfer_length K t s =
     (let d = tds s t; u = td_urb d; w = urbs s u; i = unat (td_index d);
          control = (usb_pipetype K (urb_pipe w) = macro K PIPE_CONTROL) in
      if tINFO d AND TD_ISO \<noteq> 0
      then (let cc = unat (drop_bit 12 (hwPSW0 d) AND 0xF) in
        if cc < 0xE
        then (let dlen = (if usb_pipeout K (urb_pipe w) \<noteq> 0 then iso_length (iso_frame_desc w ! i)
                          else ucast (hwPSW0 d AND 0x3ff));
                  cc1 = (if urb_transfer_flags w AND usb_disable_spd K = 0 \<and> cc = TD_DATAUNDERRUN
                         then TD_CC_NOERROR else cc) in
          Some (upd_urb u (\<lambda>w. w\<lparr>urb_actual_length := urb_actual_length w + dlen,
            iso_frame_desc := (iso_frame_desc w)[i := (iso_frame_desc w ! i)
              \<lparr>iso_actual := dlen, iso_status := cc_to_error ! cc1\<rparr>]\<rparr>) s))
        else Some s)
      else (case hcpriv w of
          None \<Rightarrow> if control \<and> i = 0 \<or> \<not> control \<and> hwBE d = 0 then Some s else None
        | Some p \<Rightarrow>
            if \<not> (control \<and> (i = 0 \<or> int i = uint (p_length p) - 1)) \<and> hwBE d \<noteq> 0
            then Some (upd_urb u (urb_actual_length_update (\<lambda>_.
                   if hwCBP d = 0
                   then word_of_int (bus_to_virt K (hwBE d) - px_transfer_buffer (portable p) + 1)
                   else word_of_int (bus_to_virt K (hwCBP d) - px_transfer_buffer (portable p)))) s)
            else Some s))"

section \<open>The done list\<close>

text \<open>A descriptor that ended with an error: when the endpoint is halted, the rest of the URB's
  descriptors is skipped and counted as done.\<close>

definition done_error :: "desc \<Rightarrow> hcd \<Rightarrow> hcd" where
  "done_error t s =
     (let d = tds s t; e = td_ed d; h = hwHeadP (eds s e) in
      if TD_CC_GET (tINFO d) \<noteq> 0 \<and> h AND 0x1 \<noteq> 0
      then (case hcpriv (urbs s (td_urb d)) of
          None \<Rightarrow> upd_ed e (hwHeadP_update (\<lambda>_. h AND 0xfffffff2)) s
        | Some p \<Rightarrow>
            if unat (td_index d) + 1 < unat (p_length p)
            then upd_priv (td_urb d) (td_cnt_update (\<lambda>c. c + p_length p - ucast (td_index d) - 1))
                   (upd_ed e (hwHeadP_update (\<lambda>_.
                      ptr (hwNextTD (tds s (p_td p ! (unat (p_length p) - 1)))) OR (h AND 0x2))) s)
            else upd_ed e (hwHeadP_update (\<lambda>_. h AND 0xfffffff2)) s)
      else s)"

text \<open>The loop: \<open>td_list_hc\<close>, \<open>td_rev\<close> and \<open>td_list\<close>. A \<open>TD\<close> whose URB is \<open>NULL\<close> does not occur:
  \<open>urbs\<close> is total.\<close>

partial_function (option) reverse_loop :: "desc \<Rightarrow> desc \<Rightarrow> desc \<Rightarrow> hcd \<Rightarrow> (desc \<times> hcd) option" where
  "reverse_loop td_list_hc td_rev td_list s =
     (if td_list_hc \<noteq> 0
      then (let t = td_list_hc; s1 = upd_td t (next_dl_td_update (\<lambda>_. td_rev)) (done_error t s) in
        reverse_loop (ptr (hwNextTD (tds s1 t))) t t s1)
      else Some (td_list, s))"

declare reverse_loop.simps [code]

text \<open>\<open>spin_lock_irqsave\<close> on a lock that is held does not return.\<close>

definition locked :: "(hcd \<Rightarrow> ('r \<times> hcd) option) \<Rightarrow> hcd \<Rightarrow> ('r \<times> hcd) option" where
  "locked f s = (if ed_lock s then None
     else map_option (\<lambda>(r, t). (r, t\<lparr>ed_lock := False\<rparr>)) (f (s\<lparr>ed_lock := True\<rparr>)))"

definition dl_reverse_done_list :: "hcd \<Rightarrow> (desc \<times> hcd) option" where
  "dl_reverse_done_list =
     locked (\<lambda>s. reverse_loop (ptr (done_head s)) 0 0 (s\<lparr>done_head := 0\<rparr>))"

end
