(* ===== verification/Root_Hub.thy ===== *)
theory Root_Hub
  imports Ohci_Base
begin

text \<open>
  The virtual root hub of \<open>portable-ohci-core.c\<close>: URBs addressed to the hub are answered by the
  driver itself from the controller's root hub registers (\<open>rh_submit_urb\<close>), and its interrupt
  pipe is served by a timer (\<open>rh_int_timer_do\<close>, \<open>rh_send_irq\<close>).

  What an operation does to the URB is an output: the bytes it stores at the transfer buffer, the
  actual length and status it sets, and whether the completion handler is called (which is also an
  event of the trace). The bytes of uninitialised automatic arrays are the parameter \<open>junk\<close>.
  \<open>usb_root_hub_string\<close> is kernel code and the parameter \<open>hub_string\<close>: its return value and
  what it stored.
\<close>

section \<open>Descriptors and requests\<close>

definition root_hub_dev_des :: "u8 list" where
  "root_hub_dev_des = [0x12, 0x01, 0x10, 0x01, 0x09, 0x00, 0x00, 0x08, 0x00, 0x00, 0x00, 0x00, 0x00,
     0x00, 0x00, 0x02, 0x01, 0x01]"

definition root_hub_config_des :: "u8 list" where
  "root_hub_config_des = [0x09, 0x02, 0x19, 0x00, 0x01, 0x01, 0x00, 0x40, 0x00,
     0x09, 0x04, 0x00, 0x00, 0x01, 0x09, 0x00, 0x00, 0x00,
     0x07, 0x05, 0x81, 0x03, 0x02, 0x00, 0xff]"

definition RH_INTERFACE :: u16 where [simp]: "RH_INTERFACE = 0x01"
definition RH_ENDPOINT :: u16 where [simp]: "RH_ENDPOINT = 0x02"
definition RH_OTHER :: u16 where [simp]: "RH_OTHER = 0x03"
definition RH_CLASS :: u16 where [simp]: "RH_CLASS = 0x20"

definition RH_GET_STATUS :: u16 where [simp]: "RH_GET_STATUS = 0x0080"
definition RH_CLEAR_FEATURE :: u16 where [simp]: "RH_CLEAR_FEATURE = 0x0100"
definition RH_SET_FEATURE :: u16 where [simp]: "RH_SET_FEATURE = 0x0300"
definition RH_SET_ADDRESS :: u16 where [simp]: "RH_SET_ADDRESS = 0x0500"
definition RH_GET_DESCRIPTOR :: u16 where [simp]: "RH_GET_DESCRIPTOR = 0x0680"
definition RH_GET_CONFIGURATION :: u16 where [simp]: "RH_GET_CONFIGURATION = 0x0880"
definition RH_SET_CONFIGURATION :: u16 where [simp]: "RH_SET_CONFIGURATION = 0x0900"

definition RH_PORT_ENABLE :: u16 where [simp]: "RH_PORT_ENABLE = 0x01"
definition RH_PORT_SUSPEND :: u16 where [simp]: "RH_PORT_SUSPEND = 0x02"
definition RH_PORT_RESET :: u16 where [simp]: "RH_PORT_RESET = 0x04"
definition RH_PORT_POWER :: u16 where [simp]: "RH_PORT_POWER = 0x08"
definition RH_C_PORT_CONNECTION :: u16 where [simp]: "RH_C_PORT_CONNECTION = 0x10"
definition RH_C_PORT_ENABLE :: u16 where [simp]: "RH_C_PORT_ENABLE = 0x11"
definition RH_C_PORT_SUSPEND :: u16 where [simp]: "RH_C_PORT_SUSPEND = 0x12"
definition RH_C_PORT_OVER_CURRENT :: u16 where [simp]: "RH_C_PORT_OVER_CURRENT = 0x13"
definition RH_C_PORT_RESET :: u16 where [simp]: "RH_C_PORT_RESET = 0x14"
definition RH_C_HUB_LOCAL_POWER :: u16 where [simp]: "RH_C_HUB_LOCAL_POWER = 0x00"
definition RH_C_HUB_OVER_CURRENT :: u16 where [simp]: "RH_C_HUB_OVER_CURRENT = 0x01"
definition RH_ENDPOINT_STALL :: u16 where [simp]: "RH_ENDPOINT_STALL = 0x01"

section \<open>The interrupt endpoint\<close>

datatype hub_err = Beyond_data | Huge_copy | No_setup_packet

definition PORT_CHANGES :: u32 where [simp]:
  "PORT_CHANGES = RH_PS_CSC OR RH_PS_PESC OR RH_PS_PSSC OR RH_PS_OCIC OR RH_PS_PRSC"

text \<open>The loop over the ports: the status bytes \<open>data\<close> and the sum \<open>ret\<close>.\<close>

function port_loop ::
  "hw \<Rightarrow> nat \<Rightarrow> nat \<Rightarrow> u8 list \<Rightarrow> nat \<Rightarrow> 'a ohci_scheme \<Rightarrow> hub_err + (u8 list \<times> nat \<times> 'a ohci_scheme)" where
  "port_loop hw num_ports i data ret s =
     (if i < num_ports
      then (let (v, s1) = readl hw (Rh_portstatus (int i)) s; k = (i + 1) div 8 in
        if length data \<le> k then Inl Beyond_data
        else let data1 = data[k := data ! k OR
                   (if v AND PORT_CHANGES \<noteq> 0 then push_bit ((i + 1) mod 8) 1 else 0)] in
          port_loop hw num_ports (Suc i) data1 (ret + unat (data1 ! k)) s1)
      else Inr (data, ret, s))"
  by pat_completeness auto
termination by (relation "measure (\<lambda>(hw, n, i, _). n - i)") auto

declare port_loop.simps [simp del]

text \<open>The result is the returned length and the bytes stored at \<open>rh_data\<close>; \<open>junk\<close> is the
  automatic array \<open>data[8]\<close>.\<close>

definition rh_send_irq ::
  "hw \<Rightarrow> u8 list \<Rightarrow> u32 \<Rightarrow> 'a ohci_scheme \<Rightarrow> hub_err + (nat \<times> u8 list \<times> 'a ohci_scheme)" where
  "rh_send_irq hw junk rh_len s =
     (let (a, s1) = readl hw Rh_a s;
          num_ports = unat (a AND RH_A_NDP);
          (st, s2) = readl hw Rh_status s1;
          data = junk[0 := (if st AND (RH_HS_LPSC OR RH_HS_OCIC) \<noteq> 0 then 1 else 0)] in
      case port_loop hw num_ports 0 data (unat (data ! 0)) s2 of
        Inl e \<Rightarrow> Inl e
      | Inr (data1, ret, s3) \<Rightarrow>
          let len = num_ports div 8 + 1 in
          if 0 < ret
          then Inr (len, take (unat (min_u (of_nat len) (min_u rh_len 8))) data1, s3)
          else Inr (0, [], s3))"

text \<open>The kernel's clock: \<open>HZ\<close> and \<open>jiffies\<close>.\<close>

definition rh_init_int_timer :: "u32 \<Rightarrow> u32 \<Rightarrow> urb \<Rightarrow> 'a ohci_scheme \<Rightarrow> 'a ohci_scheme" where
  "rh_init_int_timer HZ jiffies u s =
     (let i = (if sint (urb_interval u) < 30 then 30 else urb_interval u) in
      s\<lparr>rh_interval := urb_interval u, rh_timer := Some (jiffies + word_of_int (sint (HZ * i) sdiv 1000))\<rparr>)"

text \<open>What happens to an URB of the hub.\<close>

record hub_out =
  ho_bytes :: "u8 list"
  ho_actual :: int
  ho_status :: status
  ho_complete :: bool

text \<open>The URB at address \<open>up\<close>; the result is \<open>None\<close> where the URB is not completed.\<close>

definition complete_urb :: "addr \<Rightarrow> 'a ohci_scheme \<Rightarrow> 'a ohci_scheme" where
  "complete_urb up s = s\<lparr>io := io s @ [Complete up]\<rparr>"

definition rh_int_timer_do ::
  "hw \<Rightarrow> u32 \<Rightarrow> u32 \<Rightarrow> u8 list \<Rightarrow> addr \<Rightarrow> urb \<Rightarrow> 'a ohci_scheme \<Rightarrow>
   hub_err + ((nat \<times> u8 list) option \<times> 'a ohci_scheme)" where
  "rh_int_timer_do hw HZ jiffies junk up u s =
     (if disabled s \<noteq> 0 then Inr (None, s)
      else if rh_send s
      then (case rh_send_irq hw junk (urb_transfer_buffer_length u) s of
              Inl e \<Rightarrow> Inl e
            | Inr (len, bytes, s1) \<Rightarrow>
                if 0 < len
                then Inr (Some (len, bytes), rh_init_int_timer HZ jiffies u
                       (if urb_complete u then complete_urb up s1 else s1))
                else Inr (None, rh_init_int_timer HZ jiffies u s1))
      else Inr (None, rh_init_int_timer HZ jiffies u s))"

section \<open>Requests to the hub\<close>

text \<open>What \<open>setup_packet\<close> points to.\<close>

record devrequest =
  requesttype :: u8
  request :: u8
  dr_value :: u16
  dr_index :: u16
  dr_length :: u16

definition le_bytes :: "u32 \<Rightarrow> u8 list" where
  "le_bytes v = [ucast v, ucast (drop_bit 8 v), ucast (drop_bit 16 v), ucast (drop_bit 24 v)]"

definition put_bytes :: "u8 list \<Rightarrow> u8 list \<Rightarrow> u8 list" where
  "put_bytes b buf = b @ drop (length b) buf"

text \<open>A branch of the \<open>switch\<close> leaves the buffer the answer is copied from (\<open>None\<close> when it is
  already in place), its length \<open>len\<close>, the condition code, and the state.\<close>

type_synonym 'a answer = "u8 list option \<times> u32 \<times> nat \<times> 'a ohci_scheme"

definition ok :: "u8 list \<Rightarrow> u32 \<Rightarrow> 'a ohci_scheme \<Rightarrow> 'a answer" where
  "ok buf len s = (Some buf, len, TD_CC_NOERROR, s)"

definition stall :: "u8 list \<Rightarrow> u32 \<Rightarrow> 'a ohci_scheme \<Rightarrow> 'a answer" where
  "stall buf len s = (Some buf, len, TD_CC_STALL, s)"

text \<open>The bit that each clear-feature request of a port writes.\<close>

definition clear_port_mask :: "u16 \<Rightarrow> u32 option" where
  "clear_port_mask wValue =
     (if wValue = RH_PORT_ENABLE then Some RH_PS_CCS
      else if wValue = RH_PORT_SUSPEND then Some RH_PS_POCI
      else if wValue = RH_PORT_POWER then Some RH_PS_LSDA
      else if wValue = RH_C_PORT_CONNECTION then Some RH_PS_CSC
      else if wValue = RH_C_PORT_ENABLE then Some RH_PS_PESC
      else if wValue = RH_C_PORT_SUSPEND then Some RH_PS_PSSC
      else if wValue = RH_C_PORT_OVER_CURRENT then Some RH_PS_OCIC
      else if wValue = RH_C_PORT_RESET then Some RH_PS_PRSC
      else None)"

definition clear_port :: "u16 \<Rightarrow> ohci_reg \<Rightarrow> 'a ohci_scheme \<Rightarrow> 'a ohci_scheme" where
  "clear_port wValue port s = (case clear_port_mask wValue of None \<Rightarrow> s | Some m \<Rightarrow> writel m port s)"

text \<open>The two requests that are only passed on when a device is connected.\<close>

definition if_connected :: "hw \<Rightarrow> ohci_reg \<Rightarrow> u32 \<Rightarrow> 'a ohci_scheme \<Rightarrow> 'a ohci_scheme" where
  "if_connected hw port m s =
     (let (v, s1) = readl hw port s in if v AND RH_PS_CCS \<noteq> 0 then writel m port s1 else s1)"

definition set_port :: "hw \<Rightarrow> u16 \<Rightarrow> ohci_reg \<Rightarrow> 'a ohci_scheme \<Rightarrow> 'a ohci_scheme" where
  "set_port hw wValue port s =
     (if wValue = RH_PORT_SUSPEND then writel RH_PS_PSS port s
      else if wValue = RH_PORT_RESET then if_connected hw port RH_PS_PRS s
      else if wValue = RH_PORT_POWER then writel RH_PS_PPS port s
      else if wValue = RH_PORT_ENABLE then if_connected hw port RH_PS_PES s
      else s)"

definition get_descriptor ::
  "(u8 \<Rightarrow> u16 \<Rightarrow> u32 \<times> u8 list) \<Rightarrow> u32 \<Rightarrow> u16 \<Rightarrow> u16 \<Rightarrow> u8 list \<Rightarrow> 'a ohci_scheme \<Rightarrow> 'a answer" where
  "get_descriptor hub_string leni wValue wLength datab s =
     (let kind = drop_bit 8 (wValue AND 0xff00) in
      if kind = 0x01
      then ok root_hub_dev_des (min_u leni (min_u (of_nat (length root_hub_dev_des)) (ucast wLength))) s
      else if kind = 0x02
      then ok root_hub_config_des (min_u leni (min_u (of_nat (length root_hub_config_des)) (ucast wLength))) s
      else if kind = 0x03
      then (let (len, bytes) = hub_string (ucast (wValue AND 0xff)) wLength in
        if 0 < sint len
        then (None, if sint leni < sint len then leni else len, TD_CC_NOERROR, s)
        else stall datab len s)
      else stall datab 0 s)"

text \<open>The hub descriptor, built in \<open>datab\<close> from the registers \<open>a\<close> and \<open>b\<close>.\<close>

definition hub_flags :: "u32 \<Rightarrow> u8" where
  "hub_flags a = (if a AND RH_A_PSM \<noteq> 0 then 0x1 else 0) OR
     (if a AND RH_A_NOCP \<noteq> 0 then 0x10 else if a AND RH_A_OCPM \<noteq> 0 then 0x8 else 0)"

definition hub_descriptor :: "u32 \<Rightarrow> u32 \<Rightarrow> u8 list \<Rightarrow> u8 list" where
  "hub_descriptor a b datab =
     (let ports = ucast (a AND RH_A_NDP) :: u8;
          d = datab[0 := 9, 1 := 0x29, 2 := ports, 3 := hub_flags a, 4 := 0, 5 := 0, 6 := 0, 7 := 0,
                5 := ucast (drop_bit 24 (a AND RH_A_POTPGT)), 7 := ucast (b AND RH_B_DR)] in
      if ports < 7 then d[8 := 0xff]
      else d[0 := 9 + 2, 8 := ucast (drop_bit 8 (b AND RH_B_DR)), 9 := 0xff, 10 := 0xff])"

text \<open>The \<open>min\<close> macro on \<open>int\<close>s.\<close>

definition min_s :: "u32 \<Rightarrow> u32 \<Rightarrow> u32" where
  "min_s a b = (if sint a < sint b then a else b)"

definition rh_request ::
  "hw \<Rightarrow> (u8 \<Rightarrow> u16 \<Rightarrow> u32 \<times> u8 list) \<Rightarrow> u8 list \<Rightarrow> u32 \<Rightarrow> devrequest \<Rightarrow> 'a ohci_scheme \<Rightarrow> 'a answer" where
  "rh_request hw hub_string datab leni cmd s =
     (let bmRType_bReq = ucast (requesttype cmd) OR push_bit 8 (ucast (request cmd)) :: u16;
          wValue = dr_value cmd; wIndex = dr_index cmd; wLength = dr_length cmd;
          port = Rh_portstatus (uint wIndex - 1) in
      if bmRType_bReq = RH_GET_STATUS then ok (put_bytes [1, 0] datab) 2 s
      else if bmRType_bReq = RH_GET_STATUS OR RH_INTERFACE then ok (put_bytes [0, 0] datab) 2 s
      else if bmRType_bReq = RH_GET_STATUS OR RH_ENDPOINT then ok (put_bytes [0, 0] datab) 2 s
      else if bmRType_bReq = RH_GET_STATUS OR RH_CLASS
      then (let (v, s1) = readl hw Rh_status s in
        ok (put_bytes (le_bytes (v AND NOT (RH_HS_CRWE OR RH_HS_DRWE))) datab) 4 s1)
      else if bmRType_bReq = RH_GET_STATUS OR RH_OTHER OR RH_CLASS
      then (let (v, s1) = readl hw port s in ok (put_bytes (le_bytes v) datab) 4 s1)
      else if bmRType_bReq = RH_CLEAR_FEATURE OR RH_ENDPOINT then ok datab 0 s
      else if bmRType_bReq = RH_CLEAR_FEATURE OR RH_CLASS
      then ok datab 0 (if wValue = RH_C_HUB_OVER_CURRENT then writel RH_HS_OCIC Rh_status s else s)
      else if bmRType_bReq = RH_CLEAR_FEATURE OR RH_OTHER OR RH_CLASS
      then ok datab 0 (clear_port wValue port s)
      else if bmRType_bReq = RH_SET_FEATURE OR RH_OTHER OR RH_CLASS
      then ok datab 0 (set_port hw wValue port s)
      else if bmRType_bReq = RH_SET_ADDRESS then ok datab 0 (s\<lparr>rh_devnum := ucast wValue\<rparr>)
      else if bmRType_bReq = RH_GET_DESCRIPTOR
      then get_descriptor hub_string leni wValue wLength datab s
      else if bmRType_bReq = RH_GET_DESCRIPTOR OR RH_CLASS
      then (let (a, s1) = readl hw Rh_a s; (b, s2) = readl hw Rh_b s1;
                d = hub_descriptor a b datab in
        ok d (min_s leni (min_s (ucast (d ! 0)) (ucast wLength))) s2)
      else if bmRType_bReq = RH_GET_CONFIGURATION then ok (put_bytes [1] datab) 1 s
      else if bmRType_bReq = RH_SET_CONFIGURATION then ok datab 0 (writel 0x10000 Rh_status s)
      else stall datab 0 s)"

text \<open>The answer is clipped to the URB's buffer, copied there and the URB completed. An URB on the
  interrupt pipe only starts the timer.\<close>

definition rh_submit_urb ::
  "kenv \<Rightarrow> hw \<Rightarrow> u32 \<Rightarrow> u32 \<Rightarrow> (u8 \<Rightarrow> u16 \<Rightarrow> u32 \<times> u8 list) \<Rightarrow> u8 list \<Rightarrow> addr \<Rightarrow> urb \<Rightarrow> devrequest option \<Rightarrow>
   'a ohci_scheme \<Rightarrow> hub_err + (hub_out \<times> 'a ohci_scheme)" where
  "rh_submit_urb K hw HZ jiffies hub_string datab up u setup s =
     (if usb_pipeint K (urb_pipe u) \<noteq> 0
      then Inr (\<lparr>ho_bytes = [], ho_actual = sint (urb_actual_length u), ho_status = cc_to_error ! TD_CC_NOERROR,
                  ho_complete = False\<rparr>,
             rh_init_int_timer HZ jiffies u (s\<lparr>rh_urb := up, rh_send := True, rh_interval := urb_interval u\<rparr>))
      else (case setup of
              None \<Rightarrow> Inl No_setup_packet
            | Some cmd \<Rightarrow>
                let leni = urb_transfer_buffer_length u;
                    (data_buf, len, status, s1) = rh_request hw hub_string datab leni cmd s;
                    len = min_s len leni in
                if data_buf \<noteq> None \<and> sint len < 0 then Inl Huge_copy
                else Inr (\<lparr>ho_bytes = (case data_buf of
                              None \<Rightarrow> snd (hub_string (ucast (dr_value cmd AND 0xff)) (dr_length cmd))
                            | Some b \<Rightarrow> take (nat (sint len)) b),
                            ho_actual = sint len, ho_status = cc_to_error ! status,
                            ho_complete = urb_complete u\<rparr>,
                       if urb_complete u then complete_urb up s1 else s1)))"

definition rh_unlink_urb :: "addr \<Rightarrow> 'a ohci_scheme \<Rightarrow> 'a ohci_scheme" where
  "rh_unlink_urb up s = (if rh_urb s = up then s\<lparr>rh_send := False, rh_timer := None\<rparr> else s)"

section \<open>The status bitmap\<close>

text \<open>Port \<open>m\<close> has changed, for a hub whose registers read \<open>f\<close>.\<close>

definition port_changed :: "(ohci_reg \<Rightarrow> u32) \<Rightarrow> nat \<Rightarrow> bool" where
  "port_changed f m \<longleftrightarrow> f (Rh_portstatus (int m)) AND PORT_CHANGES \<noteq> 0"

definition set_change :: "bool \<Rightarrow> nat \<Rightarrow> u8 list \<Rightarrow> u8 list" where
  "set_change c i data = data[(i + 1) div 8 := data ! ((i + 1) div 8) OR (if c then push_bit ((i + 1) mod 8) 1 else 0)]"

lemma byte_pos: "j < 8 \<Longrightarrow> 8 * k + j = m \<longleftrightarrow> k = m div 8 \<and> j = m mod (8 :: nat)"
proof
  assume "j < 8" "8 * k + j = m"
  then show "k = m div 8 \<and> j = m mod 8" by auto
next
  assume "k = m div 8 \<and> j = m mod 8"
  then show "8 * k + j = m" by simp
qed

lemma one_bit_u8: "j < 8 \<Longrightarrow> bit (push_bit m (1 :: u8)) j \<longleftrightarrow> j = m"
  by (auto simp: bit_exp_iff)

lemma set_change_bits:
  assumes "(i + 1) div 8 < length data" "k < length data" "j < 8"
  shows "bit (set_change c i data ! k) j \<longleftrightarrow> bit (data ! k) j \<or> (c \<and> 8 * k + j = i + 1)"
proof -
  have e: "8 * k + j = i + 1 \<longleftrightarrow> k = (i + 1) div 8 \<and> j = (i + 1) mod 8" using assms(3) by (rule byte_pos)
  have p: "bit (push_bit ((i + 1) mod 8) (1 :: u8)) j \<longleftrightarrow> j = (i + 1) mod 8"
    using assms(3) by (rule one_bit_u8)
  show ?thesis
  proof (cases "k = (i + 1) div 8")
    case True
    then have "set_change c i data ! k = data ! k OR (if c then push_bit ((i + 1) mod 8) 1 else 0)"
      using assms(1) by (simp add: set_change_def)
    then show ?thesis using True e p by (cases c) (auto simp: bit_or_iff simp del: Suc_eq_plus1 add_Suc_right)
  next
    case False
    then have "set_change c i data ! k = data ! k" by (simp add: set_change_def)
    then show ?thesis using False e by simp
  qed
qed

lemma set_change_length [simp]: "length (set_change c i data) = length data"
  by (simp add: set_change_def)

lemma port_loop_stable:
  "n < 8 * length data \<Longrightarrow> i < n \<Longrightarrow> port_loop (\<lambda>_. f) n i data ret s =
     port_loop (\<lambda>_. f) n (Suc i) (set_change (port_changed f i) i data)
       (ret + unat (set_change (port_changed f i) i data ! ((i + 1) div 8)))
       (s\<lparr>io := io s @ [Rd (Rh_portstatus (int i)) (f (Rh_portstatus (int i)))]\<rparr>)"
proof -
  assume a: "n < 8 * length data" "i < n"
  then have "(i + 1) div 8 < length data" by linarith
  then show ?thesis using a(2)
    by (subst port_loop.simps) (simp add: readl_def Let_def set_change_def port_changed_def del: PORT_CHANGES_def)
qed

lemma port_loop_bits:
  assumes "n < 8 * length data" "i \<le> n"
  shows "\<exists>d r t. port_loop (\<lambda>_. f) n i data ret s = Inr (d, r, t) \<and> length d = length data \<and>
    (\<forall>k < length data. \<forall>j < 8. bit (d ! k) j \<longleftrightarrow> bit (data ! k) j \<or>
       (i < 8 * k + j \<and> 8 * k + j \<le> n \<and> port_changed f (8 * k + j - 1))) \<and>
    (0 < r \<longleftrightarrow> 0 < ret \<or> (\<exists>k. i < n \<and> (i + 1) div 8 \<le> k \<and> k \<le> n div 8 \<and> d ! k \<noteq> 0))"
  using assms
proof (induction "n - i" arbitrary: i data ret s)
  case 0
  then have "i = n" by simp
  then show ?case by (subst port_loop.simps) auto
next
  case (Suc x)
  let ?k0 = "(i + 1) div 8" and ?d1 = "set_change (port_changed f i) i data"
  let ?s1 = "s\<lparr>io := io s @ [Rd (Rh_portstatus (int i)) (f (Rh_portstatus (int i)))]\<rparr>"
  have lt: "i < n" using Suc.hyps(2) by simp
  then have k0: "?k0 < length data" using Suc.prems(1) by linarith
  have "x = n - Suc i" "n < 8 * length ?d1" "Suc i \<le> n" using Suc.hyps(2) Suc.prems lt by simp_all
  from Suc.hyps(1)[OF this, of "ret + unat (?d1 ! ?k0)" ?s1] obtain d r t where
    run: "port_loop (\<lambda>_. f) n (Suc i) ?d1 (ret + unat (?d1 ! ?k0)) ?s1 = Inr (d, r, t)"
    and len: "length d = length data"
    and bits: "\<forall>k < length data. \<forall>j < 8. bit (d ! k) j \<longleftrightarrow> bit (?d1 ! k) j \<or>
       (Suc i < 8 * k + j \<and> 8 * k + j \<le> n \<and> port_changed f (8 * k + j - 1))"
    and r: "0 < r \<longleftrightarrow> 0 < ret + unat (?d1 ! ?k0) \<or>
       (\<exists>k. Suc i < n \<and> (Suc i + 1) div 8 \<le> k \<and> k \<le> n div 8 \<and> d ! k \<noteq> 0)"
    unfolding set_change_length by (elim exE conjE) (rule that)
  have bits': "bit (d ! k) j \<longleftrightarrow> bit (data ! k) j \<or>
       (i < 8 * k + j \<and> 8 * k + j \<le> n \<and> port_changed f (8 * k + j - 1))" if "k < length data" "j < 8" for k j
  proof -
    have b: "bit (d ! k) j \<longleftrightarrow> bit (?d1 ! k) j \<or>
       (Suc i < 8 * k + j \<and> 8 * k + j \<le> n \<and> port_changed f (8 * k + j - 1))"
      using bits that by blast
    show ?thesis unfolding b set_change_bits[OF k0 that]
      using lt by (cases "8 * k + j = i + 1") (simp, linarith?)+
  qed
  have r': "0 < r \<longleftrightarrow> 0 < ret \<or> (\<exists>k. i < n \<and> ?k0 \<le> k \<and> k \<le> n div 8 \<and> d ! k \<noteq> 0)"
  proof -
    have up: "d ! ?k0 \<noteq> 0" if "?d1 ! ?k0 \<noteq> 0"
    proof -
      from that obtain j where "j < 8" "bit (?d1 ! ?k0) j" by (auto simp: bit_eq_iff dest: bit_imp_le_length)
      then have "bit (d ! ?k0) j" using bits k0 by blast
      then show ?thesis by auto
    qed
    have down: "?d1 ! k \<noteq> 0" if "d ! k \<noteq> 0" "?k0 \<le> k" "k \<le> n div 8" "\<not> (Suc i < n \<and> (Suc i + 1) div 8 \<le> k)" for k
    proof -
      from that obtain j where j: "j < 8" "bit (d ! k) j" by (auto simp: bit_eq_iff dest: bit_imp_le_length)
      have kl: "k < length data" using that(3) Suc.prems(1) by linarith
      have "\<not> (Suc i < 8 * k + j \<and> 8 * k + j \<le> n)" using that(2-4) j(1) by linarith
      then have "bit (?d1 ! k) j" using bits kl j by blast
      then show ?thesis by auto
    qed
    have same: "k = ?k0" if "?k0 \<le> k" "k \<le> n div 8" "\<not> (Suc i < n \<and> (Suc i + 1) div 8 \<le> k)" for k
      using that lt by linarith
    have in_range: "?k0 \<le> n div 8" using lt by (intro div_le_mono) simp
    have pos: "0 < unat (?d1 ! ?k0) \<longleftrightarrow> ?d1 ! ?k0 \<noteq> 0" by (simp add: unat_gt_0)
    have mono: "?k0 \<le> (Suc i + 1) div 8" by (intro div_le_mono) simp
    show ?thesis
    proof
      assume "0 < r"
      then consider "0 < ret" | "?d1 ! ?k0 \<noteq> 0" | k where "(Suc i + 1) div 8 \<le> k" "k \<le> n div 8" "d ! k \<noteq> 0"
        unfolding r add_gr_0 pos by blast
      then show "0 < ret \<or> (\<exists>k. i < n \<and> ?k0 \<le> k \<and> k \<le> n div 8 \<and> d ! k \<noteq> 0)"
        using up in_range lt mono by cases (blast intro: order_trans)+
    next
      assume "0 < ret \<or> (\<exists>k. i < n \<and> ?k0 \<le> k \<and> k \<le> n div 8 \<and> d ! k \<noteq> 0)"
      then show "0 < r" unfolding r add_gr_0 pos using same down by blast
    qed
  qed
  show ?case
    using port_loop_stable[OF Suc.prems(1) lt, of f ret s] run len bits' r' by auto
qed

definition hub_changed :: "(ohci_reg \<Rightarrow> u32) \<Rightarrow> bool" where
  "hub_changed f \<longleftrightarrow> f Rh_status AND (RH_HS_LPSC OR RH_HS_OCIC) \<noteq> 0"

text \<open>What a bit of the status bytes is: the hub's own in bit 0, then one bit per port.\<close>

definition change_bit :: "(ohci_reg \<Rightarrow> u32) \<Rightarrow> nat \<Rightarrow> nat \<Rightarrow> bool" where
  "change_bit f n b \<longleftrightarrow> (if b = 0 then hub_changed f else b \<le> n \<and> port_changed f (b - 1))"

lemma rh_send_irq_run:
  assumes n: "n = unat (f Rh_a AND RH_A_NDP)" "n < 64" and junk: "length junk = 8"
  shows "\<exists>d (r :: nat) t. rh_send_irq (\<lambda>_. f) junk rh_len s =
      (if 0 < r then Inr (n div 8 + 1, take (unat (min_u (of_nat (n div 8 + 1)) (min_u rh_len 8))) d, t)
       else Inr (0, [], t)) \<and> length d = 8 \<and>
    (\<forall>k < 8. \<forall>j < 8. bit (d ! k) j \<longleftrightarrow> change_bit f n (8 * k + j) \<or> (0 < k \<and> bit (junk ! k) j)) \<and>
    (0 < r \<longleftrightarrow> (\<exists>k \<le> n div 8. d ! k \<noteq> 0))"
proof -
  let ?h = "if hub_changed f then 1 else 0 :: u8"
  let ?data = "junk[0 := ?h]"
  let ?s2 = "s\<lparr>io := io s @ [Rd Rh_a (f Rh_a)] @ [Rd Rh_status (f Rh_status)]\<rparr>"
  have len: "n < 8 * length ?data" "0 \<le> n" using n(2) junk by simp_all
  from port_loop_bits[OF len, of f "unat (?data ! 0)" ?s2] obtain d r t where
    run: "port_loop (\<lambda>_. f) n 0 ?data (unat (?data ! 0)) ?s2 = Inr (d, r, t)" and ld: "length d = length ?data"
    and bits: "\<forall>k < length ?data. \<forall>j < 8. bit (d ! k) j \<longleftrightarrow> bit (?data ! k) j \<or>
       (0 < 8 * k + j \<and> 8 * k + j \<le> n \<and> port_changed f (8 * k + j - 1))"
    and r: "0 < r \<longleftrightarrow> 0 < unat (?data ! 0) \<or> (\<exists>k. 0 < n \<and> (0 + 1) div 8 \<le> k \<and> k \<le> n div 8 \<and> d ! k \<noteq> 0)"
    by (elim exE conjE) (rule that)
  have run2: "rh_send_irq (\<lambda>_. f) junk rh_len s =
      (if 0 < r then Inr (n div 8 + 1, take (unat (min_u (of_nat (n div 8 + 1)) (min_u rh_len 8))) d, t)
       else Inr (0, [], t))"
    using run unfolding rh_send_irq_def readl_def Let_def
    by (simp add: hub_changed_def n(1)[symmetric] del: RH_A_NDP_def RH_HS_LPSC_def RH_HS_OCIC_def)
  have b: "bit (d ! k) j \<longleftrightarrow> change_bit f n (8 * k + j) \<or> (0 < k \<and> bit (junk ! k) j)" if "k < 8" "j < 8" for k j
  proof -
    have "bit (d ! k) j \<longleftrightarrow> bit (?data ! k) j \<or>
       (0 < 8 * k + j \<and> 8 * k + j \<le> n \<and> port_changed f (8 * k + j - 1))"
      using bits that junk by simp
    moreover have "bit ?h j \<longleftrightarrow> j = 0 \<and> hub_changed f" by (auto simp: bit_1_iff)
    ultimately show ?thesis using that junk by (cases k) (auto simp: change_bit_def)
  qed
  have r2: "0 < r \<longleftrightarrow> (\<exists>k \<le> n div 8. d ! k \<noteq> 0)"
  proof -
    have h: "?data ! 0 = ?h" using junk by simp
    have up: "hub_changed f \<Longrightarrow> d ! 0 \<noteq> 0"
      using b[of 0 0] by (auto simp: change_bit_def)
    have "n = 0 \<Longrightarrow> \<not> hub_changed f \<Longrightarrow> d ! 0 = 0"
      using b[of 0] by (intro bit_eqI) (auto simp: change_bit_def dest: bit_imp_le_length)
    with up show ?thesis unfolding r h by (cases "n = 0") auto
  qed
  have "length d = 8" using ld junk by simp
  with run2 b r2 show ?thesis
    by - (rule exI[where x = d], rule exI[where x = r], rule exI[where x = t], simp)
qed

text \<open>Up to six ports the first byte has all the bits.\<close>

lemma first_byte:
  fixes w :: u8
  assumes "n \<le> 6" "\<forall>j < 8. bit w j \<longleftrightarrow> change_bit f n j"
  shows "w \<noteq> 0 \<longleftrightarrow> (\<exists>b \<le> n. change_bit f n b)"
proof -
  have "w \<noteq> 0 \<longleftrightarrow> (\<exists>j < 8. bit w j)" by (auto simp: bit_eq_iff dest: bit_imp_le_length)
  also have "\<dots> \<longleftrightarrow> (\<exists>j < 8. change_bit f n j)" using assms(2) by auto
  also have "\<dots> \<longleftrightarrow> (\<exists>b \<le> n. change_bit f n b)"
  proof
    assume "\<exists>j < 8. change_bit f n j"
    then obtain j where "change_bit f n j" by blast
    moreover from this have "j \<le> n" by (cases "j = 0") (simp_all add: change_bit_def)
    ultimately show "\<exists>b \<le> n. change_bit f n b" by blast
  next
    assume "\<exists>b \<le> n. change_bit f n b"
    then obtain b where "b \<le> n" "change_bit f n b" by blast
    then show "\<exists>j < 8. change_bit f n j" using assms(1) by (intro exI[of _ b]) simp
  qed
  finally show ?thesis .
qed

text \<open>C29. The interrupt endpoint of the hub, for a controller with fewer than 64 ports whose
  registers do not change meanwhile. In the bytes stored, bit 0 is the hub's change and bit \<open>b\<close>
  that of port \<open>b - 1\<close>; but every byte after the first also shows what was in the automatic array
  before, because it is only ORed into. Up to six ports there is one byte, so the report is exact,
  and it is sent (length 1, or nothing) precisely when something changed.\<close>

theorem rh_send_irq_bitmap:
  assumes "n = unat (f Rh_a AND RH_A_NDP)" "n < 64" "length junk = 8"
  shows "\<exists>len bytes t. rh_send_irq (\<lambda>_. f) junk rh_len s = Inr (len, bytes, t) \<and>
    (\<forall>k < length bytes. \<forall>j < 8.
       bit (bytes ! k) j \<longleftrightarrow> change_bit f n (8 * k + j) \<or> (0 < k \<and> bit (junk ! k) j)) \<and>
    (n \<le> 6 \<longrightarrow> len = (if \<exists>b \<le> n. change_bit f n b then 1 else 0))"
proof -
  from rh_send_irq_run[where f = f, OF assms, of rh_len s] obtain d and r :: nat and t where
    run: "rh_send_irq (\<lambda>_. f) junk rh_len s =
      (if 0 < r then Inr (n div 8 + 1, take (unat (min_u (of_nat (n div 8 + 1)) (min_u rh_len 8))) d, t)
       else Inr (0, [], t))" and d: "length d = 8"
    and bits: "\<forall>k < 8. \<forall>j < 8. bit (d ! k) j \<longleftrightarrow> change_bit f n (8 * k + j) \<or> (0 < k \<and> bit (junk ! k) j)"
    and r: "0 < r \<longleftrightarrow> (\<exists>k \<le> n div 8. d ! k \<noteq> 0)" by (elim exE conjE) (rule that)
  have one: "0 < r \<longleftrightarrow> (\<exists>b \<le> n. change_bit f n b)" if "n \<le> 6"
    using r that first_byte[of n "d ! 0" f] bits by auto
  show ?thesis
  proof (cases "0 < r")
    case True
    let ?bytes = "take (unat (min_u (of_nat (n div 8 + 1)) (min_u rh_len 8))) d"
    have "rh_send_irq (\<lambda>_. f) junk rh_len s = Inr (n div 8 + 1, ?bytes, t)" using run True by simp
    moreover have "\<forall>k < length ?bytes. \<forall>j < 8.
        bit (?bytes ! k) j \<longleftrightarrow> change_bit f n (8 * k + j) \<or> (0 < k \<and> bit (junk ! k) j)"
    proof (intro allI impI)
      fix k j :: nat assume k: "k < length ?bytes" and j: "j < 8"
      then have "k < 8" "?bytes ! k = d ! k" using d by simp_all
      with bits j show "bit (?bytes ! k) j \<longleftrightarrow> change_bit f n (8 * k + j) \<or> (0 < k \<and> bit (junk ! k) j)"
        by simp
    qed
    moreover have "n \<le> 6 \<longrightarrow> n div 8 + 1 = (if \<exists>b \<le> n. change_bit f n b then 1 else 0)"
      using one True by auto
    ultimately show ?thesis by blast
  next
    case False
    then show ?thesis unfolding run using one by auto
  qed
qed

definition quiet_hub :: "ohci_reg \<Rightarrow> u32" where
  "quiet_hub r = (if r = Rh_a then 7 else 0)"

text \<open>A hub of six ports, of which the third has seen a connection change.\<close>

definition six_ports :: "ohci_reg \<Rightarrow> u32" where
  "six_ports r = (if r = Rh_a then 6 else if r = Rh_portstatus 2 then RH_PS_CSC else 0)"

theorem rh_send_irq_bitmap_witness:
  "\<exists>bytes t. rh_send_irq (\<lambda>_. six_ports) (replicate 8 0) 2 ohci_zero = Inr (1, bytes, t)"
proof -
  have "(6::nat) = unat (six_ports Rh_a AND RH_A_NDP)" "(6::nat) < 64" "length (replicate 8 (0::u8)) = 8"
    by (simp_all add: six_ports_def)
  from rh_send_irq_bitmap[where f = six_ports, OF this, of 2 ohci_zero] obtain len bytes t where
    "rh_send_irq (\<lambda>_. six_ports) (replicate 8 0) 2 ohci_zero = Inr (len, bytes, t)"
    "len = (if \<exists>b \<le> 6. change_bit six_ports 6 b then 1 else 0)" by auto
  moreover have "change_bit six_ports 6 3" by (simp add: change_bit_def port_changed_def six_ports_def)
  then have "\<exists>b \<le> 6. change_bit six_ports 6 b" by (intro exI[of _ 3]) simp
  ultimately show ?thesis by simp
qed

section \<open>Answers of the hub\<close>

lemma sint_min_s [simp]: "sint (min_s a b) = min (sint a) (sint b)"
  by (simp add: min_s_def)

lemma sint_min_u:
  assumes "unat c < 2 ^ 31"
  shows "0 \<le> sint (min_u a (min_u c b)) \<and> sint (min_u a (min_u c b)) \<le> int (unat c)"
proof -
  have "unat (min_u a (min_u c b)) \<le> unat c" by simp
  with assms have "unat (min_u a (min_u c b)) < 2 ^ 31" by (rule le_less_trans[rotated])
  from sint_small[OF this] show ?thesis
    using \<open>unat (min_u a (min_u c b)) \<le> unat c\<close> by (simp only: of_nat_le_iff of_nat_0_le_iff)
qed

text \<open>Two answers that differ only in bytes that are not copied.\<close>

definition same_answer :: "u32 \<Rightarrow> 'a answer \<Rightarrow> 'a answer \<Rightarrow> bool" where
  "same_answer leni x y \<longleftrightarrow>
     (let n = nat (sint (min_s (fst (snd x)) leni)) in
      snd x = snd y \<and> fst (snd (snd x)) \<in> {TD_CC_NOERROR, TD_CC_STALL} \<and>
      0 \<le> sint (min_s (fst (snd x)) leni) \<and>
      (case fst x of None \<Rightarrow> fst y = None
       | Some b \<Rightarrow> n \<le> length b \<and> (\<exists>b'. fst y = Some b' \<and> take n b = take n b')))"

lemma same_if:
  "(c \<Longrightarrow> same_answer l a b) \<Longrightarrow> (\<not> c \<Longrightarrow> same_answer l a' b') \<Longrightarrow>
   same_answer l (if c then a else a') (if c then b else b')"
  by simp

lemma same_ok:
  assumes "0 \<le> sint l" "0 \<le> sint len" "sint len \<le> int (length b)" "take (nat (sint len)) b = take (nat (sint len)) b'"
  shows "same_answer l (ok b len s) (ok b' len s)"
proof -
  have "take (nat (min (sint len) (sint l))) b = take (nat (min (sint len) (sint l))) b'"
    using assms(4) by (metis min.cobounded1 nat_mono take_take min.absorb1)
  then show ?thesis using assms by (simp add: same_answer_def ok_def Let_def)
qed

lemma same_ok0: "0 \<le> sint l \<Longrightarrow> same_answer l (ok b 0 s) (ok b' 0 s)"
  by (rule same_ok) simp_all

lemma same_stall0: "0 \<le> sint l \<Longrightarrow> same_answer l (stall b 0 s) (stall b' 0 s)"
  using same_ok0[of l b s b'] by (simp add: same_answer_def ok_def stall_def)

lemma same_put:
  assumes "0 \<le> sint l" "length datab = 16" "length datab' = 16" "length b = nat (sint len)" "length b \<le> 16" "0 \<le> sint len"
  shows "same_answer l (ok (put_bytes b datab) len s) (ok (put_bytes b datab') len s)"
  using assms by (intro same_ok) (auto simp: put_bytes_def)

lemma length_le_bytes [simp]: "length (le_bytes v) = 4"
  by (simp add: le_bytes_def)

lemma hub_descriptor_nth:
  assumes "length datab = 16" "i < 16"
  shows "hub_descriptor a b datab ! i =
    (let ports = ucast (a AND RH_A_NDP) :: u8; few = ports < 7 in
     if i = 0 then (if few then 9 else 11) else if i = 1 then 0x29 else if i = 2 then ports
     else if i = 3 then hub_flags a else if i = 5 then ucast (drop_bit 24 (a AND RH_A_POTPGT))
     else if i = 7 then ucast (b AND RH_B_DR) else if i = 4 \<or> i = 6 then 0
     else if i = 8 then (if few then 0xff else ucast (drop_bit 8 (b AND RH_B_DR)))
     else if (i = 9 \<or> i = 10) \<and> \<not> few then 0xff else datab ! i)"
  using assms by (simp add: hub_descriptor_def Let_def nth_list_update
      del: RH_A_NDP_def RH_A_POTPGT_def RH_B_DR_def)

lemma hub_descriptor_length [simp]: "length (hub_descriptor a b datab) = length datab"
  by (simp add: hub_descriptor_def Let_def)

lemma hub_descriptor_prefix:
  assumes "length datab = 16" "length datab' = 16"
  shows "unat (hub_descriptor a b datab ! 0) \<le> 11 \<and> hub_descriptor a b datab' ! 0 = hub_descriptor a b datab ! 0 \<and>
    take (unat (hub_descriptor a b datab ! 0)) (hub_descriptor a b datab) =
    take (unat (hub_descriptor a b datab ! 0)) (hub_descriptor a b datab')"
proof -
  let ?few = "(ucast (a AND RH_A_NDP) :: u8) < 7"
  have d0: "hub_descriptor a b x ! 0 = (if ?few then 9 else 11)" if "length x = 16" for x
    using hub_descriptor_nth[OF that, of 0 a b] by (simp add: Let_def)
  have "hub_descriptor a b datab ! i = hub_descriptor a b datab' ! i" if "i < (if ?few then 9 else 11)" for i
  proof -
    have "i < 16" using that by (auto split: if_splits)
    moreover have "\<not> (8 < i \<and> (?few \<or> 10 < i))" using that by (auto split: if_splits)
    moreover have "i = 0 \<or> i = 1 \<or> i = 2 \<or> i = 3 \<or> i = 4 \<or> i = 5 \<or> i = 6 \<or> i = 7 \<or> i = 8 \<or>
        ((i = 9 \<or> i = 10) \<and> \<not> ?few)" using that by (simp split: if_splits) arith+
    ultimately show ?thesis
      unfolding hub_descriptor_nth[OF assms(1) \<open>i < 16\<close>] hub_descriptor_nth[OF assms(2) \<open>i < 16\<close>] Let_def
      by (auto split: if_splits)
  qed
  then have "take (if ?few then 9 else 11) (hub_descriptor a b datab) = take (if ?few then 9 else 11) (hub_descriptor a b datab')"
    using assms by (intro nth_equalityI) simp_all
  then show ?thesis using d0[OF assms(1)] d0[OF assms(2)] by (cases ?few) simp_all
qed

lemma rh_request_same:
  assumes l: "0 \<le> sint l" and d: "length datab = 16" "length datab' = 16"
    and str: "\<forall>i n. 0 \<le> sint (fst (hub_string i n))"
  shows "same_answer l (rh_request hw hub_string datab l cmd s) (rh_request hw hub_string datab' l cmd s)"
proof -
  have small: "sint (1::u32) = 1" "sint (2::u32) = 2" "sint (4::u32) = 4" by simp_all
  have desc: "same_answer l (get_descriptor hub_string l v w datab s) (get_descriptor hub_string l v w datab' s)" for v w
  proof -
    have n: "unat (of_nat (length root_hub_dev_des) :: u32) = 18" "unat (of_nat (length root_hub_config_des) :: u32) = 25"
      "length root_hub_dev_des = 18" "length root_hub_config_des = 25"
      by (simp_all add: root_hub_dev_des_def root_hub_config_des_def)
    have dev: "same_answer l (ok root_hub_dev_des (min_u l (min_u (of_nat (length root_hub_dev_des)) (ucast w))) s)
        (ok root_hub_dev_des (min_u l (min_u (of_nat (length root_hub_dev_des)) (ucast w))) s)"
      using sint_min_u[of "of_nat (length root_hub_dev_des)" l "ucast w"] l n by (intro same_ok) simp_all
    have config: "same_answer l (ok root_hub_config_des (min_u l (min_u (of_nat (length root_hub_config_des)) (ucast w))) s)
        (ok root_hub_config_des (min_u l (min_u (of_nat (length root_hub_config_des)) (ucast w))) s)"
      using sint_min_u[of "of_nat (length root_hub_config_des)" l "ucast w"] l n by (intro same_ok) simp_all
    have string: "same_answer l
       (let (len, bytes) = hub_string i w in if 0 < sint len
        then (None, if sint l < sint len then l else len, TD_CC_NOERROR, s) else stall datab len s)
       (let (len, bytes) = hub_string i w in if 0 < sint len
        then (None, if sint l < sint len then l else len, TD_CC_NOERROR, s) else stall datab' len s)" for i
      using str[rule_format, of i w] l
      by (auto simp: same_answer_def stall_def Let_def split: prod.splits)
    show ?thesis unfolding get_descriptor_def Let_def
      by (intro same_if dev config same_stall0[OF l] string[unfolded Let_def])
  qed
  have read: "same_answer l (let (v, s1) = readl hw r s in F v s1) (let (v, s1) = readl hw r s in G v s1)"
    if "\<And>v s1. same_answer l (F v s1) (G v s1)" for r s and F G :: "u32 \<Rightarrow> 'a ohci_scheme \<Rightarrow> 'a answer"
    using that by (simp add: readl_def Let_def)
  have hub: "same_answer l
      (let d = hub_descriptor a b datab in ok d (min_s l (min_s (ucast (d ! 0)) (ucast w))) t)
      (let d = hub_descriptor a b datab' in ok d (min_s l (min_s (ucast (d ! 0)) (ucast w))) t)"
    for a b t and w :: u16
  proof -
    note p = hub_descriptor_prefix[OF d, of a b]
    have u: "sint (ucast (x :: u8) :: u32) = int (unat x)" "0 \<le> sint (ucast w :: u32)" for x
      using unsigned_less[of x, where 'a=nat] unsigned_less[of w, where 'a=nat] by (simp_all add: sint_small)
    let ?d = "hub_descriptor a b datab" and ?d' = "hub_descriptor a b datab'"
    let ?n = "min_s l (min_s (ucast (?d ! 0)) (ucast w))"
    have le: "sint ?n \<le> int (unat (?d ! 0))" "0 \<le> sint ?n"
      unfolding sint_min_s u using l u(2) by linarith+
    then have n: "0 \<le> sint ?n" "nat (sint ?n) \<le> unat (?d ! 0)" by linarith+
    have "take (nat (sint ?n)) ?d = take (nat (sint ?n)) ?d'"
      using arg_cong[OF conjunct2[OF conjunct2[OF p]], of "take (nat (sint ?n))"] n(2) by (simp add: min_absorb1)
    moreover have "sint ?n \<le> int (length ?d)"
      unfolding hub_descriptor_length d(1) using le p by linarith
    ultimately have "same_answer l (ok ?d ?n t) (ok ?d' ?n t)" by (intro same_ok[OF l n(1)])
    moreover have "?d' ! 0 = ?d ! 0" using p by blast
    ultimately show ?thesis unfolding Let_def by simp
  qed
  show ?thesis unfolding rh_request_def Let_def[of "ucast _ OR _"] Let_def[of "dr_value _"] Let_def[of "dr_index _"]
      Let_def[of "dr_length _"] Let_def[of "Rh_portstatus _"]
    by (intro same_if read same_put[OF l d] same_ok0[OF l] same_stall0[OF l] desc hub) simp_all
qed

text \<open>C28. Every control request to the root hub, supported or not, is answered: for a buffer length
  that is not negative and a \<open>usb_root_hub_string\<close> that returns no negative length, the URB gets a
  status of 0 or \<open>-EPIPE\<close> and an actual length within its buffer, the copy stays inside the
  driver's buffers, the completion handler is called if there is one, and nothing of the answer
  depends on what the automatic array \<open>datab\<close> held before: no stale byte reaches the caller.\<close>

theorem rh_submit_urb_answers:
  assumes "usb_pipeint K (urb_pipe u) = 0" "0 \<le> sint (urb_transfer_buffer_length u)"
    and "\<forall>i n. 0 \<le> sint (fst (hub_string i n))"
  shows "\<exists>out t. (\<forall>datab. length datab = 16 \<longrightarrow>
      rh_submit_urb K hw HZ jiffies hub_string datab up u (Some cmd) s = Inr (out, t)) \<and>
    0 \<le> ho_actual out \<and> ho_actual out \<le> sint (urb_transfer_buffer_length u) \<and>
    (int (length (ho_bytes out)) = ho_actual out \<or> (\<exists>i n. ho_bytes out = snd (hub_string i n))) \<and>
    ho_status out \<in> {Done, EPIPE} \<and> ho_complete out = urb_complete u"
proof -
  let ?l = "urb_transfer_buffer_length u" and ?z = "replicate 16 0"
  obtain b len st t where r: "rh_request hw hub_string ?z ?l cmd s = (b, len, st, t)"
    by (cases "rh_request hw hub_string ?z ?l cmd s") auto
  let ?n = "min_s len ?l"
  define out where "out = \<lparr>ho_bytes = (case b of
        None \<Rightarrow> snd (hub_string (ucast (dr_value cmd AND 0xff)) (dr_length cmd))
      | Some b \<Rightarrow> take (nat (sint ?n)) b),
    ho_actual = sint ?n, ho_status = cc_to_error ! st, ho_complete = urb_complete u\<rparr>"
  have same: "same_answer ?l (b, len, st, t) (rh_request hw hub_string datab ?l cmd s)" if "length datab = 16" for datab
    using rh_request_same[OF assms(2) _ that assms(3), of ?z] r by (metis length_replicate)
  have n: "0 \<le> sint ?n" "st = TD_CC_NOERROR \<or> st = TD_CC_STALL"
    "\<forall>x. b = Some x \<longrightarrow> nat (sint ?n) \<le> length x"
    using same[of ?z] by (auto simp: same_answer_def Let_def)
  have "rh_submit_urb K hw HZ jiffies hub_string datab up u (Some cmd) s =
      Inr (out, if urb_complete u then complete_urb up t else t)" if d16: "length datab = 16" for datab
  proof -
    obtain b' where b': "rh_request hw hub_string datab ?l cmd s = (b', len, st, t)"
      using same[OF d16] by (cases "rh_request hw hub_string datab ?l cmd s") (auto simp: same_answer_def Let_def)
    have "case b of None \<Rightarrow> b' = None | Some x \<Rightarrow> \<exists>y. b' = Some y \<and> take (nat (sint ?n)) x = take (nat (sint ?n)) y"
      using same[OF d16] b' by (auto simp: same_answer_def Let_def split: option.splits)
    then show ?thesis using assms(1) b' n(1)
      by (auto simp: rh_submit_urb_def out_def Let_def split: option.splits)
  qed
  moreover have "int (length (ho_bytes out)) = ho_actual out \<or> (\<exists>i n. ho_bytes out = snd (hub_string i n))"
    using n(1,3) by (cases b) (auto simp: out_def min_absorb2)
  moreover have "0 \<le> ho_actual out" "ho_actual out \<le> sint ?l" "ho_status out \<in> {Done, EPIPE}"
      "ho_complete out = urb_complete u"
    using n(1,2) by (auto simp: out_def cc_to_error_def)
  ultimately show ?thesis by blast
qed

definition hub_urb :: urb where
  "hub_urb = \<lparr>urb_dev = Some \<lparr>devnum = 1, dev_bus = True\<rparr>, urb_pipe = 0x80000180,
     urb_transfer_flags = 0, urb_transfer_buffer = 0x1000, urb_transfer_buffer_length = 8,
     urb_actual_length = 0, urb_setup_packet = 0x2000, urb_interval = 0, urb_complete = True\<rparr>"

theorem rh_submit_urb_answers_witness:
  "\<exists>out t. rh_submit_urb linux_env (\<lambda>_. quiet_hub) 100 0 (\<lambda>i n. (0, [])) (replicate 16 0) 7 hub_urb
     (Some \<lparr>requesttype = 0xA0, request = 6, dr_value = 0x2900, dr_index = 0, dr_length = 15\<rparr>) ohci_zero =
       Inr (out, t) \<and> ho_actual out \<le> 8"
proof -
  have "usb_pipeint linux_env (urb_pipe hub_urb) = 0" "0 \<le> sint (urb_transfer_buffer_length hub_urb)"
    by (simp_all add: linux_env_def hub_urb_def drop_bit_eq_div)
  from rh_submit_urb_answers[OF this, of "\<lambda>i n. (0, [])" "\<lambda>_. quiet_hub" 100 0 7
      "\<lparr>requesttype = 0xA0, request = 6, dr_value = 0x2900, dr_index = 0, dr_length = 15\<rparr>" ohci_zero]
  show ?thesis by (fastforce simp: hub_urb_def)
qed

end
