(* ===== verification/Ohci_Urb.thy ===== *)
theory Ohci_Urb
  imports Ohci_Td Root_Hub
begin

text \<open>
  The life of an URB (\<open>urb_rm_priv\<close>, \<open>sohci_return_urb\<close>, \<open>sohci_submit_urb\<close> and the other operations
  of \<open>sohci_device_operations\<close>, \<open>dl_del_list\<close>, \<open>dl_done_list\<close> and \<open>hc_interrupt\<close> of
  \<open>portable-ohci-core.c\<close>): here the driver, the memory of the I/O processor, the root hub and the
  dumper meet. The calls \<open>SideDumper_OnSubmit\<close> and \<open>SideDumper_OnReturn\<close> are the events
  \<open>Dump_submit\<close> and \<open>Dump_return\<close> of the trace. A completion handler is client code: the event
  \<open>Complete\<close>, and then whatever \<open>on_complete\<close> does to the state.

  A result \<open>None\<close> means that the code does not return: it reads through \<open>NULL\<close> or freed memory, loops
  for ever, waits for a lock that is held, or has overrun an array of the allocator. Waiting for the
  lock is on a multiprocessor only; a uniprocessor kernel has no such lock.
\<close>

section \<open>Memory, use counts, completion\<close>

definition URB_DEL :: int where [simp]: "URB_DEL = 1"

definition free_local :: "addr \<Rightarrow> hcd \<Rightarrow> hcd" where
  "free_local a s = s\<lparr>hcd_dma := (hcd_dma s)\<lparr>dma_lm := snd (FreeLocalMem a (dma_lm (hcd_dma s)))\<rparr>\<rparr>"

text \<open>\<open>OHCI_ALLOC\<close>: the bus address of the block, or 0.\<close>

definition alloc_local :: "henv \<Rightarrow> alloc_in \<Rightarrow> int \<Rightarrow> hcd \<Rightarrow> (desc \<times> hcd) option" where
  "alloc_local K e sz s =
     (case AllocLocalMem (bus_to_virt K) e sz (dma_lm (hcd_dma s)) of
        Inl _ \<Rightarrow> None
      | Inr (r, l) \<Rightarrow> Some (case r of None \<Rightarrow> 0 | Some a \<Rightarrow> virt_to_bus K a,
          s\<lparr>hcd_dma := (hcd_dma s)\<lparr>dma_lm := l\<rparr>\<rparr>))"

definition urb_rm_priv :: "henv \<Rightarrow> addr \<Rightarrow> hcd \<Rightarrow> hcd" where
  "urb_rm_priv K u s =
     (case hcpriv (urbs s u) of
        None \<Rightarrow> s
      | Some p \<Rightarrow>
          let s1 = fold (\<lambda>t s. if t \<noteq> 0 then free_local (bus_to_virt K t) s else s) (take (unat (p_length p)) (p_td p)) s in
          upd_urb u (hcpriv_update (\<lambda>_. None))
            (s1\<lparr>hcd_dma := snd (Portable_FreeUrb (portable p) (hcd_dma s1))\<rparr>))"

definition dev_use_add :: "int \<Rightarrow> addr \<Rightarrow> hcd \<Rightarrow> hcd" where
  "dev_use_add n u s = (case urb_dev (urbs s u) of
     None \<Rightarrow> s | Some d \<Rightarrow> s\<lparr>dev_use := (dev_use s)(devnum d := dev_use s (devnum d) + n)\<rparr>)"

abbreviation usb_inc_dev_use :: "addr \<Rightarrow> hcd \<Rightarrow> hcd" where "usb_inc_dev_use \<equiv> dev_use_add 1"
abbreviation usb_dec_dev_use :: "addr \<Rightarrow> hcd \<Rightarrow> hcd" where "usb_dec_dev_use \<equiv> dev_use_add (- 1)"

definition event :: "io_event \<Rightarrow> hcd \<Rightarrow> hcd" where
  "event e s = s\<lparr>io := io s @ [e]\<rparr>"

definition call_complete :: "henv \<Rightarrow> addr \<Rightarrow> hcd \<Rightarrow> hcd" where
  "call_complete K u s = on_complete K u (event (Complete u) s)"

section \<open>Returning an URB\<close>

text \<open>The walk along the ring of isochronous URBs: \<open>urbt\<close> at the end.\<close>

partial_function (option) ring :: "addr \<Rightarrow> addr \<Rightarrow> hcd \<Rightarrow> addr option" where
  "ring u v s = (if v \<noteq> 0 \<and> v \<noteq> u then ring u (urb_next (urbs s v)) s else Some v)"

declare ring.simps [code]

definition reset_packets :: "hurb \<Rightarrow> iso_packet list" where
  "reset_packets w =
     (let n = nat (sint (urb_number_of_packets w)) in
      map (\<lambda>f. f\<lparr>iso_actual := 0, iso_status := EXDEV\<rparr>) (take n (iso_frame_desc w)) @ drop n (iso_frame_desc w))"

text \<open>\<open>urb_priv\<close> is read before the completion handler runs and used after it. A handler that unlinks
  the URB (and perhaps submits it again) frees the private part, and the code goes on with a pointer
  to freed memory: \<open>None\<close>. A private part has no address here; \<open>priv_kept\<close> says that the one found
  after the handler is the old one: it has the same endpoint and the same descriptors.\<close>

definition priv_kept :: "urb_priv \<Rightarrow> urb_priv option \<Rightarrow> bool" where
  "priv_kept p q = (case q of None \<Rightarrow> False | Some r \<Rightarrow> p_ed r = p_ed p \<and> p_td r = p_td p)"

definition requeue :: "henv \<Rightarrow> addr \<Rightarrow> urb_priv \<Rightarrow> hcd \<Rightarrow> (nat \<times> hcd) option" where
  "requeue K u p s =
     (case hcpriv (urbs s u) of
        None \<Rightarrow> None
      | Some q \<Rightarrow>
          if \<not> priv_kept p (Some q) then None
          else if p_state q \<noteq> URB_DEL then td_submit_urb K u s else Some (0, s))"

text \<open>The result is whether 0 is returned.\<close>

definition sohci_return_urb :: "henv \<Rightarrow> addr \<Rightarrow> hcd \<Rightarrow> (bool \<times> hcd) option" where
  "sohci_return_urb K u s =
     (if \<not> urb_complete (urbs s u) then Some (False, usb_dec_dev_use u (urb_rm_priv K u s))
      else case hcpriv (urbs s u) of
        None \<Rightarrow> Some (False, s)
      | Some p \<Rightarrow>
          let w = urbs s u; t = usb_pipetype K (urb_pipe w);
              s1 = event (Dump_return u) (s\<lparr>hcd_dma := Portable_PrepareUrbOnReturn (kenv.truncate K) (urb.truncate w)
                     (portable p) (hcd_dma s)\<rparr>) in
          if t = macro K PIPE_INTERRUPT
          then map_option (\<lambda>(_, s). (True, s)) (requeue K u p
                 (upd_urb u (\<lambda>w. w\<lparr>urb_actual_length := 0, urb_status := EINPROGRESS\<rparr>) (call_complete K u s1)))
          else if t = macro K PIPE_ISOCHRONOUS
          then Option.bind (ring u (urb_next w) s1) (\<lambda>urbt.
            if urbt \<noteq> 0
            then map_option (\<lambda>(_, s). (True, s)) (locked (\<lambda>s2.
              case hcpriv (urbs s2 u) of
                None \<Rightarrow> None
              | Some q \<Rightarrow>
                  if \<not> priv_kept p (Some q) then None
                  else let s3 = upd_urb u (\<lambda>w. w\<lparr>urb_actual_length := 0, urb_status := EINPROGRESS,
                             urb_start_frame := ucast (last_iso (eds s2 (p_ed q))) + 1\<rparr>) s2 in
                  if p_state q \<noteq> URB_DEL
                  then td_submit_urb K u (upd_urb u (\<lambda>w. w\<lparr>iso_frame_desc := reset_packets w\<rparr>) s3)
                  else Some (0, s3)) (call_complete K u s1))
            else Some (True, call_complete K u (usb_dec_dev_use u (urb_rm_priv K u s1))))
          else if t = macro K PIPE_BULK \<or> t = macro K PIPE_CONTROL
          then Some (True, call_complete K u (usb_dec_dev_use u (urb_rm_priv K u s1)))
          else Some (True, s1))"

section \<open>Deleting descriptors\<close>

text \<open>What \<open>td_p\<close> points to: the head pointer of an ED, or the next pointer of a TD.\<close>

datatype td_ptr = Head desc | After desc

fun read_tdp :: "td_ptr \<Rightarrow> hcd \<Rightarrow> u32" where
  "read_tdp (Head e) s = hwHeadP (eds s e)"
| "read_tdp (After t) s = hwNextTD (tds s t)"

fun write_tdp :: "td_ptr \<Rightarrow> u32 \<Rightarrow> hcd \<Rightarrow> hcd" where
  "write_tdp (Head e) v s = upd_ed e (hwHeadP_update (\<lambda>_. v)) s"
| "write_tdp (After t) v s = upd_td t (hwNextTD_update (\<lambda>_. v)) s"

text \<open>The braces in the source follow the indentation only in part: the waiting process is woken, or
  the URB completed, for every descriptor, not just the last.\<close>

definition del_td :: "henv \<Rightarrow> desc \<Rightarrow> td_ptr \<Rightarrow> hcd \<Rightarrow> hcd option" where
  "del_td K t tdp s =
     (let u = td_urb (tds s t) in
      Option.bind (if TD_CC_GET (tINFO (tds s t)) < 0xE then dl_transfer_length K t s else Some s) (\<lambda>s1.
        let s2 = write_tdp tdp (hwNextTD (tds s1 t) OR (read_tdp tdp s1 AND 0x3)) s1;
            s3 = upd_priv u (td_cnt_update (\<lambda>c. c + 1)) s2 in
        case hcpriv (urbs s3 u) of
          None \<Rightarrow> None
        | Some p \<Rightarrow>
            let s4 = (if td_cnt p = p_length p then urb_rm_priv K u s3 else s3) in
            Some (if urb_transfer_flags (urbs s4 u) AND usb_async_unlink K \<noteq> 0
                  then call_complete K u (upd_urb u (urb_status_update (\<lambda>_. ECONNRESET)) (usb_dec_dev_use u s4))
                  else event Wake_up s4)))"

partial_function (option) del_tds :: "henv \<Rightarrow> desc \<Rightarrow> desc \<Rightarrow> desc \<Rightarrow> td_ptr \<Rightarrow> hcd \<Rightarrow> hcd option" where
  "del_tds K e tdTailP t tdp s =
     (if t \<noteq> tdTailP
      then (case hcpriv (urbs s (td_urb (tds s t))) of
          None \<Rightarrow> None
        | Some p \<Rightarrow>
            let td_next = ptr (hwNextTD (tds s t)) in
            if p_state p = URB_DEL \<or> state (eds s e) AND ED_DEL \<noteq> 0
            then Option.bind (del_td K t tdp s) (del_tds K e tdTailP td_next tdp)
            else del_tds K e tdTailP td_next (After t) s)
      else Some s)"

declare del_tds.simps [code]

text \<open>The last part of an endpoint's turn.\<close>

definition del_ed :: "henv \<Rightarrow> u32 \<Rightarrow> desc \<Rightarrow> desc \<Rightarrow> hcd \<Rightarrow> hcd" where
  "del_ed K edINFO tdTailP e s =
     (if state (eds s e) AND ED_DEL \<noteq> 0
      then let up = dev_table s (edINFO AND 0x7F);
               s1 = upd_ed e (\<lambda>d. d\<lparr>hwINFO := OHCI_ED_SKIP, state := ED_NEW\<rparr>) (free_local (bus_to_virt K tdTailP) s);
               s2 = s1\<lparr>devs := (devs s1)(up := (devs s1 up)\<lparr>ed_cnt := ed_cnt (devs s1 up) - 1\<rparr>)\<rparr> in
           if ed_cnt (devs s2 up) = 0 then event Wake_up s2 else s2
      else upd_ed e (\<lambda>d. d\<lparr>state := state d AND NOT ED_URB_DEL, hwINFO := hwINFO d AND NOT OHCI_ED_SKIP\<rparr>) s)"

partial_function (option) del_eds :: "henv \<Rightarrow> desc \<Rightarrow> bool \<Rightarrow> bool \<Rightarrow> hcd \<Rightarrow> ((bool \<times> bool) \<times> hcd) option" where
  "del_eds K e ctrl bulk s =
     (if e \<noteq> 0
      then (let tdTailP = ptr (hwTailP (eds s e)); edINFO = hwINFO (eds s e) in
        Option.bind (del_tds K e tdTailP (ptr (hwHeadP (eds s e))) (Head e) s) (\<lambda>s1.
          let s2 = del_ed K edINFO tdTailP e s1; t = ed_type (eds s2 e) AND 3 in
          del_eds K (rm_next (eds s2 e)) (ctrl \<or> t = CTRL) (bulk \<or> t = BULK) s2))
      else Some ((ctrl, bulk), s))"

declare del_eds.simps [code]

definition dl_del_list :: "henv \<Rightarrow> nat \<Rightarrow> hcd \<Rightarrow> hcd option" where
  "dl_del_list K frame s =
     map_option snd (locked (\<lambda>s.
       Option.bind (del_eds K (ed_rm_list s ! frame) False False s) (\<lambda>((ctrl, bulk), s).
         let s1 = (if ctrl then writel 0 Ed_controlcurrent s else s);
             s2 = (if bulk then writel 0 Ed_bulkcurrent s1 else s1);
             s3 = (if ed_rm_list s2 ! (1 - frame) = 0
                   then let c = hc_control s2 OR OHCI_CTRL_CLE OR OHCI_CTRL_BLE in writel c Control (s2\<lparr>hc_control := c\<rparr>)
                   else s2) in
         Some ((), s3\<lparr>ed_rm_list := (ed_rm_list s3)[frame := 0]\<rparr>))) s)"

section \<open>The done list\<close>

text \<open>One descriptor of the list.\<close>

definition done_td :: "henv \<Rightarrow> desc \<Rightarrow> hcd \<Rightarrow> hcd option" where
  "done_td K t s =
     (let d = tds s t; u = td_urb d; e = td_ed d; w = urbs s u; pipe = urb_pipe w;
          cc = TD_CC_GET (tINFO d);
          cc1 = (if urb_transfer_flags w AND usb_disable_spd K = 0 \<and> cc = TD_DATAUNDERRUN then TD_CC_NOERROR else cc) in
      Option.bind (dl_transfer_length K t s) (\<lambda>s1.
      let s2 = (if cc = TD_CC_STALL
                then (case urb_dev w of None \<Rightarrow> s1
                  | Some dv \<Rightarrow> s1\<lparr>halts := (halts s1)(devnum dv := (halts s1 (devnum dv))
                      (usb_pipeendpoint K pipe := (halts s1 (devnum dv) (usb_pipeendpoint K pipe))(usb_pipeout K pipe := True)))\<rparr>)
                else s1);
          s3 = upd_priv u (td_cnt_update (\<lambda>c. c + 1)) s2 in
      case hcpriv (urbs s3 u) of
        None \<Rightarrow> None
      | Some p \<Rightarrow>
      Option.bind
        (if td_cnt p = p_length p
         then (if p_state p \<noteq> URB_DEL \<and> state (eds s3 e) AND ED_DEL = 0 \<and> state (eds s3 e) \<noteq> ED_NEW
               then map_option snd (sohci_return_urb K u (upd_urb u (urb_status_update (\<lambda>_. cc_to_error ! cc1)) s3))
               else Some (urb_rm_priv K u s3))
         else Some s3) (\<lambda>s4.
      map_option snd (locked (\<lambda>s.
        if state (eds s e) \<noteq> ED_NEW \<and> ptr (hwHeadP (eds s e)) = hwTailP (eds s e) \<and> state (eds s e) = ED_OPER
        then map_option (Pair ()) (ep_unlink e s) else Some ((), s)) s4))))"

partial_function (option) dl_done_list :: "henv \<Rightarrow> desc \<Rightarrow> hcd \<Rightarrow> hcd option" where
  "dl_done_list K td_list s =
     (if td_list \<noteq> 0
      then (let td_list_next = next_dl_td (tds s td_list) in
        Option.bind (done_td K td_list s) (dl_done_list K td_list_next))
      else Some s)"

declare dl_done_list.simps [code]

section \<open>The interrupt\<close>

definition hc_interrupt :: "henv \<Rightarrow> hw \<Rightarrow> hcd \<Rightarrow> hcd option" where
  "hc_interrupt K hw s =
     (let i0 = (if done_head s \<noteq> 0 \<and> done_head s AND 0x01 = 0 then OHCI_INTR_WDH else 0);
          (st, s1) = readl hw Intrstatus s; (en, s2) = readl hw Intrenable s1;
          ints = i0 OR (st AND en) in
      if ints = 0 then Some s2
      else let s3 = (if ints AND OHCI_INTR_UE \<noteq> 0
                     then err_log ''OHCI Unrecoverable Error, controller disabled'' (s2\<lparr>disabled := disabled s2 + 1\<rparr>)
                     else s2) in
        Option.bind
          (if ints AND OHCI_INTR_WDH \<noteq> 0
           then Option.bind (dl_reverse_done_list (snd (readl hw Intrdisable (writel OHCI_INTR_WDH Intrdisable s3))))
                  (\<lambda>(td_list, s). map_option (writel OHCI_INTR_WDH Intrenable) (dl_done_list K td_list s))
           else Some s3) (\<lambda>s4.
        let s5 = (if ints AND OHCI_INTR_SO \<noteq> 0 then writel OHCI_INTR_SO Intrenable s4 else s4) in
        map_option (\<lambda>s. writel OHCI_INTR_MIE Intrenable (writel ints Intrstatus s))
          (if ints AND OHCI_INTR_SF \<noteq> 0
           then (let frame = unat (frame_no s5 AND 1);
                     s6 = snd (readl hw Intrdisable (writel OHCI_INTR_SF Intrdisable s5)) in
             map_option (\<lambda>s. if ed_rm_list s ! frame \<noteq> 0 then writel OHCI_INTR_SF Intrenable s else s)
               (if ed_rm_list s6 ! (1 - frame) \<noteq> 0 then dl_del_list K (1 - frame) s6 else Some s6))
           else Some s5)))"

section \<open>Submitting\<close>

definition sizeof_td :: int where "sizeof_td = 32"

datatype submit_ret = Sub_ok | Sub_err errno | Sub_shutdown

text \<open>The answers of the allocators and, for the root hub, what \<open>rh_submit_urb\<close> needs.\<close>

record submit_in =
  si_dummy :: alloc_in
  si_kmalloc :: bool
  si_tds :: "nat \<Rightarrow> alloc_in"
  si_data :: alloc_in
  si_setup :: alloc_in
  si_hw :: hw
  si_HZ :: u32
  si_jiffies :: u32
  si_string :: "u8 \<Rightarrow> u16 \<Rightarrow> u32 \<times> u8 list"
  si_datab :: "u8 list"
  si_request :: "devrequest option"

definition store_bytes :: "addr \<Rightarrow> u8 list \<Rightarrow> memory \<Rightarrow> memory" where
  "store_bytes a bs m = (\<lambda>x. if a \<le> x \<and> x < a + int (length bs) then bs ! nat (x - a) else m x)"

definition submit_to_hub :: "henv \<Rightarrow> submit_in \<Rightarrow> addr \<Rightarrow> hcd \<Rightarrow> (submit_ret \<times> hcd) option" where
  "submit_to_hub K a u s =
     (case rh_submit_urb (kenv.truncate K) (si_hw a) (si_HZ a) (si_jiffies a) (si_string a) (si_datab a) u
             (urb.truncate (urbs s u)) (si_request a) s of
        Inl _ \<Rightarrow> None
      | Inr (out, s1) \<Rightarrow>
          let s2 = s1\<lparr>hcd_dma := (hcd_dma s1)\<lparr>dma_mem := store_bytes (urb_transfer_buffer (urbs s u)) (ho_bytes out)
                     (dma_mem (hcd_dma s1))\<rparr>\<rparr>;
              s3 = upd_urb u (\<lambda>w. w\<lparr>urb_actual_length := word_of_int (ho_actual out), urb_status := ho_status out\<rparr>) s2 in
          Some (Sub_ok, if ho_complete out then on_complete K u s3 else s3))"

text \<open>\<open>ep_add_ed\<close> with its allocation of the first empty descriptor.\<close>

definition add_ed :: "henv \<Rightarrow> alloc_in \<Rightarrow> addr \<Rightarrow> hcd \<Rightarrow> (desc \<times> hcd) option" where
  "add_ed K a u s =
     (let w = urbs s u; up = urb_devp w; e = dev_eds (devs s up) ! ed_index (penv.truncate K) (urb_pipe w) in
      if ed_lock s then None
      else Option.bind (if state (eds s e) = ED_NEW then alloc_local K a sizeof_td s else Some (0, s)) (\<lambda>(td, s1).
        map_option (\<lambda>(e, dev, t). (e, t\<lparr>devs := (devs t)(up := dev)\<rparr>))
          (ep_add_ed (penv.truncate K) td up (urb_pipe w) (urb_interval w) 1 (devs s1 up) s1)))"

fun alloc_tds :: "henv \<Rightarrow> (nat \<Rightarrow> alloc_in) \<Rightarrow> addr \<Rightarrow> nat list \<Rightarrow> hcd \<Rightarrow> (bool \<times> hcd) option" where
  "alloc_tds K es u [] s = Some (True, s)"
| "alloc_tds K es u (i # is) s =
     Option.bind (alloc_local K (es i) sizeof_td s) (\<lambda>(t, s1).
       let s2 = upd_priv u (p_td_update (\<lambda>l. l[i := t])) s1 in
       if t = 0 then Some (False, s2) else alloc_tds K es u is s2)"

text \<open>The part that holds the lock.\<close>

definition submit_locked :: "henv \<Rightarrow> submit_in \<Rightarrow> addr \<Rightarrow> desc \<Rightarrow> hcd \<Rightarrow> (submit_ret \<times> hcd) option" where
  "submit_locked K a u e s =
     (let d = eds s e in
      if state d = ED_NEW \<or> state d AND ED_DEL \<noteq> 0
      then Some (Sub_err EINVAL, usb_dec_dev_use u (urb_rm_priv K u s))
      else let s1 = (if urb_transfer_flags (urbs s u) AND usb_iso_asap K \<noteq> 0
                     then upd_urb u (urb_start_frame_update (\<lambda>_.
                       (if state d = ED_OPER then ucast (last_iso d) + 1 else ucast (frame_no s) + 10) AND 0xffff)) s
                     else s) in
      case hcpriv (urbs s1 u) of
        None \<Rightarrow> None
      | Some p \<Rightarrow>
      case Portable_PrepareUrbOnSubmit (bus_to_virt K) (si_data a) (si_setup a) (urb.truncate (urbs s1 u)) (portable p) (hcd_dma s1) of
        Inl _ \<Rightarrow> None
      | Inr (ret, px, dm) \<Rightarrow>
          let s2 = upd_priv u (portable_update (\<lambda>_. px)) (s1\<lparr>hcd_dma := dm\<rparr>) in
          case ret of
            Some err \<Rightarrow> Some (Sub_err err, urb_rm_priv K u (usb_dec_dev_use u s2))
          | None \<Rightarrow>
              let s3 = upd_urb u (\<lambda>w. w\<lparr>urb_actual_length := 0, urb_status := EINPROGRESS\<rparr>) s2 in
              Option.bind (if state (eds s3 e) \<noteq> ED_OPER then ep_link e s3 else Some s3) (\<lambda>s4.
                map_option (\<lambda>(_, t). (Sub_ok, t))
                  (td_submit_urb K u (upd_urb u (urb_status_update (\<lambda>_. EINPROGRESS)) s4))))"

definition sohci_submit_urb :: "henv \<Rightarrow> submit_in \<Rightarrow> addr \<Rightarrow> hcd \<Rightarrow> (submit_ret \<times> hcd) option" where
  "sohci_submit_urb K a u s =
     (let w = urbs s u in
      case urb_dev w of
        None \<Rightarrow> Some (Sub_err EINVAL, s)
      | Some dv \<Rightarrow>
      if \<not> dev_bus dv \<or> hcpriv w \<noteq> None then Some (Sub_err EINVAL, s)
      else let s1 = usb_inc_dev_use u s in
      if usb_pipedevice K (urb_pipe w) = rh_devnum s1 then submit_to_hub K a u s1
      else if disabled s1 \<noteq> 0 then Some (Sub_shutdown, s1)
      else Option.bind (add_ed K (si_dummy a) u s1) (\<lambda>(e, s2).
      if e = 0 then Some (Sub_err ENOMEM, usb_dec_dev_use u s2)
      else let size = urb_size K w;
               s3 = (if usb_pipetype K (urb_pipe w) = macro K PIPE_ISOCHRONOUS
                     then upd_urb u (\<lambda>w. w\<lparr>iso_frame_desc := reset_packets w\<rparr>) s2 else s2) in
      if \<not> si_kmalloc a then Some (Sub_err ENOMEM, usb_dec_dev_use u s3)
      else let s4 = upd_urb u (hcpriv_update (\<lambda>_. Some \<lparr>p_ed = e, p_length = word_of_int size, td_cnt = 0, p_state = 0,
                 portable = \<lparr>px_transfer_buffer = 0, px_setup_packet = 0\<rparr>, p_td = replicate (nat size) 0\<rparr>)) s3 in
      Option.bind (alloc_tds K (si_tds a) u [0..<nat size] s4) (\<lambda>(allocated, s5).
      if \<not> allocated then Some (Sub_err ENOMEM, urb_rm_priv K u (usb_dec_dev_use u s5))
      else locked (submit_locked K a u e) (event (Dump_submit u) s5))))"

section \<open>Unlinking\<close>

text \<open>The caller's context: \<open>in_interrupt()\<close>, the frame numbers that the busy waiting reads, what
  happens while the caller sleeps, and whether it sleeps until the timeout.\<close>

record unlink_in =
  ui_interrupt :: bool
  ui_frames :: "u16 list"
  ui_sleep :: "hcd \<Rightarrow> hcd"
  ui_timeout :: bool

text \<open>Wait until the frame number's last bit has changed twice; \<open>None\<close> if it does not.\<close>

fun frame_wait :: "henv \<Rightarrow> u16 list \<Rightarrow> nat \<Rightarrow> nat \<Rightarrow> hcd \<Rightarrow> hcd option" where
  "frame_wait K [] frame_prev n s = None"
| "frame_wait K (f # fs) frame_prev n s =
     (let frame = unat (f AND 1) in
      if frame \<noteq> frame_prev
      then Option.bind (if ed_rm_list s ! (1 - frame) \<noteq> 0 then dl_del_list K (1 - frame) s else Some s) (\<lambda>s1.
             if n + 1 < 2 then frame_wait K fs frame (n + 1) s1 else Some s1)
      else frame_wait K fs frame_prev n s)"

definition sohci_unlink_urb :: "henv \<Rightarrow> unlink_in \<Rightarrow> addr \<Rightarrow> hcd \<Rightarrow> (submit_ret \<times> hcd) option" where
  "sohci_unlink_urb K a u s =
     (let w = urbs s u; async = (urb_transfer_flags w AND usb_async_unlink K \<noteq> 0);
          finish = (\<lambda>s. (Sub_ok, usb_dec_dev_use u (upd_urb u (urb_status_update (\<lambda>_. ENOENT)) s))) in
      if u = 0 then Some (Sub_err EINVAL, s)
      else case urb_dev w of
        None \<Rightarrow> Some (Sub_err ENODEV, s)
      | Some dv \<Rightarrow>
      if \<not> dev_bus dv then Some (Sub_err ENODEV, s)
      else if usb_pipedevice K (urb_pipe w) = rh_devnum s then Some (Sub_ok, rh_unlink_urb u (usb_dec_dev_use u s))
      else case hcpriv w of
        None \<Rightarrow> Some (Sub_ok, s)
      | Some p \<Rightarrow>
      if urb_status w = EINPROGRESS \<and> disabled s = 0
      then Option.bind (locked (\<lambda>s. Some ((), upd_ed (p_ed p) (\<lambda>d. d\<lparr>state := state d OR ED_URB_DEL\<rparr>) (ep_rm_ed (p_ed p) s)))
               (upd_priv u (p_state_update (\<lambda>_. URB_DEL)) s)) (\<lambda>(_, s1).
          if async then Some (Sub_ok, upd_urb u (urb_status_update (\<lambda>_. EINPROGRESS)) s1)
          else if disabled s1 \<noteq> 0 then Some (Sub_ok, s1)
          else if ui_interrupt a
          then map_option (\<lambda>s. finish (writel OHCI_INTR_SF Intrenable s))
                 (case ui_frames a of
                    [] \<Rightarrow> None
                  | f # fs \<Rightarrow> frame_wait K fs (unat (f AND 1)) 0 (writel OHCI_INTR_SF Intrdisable s1))
          else (let s2 = ui_sleep a s1 in
            Some (finish (if ui_timeout a then err_log ''unlink URB timeout!'' s2 else s2))))
      else let s1 = urb_rm_priv K u (usb_dec_dev_use u s) in
        Some (Sub_ok, if urb_complete (urbs s1 u) \<and> async
          then upd_urb u (urb_status_update (\<lambda>_. Done)) (call_complete K u s1)
          else upd_urb u (urb_status_update (\<lambda>_. ENOENT)) s1))"

section \<open>Devices\<close>

text \<open>\<open>a\<close> is the bus address the I/O processor's heap answers (0: none); the 32 EDs come first in the
  structure.\<close>

definition sizeof_ed :: u32 where "sizeof_ed = 32"

definition ed_zero :: ed where
  "ed_zero = \<lparr>hwINFO = 0, hwTailP = 0, hwHeadP = 0, hwNextED = 0, ed_prev = 0, int_period = 0, int_branch = 0,
     int_load = 0, int_interval = 0, state = 0, ed_type = 0, last_iso = 0, rm_next = 0\<rparr>"

definition sohci_alloc_dev :: "henv \<Rightarrow> u32 \<Rightarrow> addr \<Rightarrow> hcd \<Rightarrow> submit_ret \<times> hcd" where
  "sohci_alloc_dev K a up s =
     (let (dev, lm) = Portable_AllocateDevice (bus_to_virt K) a (dma_lm (hcd_dma s));
          s1 = s\<lparr>hcd_dma := (hcd_dma s)\<lparr>dma_lm := lm\<rparr>\<rparr>; l = map (\<lambda>i. a + sizeof_ed * of_nat i) [0..<NUM_EDS] in
      if dev = None then (Sub_err ENOMEM, s1)
      else (Sub_ok, s1\<lparr>eds := (\<lambda>e. if e \<in> set l then ed_zero else eds s e),
          devs := (devs s)(up := \<lparr>dev_eds = l, ed_cnt = 0\<rparr>), dev_priv := (dev_priv s)(up := True)\<rparr>))"

text \<open>The loop over the EDs; the number of EDs to wait for is counted.\<close>

fun free_eds :: "desc list \<Rightarrow> nat \<Rightarrow> hcd \<Rightarrow> (nat \<times> hcd) option" where
  "free_eds [] cnt s = Some (cnt, s)"
| "free_eds (e # es) cnt s =
     (if state (eds s e) \<noteq> ED_NEW
      then Option.bind (if state (eds s e) = ED_OPER then ep_unlink e s else Some s) (\<lambda>s1.
             free_eds es (Suc cnt) (upd_ed e (state_update (\<lambda>_. ED_DEL)) (ep_rm_ed e s1)))
      else free_eds es cnt s)"

text \<open>The device at address \<open>up\<close> with number \<open>n\<close>; \<open>sleep\<close> is what happens while it waits for at most
  a tenth of a second.\<close>

definition sohci_free_dev :: "henv \<Rightarrow> (hcd \<Rightarrow> hcd) \<Rightarrow> addr \<Rightarrow> u32 \<Rightarrow> hcd \<Rightarrow> hcd option" where
  "sohci_free_dev K sleep up n s =
     (if \<not> dev_priv s up then Some s
      else let l = dev_eds (devs s up) in
        map_option (\<lambda>(cnt, s1).
            let s2 = (if 0 < cnt then sleep s1 else s1) in
            s2\<lparr>hcd_dma := (hcd_dma s2)\<lparr>dma_lm := Portable_FreeDevice (virt_to_bus K) (Some (bus_to_virt K (l ! 0)))
              (dma_lm (hcd_dma s2))\<rparr>\<rparr>)
          (if 0 \<le> sint n then locked (free_eds l 0) s else Some (0, s)))"

definition sohci_get_current_frame_number :: "'a ohci_scheme \<Rightarrow> u32" where
  "sohci_get_current_frame_number s = ucast (frame_no s)"

end
