(* ===== verification/Ed_Chains.thy ===== *)
theory Ed_Chains
  imports Ohci_Ed
begin

text \<open>
  What \<open>ep_link\<close> and \<open>ep_unlink\<close> do, in terms of lists: the control and the bulk chain, threaded
  through the store by \<open>hwNextED\<close> and \<open>ed_prev\<close> between a head register and a tail pointer, are
  two disjoint lists of EDs; linking appends, unlinking removes. The interface of such a chain is
  the locale \<open>chain_list\<close>. The last section looks at the tree of the interrupt endpoints.
\<close>

section \<open>Doubly linked segments\<close>

definition first_or :: "desc list \<Rightarrow> desc \<Rightarrow> desc" where
  "first_or xs n = (case xs of [] \<Rightarrow> n | x # _ \<Rightarrow> x)"

definition last_or :: "desc \<Rightarrow> desc list \<Rightarrow> desc" where
  "last_or p xs = (if xs = [] then p else last xs)"

lemma ends_simps [simp]:
  "first_or [] n = n" "first_or (x # xs) n = x" "last_or p [] = p" "last_or p (xs @ [x]) = x"
  "last_or p (x # xs) = last_or x xs" "first_or (xs @ ys) n = first_or xs (first_or ys n)"
  "last_or p (xs @ ys) = last_or (last_or p xs) ys"
  by (auto simp: first_or_def last_or_def split: list.splits)

lemma first_or_in: "xs \<noteq> [] \<Longrightarrow> first_or xs n \<in> set xs"
  by (cases xs) auto

lemma last_or_in: "xs \<noteq> [] \<Longrightarrow> last_or p xs \<in> set xs"
  by (simp add: last_or_def)

text \<open>The EDs \<open>xs\<close>, linked to each other, coming after \<open>p\<close> and before \<open>n\<close>.\<close>

fun seg :: "(desc \<Rightarrow> ed) \<Rightarrow> desc \<Rightarrow> desc list \<Rightarrow> desc \<Rightarrow> bool" where
  "seg f p [] n = True"
| "seg f p (x # xs) n = (ed_prev (f x) = p \<and> hwNextED (f x) = first_or xs n \<and> seg f x xs n)"

lemma seg_append: "seg f p (xs @ ys) n \<longleftrightarrow> seg f p xs (first_or ys n) \<and> seg f (last_or p xs) ys n"
  by (induction xs arbitrary: p) auto

lemma seg_cong:
  "(\<And>x. x \<in> set xs \<Longrightarrow> ed_prev (f x) = ed_prev (g x) \<and> hwNextED (f x) = hwNextED (g x)) \<Longrightarrow>
   seg f p xs n = seg g p xs n"
  by (induction xs arbitrary: p) auto

lemma seg_upd_other: "e \<notin> set xs \<Longrightarrow> seg (f(e := d)) p xs n = seg f p xs n"
  by (rule seg_cong) auto

lemma seg_info [simp]: "seg (f(e := (f e)\<lparr>hwINFO := v\<rparr>)) p xs n = seg f p xs n"
  by (rule seg_cong) auto

text \<open>Changing the pointer into and out of a segment.\<close>

lemma seg_set_next:
  "seg f p (xs @ [x]) n \<Longrightarrow> distinct (xs @ [x]) \<Longrightarrow>
   seg (f(x := (f x)\<lparr>hwNextED := m\<rparr>)) p (xs @ [x]) m"
  by (auto simp: seg_append seg_upd_other)

lemma seg_set_prev:
  "seg f p (x # xs) n \<Longrightarrow> distinct (x # xs) \<Longrightarrow> seg (f(x := (f x)\<lparr>ed_prev := q\<rparr>)) q (x # xs) n"
  by (simp add: seg_upd_other)

section \<open>A chain with its head and tail\<close>

text \<open>What the driver last wrote to a register; 0 if it never did (the controller's reset value).\<close>

definition written :: "ohci_reg \<Rightarrow> 'a ohci_scheme \<Rightarrow> u32" where
  "written r s = (if writes_to r (io s) = [] then 0 else last (writes_to r (io s)))"

lemma written_writel [simp]: "written r (writel v q s) = (if q = r then v else written r s)"
  by (simp add: written_def writel_def)

definition chain :: "ohci_reg \<Rightarrow> ('a ohci_ed_scheme \<Rightarrow> desc) \<Rightarrow> 'a ohci_ed_scheme \<Rightarrow> desc list \<Rightarrow> bool" where
  "chain head tail s xs \<longleftrightarrow>
     distinct xs \<and> 0 \<notin> set xs \<and> written head s = first_or xs 0 \<and> tail s = last_or 0 xs \<and> seg (eds s) 0 xs 0"

lemma written_upd [simp]: "written r (upd_ed e f s) = written r s"
  by (simp add: written_def upd_ed_def)

lemma written_fields [simp]:
  "written r (s\<lparr>ed_controltail := x\<rparr>) = written r s" "written r (s\<lparr>ed_bulktail := x\<rparr>) = written r s"
  by (simp_all add: written_def)

lemma eds_upd [simp]: "eds (upd_ed e f s) = (eds s)(e := f (eds s e))"
  by (simp add: upd_ed_def)

lemma eds_writel [simp]: "eds (writel v r s) = eds s"
  by (simp add: writel_def)

lemma tails [simp]:
  "ed_controltail (upd_ed e f s) = ed_controltail s" "ed_bulktail (upd_ed e f s) = ed_bulktail s"
  "ed_controltail (writel v r s) = ed_controltail s" "ed_bulktail (writel v r s) = ed_bulktail s"
  by (simp_all add: upd_ed_def writel_def)

lemma link_last_seg:
  assumes "seg (eds s) 0 xs 0" "distinct xs" "0 \<notin> set xs" "e \<notin> set xs" "hwNextED (eds s e) = 0"
    and "tail = last_or 0 xs" "written r s = first_or xs 0"
  defines "t \<equiv> link_last r tail e s"
  shows "seg (eds t) 0 (xs @ [e]) 0 \<and> written r t = first_or (xs @ [e]) 0"
proof (cases xs rule: rev_cases)
  case Nil
  with assms show ?thesis by (simp add: link_last_def)
next
  case (snoc ys x)
  then have x: "tail = x" "x \<noteq> 0" "x \<noteq> e" using assms(3,4,6) by auto
  let ?f = "(eds s)(x := (eds s x)\<lparr>hwNextED := e\<rparr>)"
  have "seg ?f 0 (ys @ [x]) e" using assms(1,2) snoc by (intro seg_set_next[of _ _ _ _ 0]) auto
  then have "seg (?f(e := (?f e)\<lparr>ed_prev := x\<rparr>)) 0 xs e" using assms(4) unfolding snoc by (subst seg_upd_other) simp_all
  then show ?thesis using x assms(5,7) snoc
    by (simp add: t_def link_last_def seg_append)
qed

lemma link_last_other:
  "x \<noteq> e \<Longrightarrow> x \<noteq> tail \<Longrightarrow> eds (link_last r tail e s) x = eds s x"
  "q \<noteq> r \<Longrightarrow> written q (link_last r tail e s) = written q s"
  "ed_type (eds (link_last r tail e s) x) = ed_type (eds s x)"
  by (simp_all add: link_last_def)

lemma seg_link_other:
  "e \<notin> set ys \<Longrightarrow> tail \<notin> set ys \<Longrightarrow> seg (eds (link_last r tail e s)) p ys n = seg (eds s) p ys n"
proof (rule seg_cong)
  fix x assume "e \<notin> set ys" "tail \<notin> set ys" "x \<in> set ys"
  then have "x \<noteq> e" "x \<noteq> tail" by auto
  then show "ed_prev (eds (link_last r tail e s) x) = ed_prev (eds s x) \<and>
      hwNextED (eds (link_last r tail e s) x) = hwNextED (eds s x)" by (simp add: link_last_other)
qed

lemma unlink_chain_seg:
  assumes seg: "seg (eds s) 0 (as @ e # bs) 0" and d: "distinct (as @ e # bs)" and z: "0 \<notin> set (as @ e # bs)"
    and "tail = last_or 0 (as @ e # bs)" "written r s = first_or (as @ e # bs) 0"
    and u: "unlink_chain r tail e s = (tail', t)"
  shows "seg (eds t) 0 (as @ bs) 0 \<and> written r t = first_or (as @ bs) 0 \<and> tail' = last_or 0 (as @ bs)"
proof -
  have sa: "seg (eds s) 0 as e" and pe: "ed_prev (eds s e) = last_or 0 as" and ne: "hwNextED (eds s e) = first_or bs 0"
    and sb: "seg (eds s) e bs 0" using seg by (simp_all add: seg_append)
  let ?p = "last_or 0 as" and ?n = "first_or bs 0"
  define s1 where "s1 = (if ?p = 0 then writel ?n r s else upd_ed ?p (hwNextED_update (\<lambda>_. ?n)) s)"
  have p0: "?p = 0 \<longleftrightarrow> as = []" using z last_or_in[of as 0] by (cases as) auto
  have ep: "?p \<noteq> e" using d z last_or_in[of as 0] by (cases "as = []") auto
  have s1e: "eds s1 e = eds s e" using ep by (simp add: s1_def)
  have seg1: "seg (eds s1) 0 as ?n"
  proof (cases as rule: rev_cases)
    case (snoc ys y)
    have "seg ((eds s)(y := (eds s y)\<lparr>hwNextED := ?n\<rparr>)) 0 (ys @ [y]) ?n"
      using sa d snoc by (intro seg_set_next[of _ _ _ _ e]) auto
    then show ?thesis using p0 snoc by (simp add: s1_def)
  qed simp
  have seg2: "seg (eds s1) e bs 0"
  proof (cases "as = []")
    case False
    then have "?p \<notin> set bs" using d last_or_in[of as 0] by auto
    then show ?thesis using sb p0 False by (simp add: s1_def seg_upd_other)
  qed (use sb p0 in \<open>simp add: s1_def\<close>)
  have w: "written r s1 = first_or (as @ bs) 0" using assms(5) p0 by (cases as) (simp_all add: s1_def)
  have run: "unlink_chain r tail e s = (if tail = e then (?p, s1)
      else (tail, upd_ed ?n (ed_prev_update (\<lambda>_. ?p)) s1))"
    unfolding unlink_chain_def Let_def pe ne s1_def[symmetric] s1e ..
  show ?thesis
  proof (cases bs)
    case Nil
    then have "tail' = ?p \<and> t = s1" using u assms(4) run by simp
    then show ?thesis using seg1 w Nil by simp
  next
    case (Cons b cs)
    have te: "tail \<noteq> e" using assms(4) d Cons last_or_in[of "b # cs" e] by auto
    then have t: "tail' = tail" "t = upd_ed b (ed_prev_update (\<lambda>_. ?p)) s1" using u Cons run by simp_all
    have "seg ((eds s1)(b := (eds s1 b)\<lparr>ed_prev := ?p\<rparr>)) ?p bs 0"
      using seg2 d unfolding Cons by (intro seg_set_prev[of _ e]) auto
    moreover have "seg ((eds s1)(b := (eds s1 b)\<lparr>ed_prev := ?p\<rparr>)) 0 as ?n"
      using seg1 d Cons by (subst seg_upd_other) auto
    ultimately show ?thesis using t w assms(4) Cons by (simp add: seg_append)
  qed
qed

lemma unlink_chain_other:
  assumes "unlink_chain r tail e s = (tail', t)"
  shows "q \<noteq> r \<Longrightarrow> written q t = written q s" "ed_type (eds t x) = ed_type (eds s x)"
    "x \<noteq> ed_prev (eds s e) \<Longrightarrow> x \<noteq> hwNextED (eds t e) \<Longrightarrow> eds t x = eds s x"
    "ed_controltail t = ed_controltail s" "ed_bulktail t = ed_bulktail s"
  using assms by (auto simp: unlink_chain_def Let_def split: if_splits)

section \<open>Both chains\<close>

definition both :: "'a ohci_ed_scheme \<Rightarrow> desc list \<Rightarrow> desc list \<Rightarrow> bool" where
  "both s cs bs \<longleftrightarrow> chain Ed_controlhead ed_controltail s cs \<and> chain Ed_bulkhead ed_bulktail s bs \<and>
     set cs \<inter> set bs = {}"

lemma ep_link_ctrl:
  assumes b: "both s cs bs" and e: "e \<noteq> 0" "e \<notin> set cs" "e \<notin> set bs" "ed_type (eds s e) = CTRL"
  obtains t where "ep_link e s = Some t" "both t (cs @ [e]) bs" "\<forall>x. ed_type (eds t x) = ed_type (eds s x)"
proof -
  let ?s = "upd_ed e (\<lambda>d. d\<lparr>state := ED_OPER, hwNextED := 0\<rparr>) s"
  define t where "t = (link_last Ed_controlhead (ed_controltail ?s) e ?s)\<lparr>ed_controltail := e\<rparr>"
  have c: "distinct cs" "0 \<notin> set cs" "ed_controltail ?s = last_or 0 cs" "written Ed_controlhead ?s = first_or cs 0"
    "seg (eds ?s) 0 cs 0" and d: "distinct bs" "0 \<notin> set bs" "ed_bulktail ?s = last_or 0 bs"
    "written Ed_bulkhead ?s = first_or bs 0" "seg (eds ?s) 0 bs 0" "set cs \<inter> set bs = {}"
    using b e by (simp_all add: both_def chain_def seg_upd_other)
  have t: "seg (eds t) 0 (cs @ [e]) 0" "written Ed_controlhead t = first_or (cs @ [e]) 0"
    using link_last_seg[OF c(5,1,2) e(2) _ c(3,4)] by (simp_all add: t_def)
  have ct: "ed_controltail ?s \<notin> set bs" using c(3) d(2,6) last_or_in[of cs 0] by (cases "cs = []") auto
  have "seg (eds t) 0 bs 0"
    using d(5) seg_link_other[OF e(3) ct, where s = ?s] by (simp add: t_def)
  moreover have "written Ed_bulkhead t = first_or bs 0" "ed_bulktail t = last_or 0 bs"
    using d(3,4) by (simp_all add: t_def link_last_def)
  ultimately have "both t (cs @ [e]) bs"
    using t c d e by (simp add: both_def chain_def t_def)
  moreover have "ep_link e s = Some t" using e(4) by (simp add: ep_link_def Let_def t_def)
  moreover have "\<forall>x. ed_type (eds t x) = ed_type (eds s x)" by (simp add: t_def link_last_other)
  ultimately show thesis using that by blast
qed

lemma ep_link_bulk:
  assumes b: "both s cs bs" and e: "e \<noteq> 0" "e \<notin> set cs" "e \<notin> set bs" "ed_type (eds s e) = BULK"
  obtains t where "ep_link e s = Some t" "both t cs (bs @ [e])" "\<forall>x. ed_type (eds t x) = ed_type (eds s x)"
proof -
  let ?s = "upd_ed e (\<lambda>d. d\<lparr>state := ED_OPER, hwNextED := 0\<rparr>) s"
  define t where "t = (link_last Ed_bulkhead (ed_bulktail ?s) e ?s)\<lparr>ed_bulktail := e\<rparr>"
  have c: "distinct cs" "0 \<notin> set cs" "ed_controltail ?s = last_or 0 cs" "written Ed_controlhead ?s = first_or cs 0"
    "seg (eds ?s) 0 cs 0" and d: "distinct bs" "0 \<notin> set bs" "ed_bulktail ?s = last_or 0 bs"
    "written Ed_bulkhead ?s = first_or bs 0" "seg (eds ?s) 0 bs 0" "set cs \<inter> set bs = {}"
    using b e by (simp_all add: both_def chain_def seg_upd_other)
  have t: "seg (eds t) 0 (bs @ [e]) 0" "written Ed_bulkhead t = first_or (bs @ [e]) 0"
    using link_last_seg[OF d(5,1,2) e(3) _ d(3,4)] by (simp_all add: t_def)
  have ct: "ed_bulktail ?s \<notin> set cs" using d(3,6) c(2) last_or_in[of bs 0] by (cases "bs = []") auto
  have "seg (eds t) 0 cs 0"
    using c(5) seg_link_other[OF e(2) ct, where s = ?s] by (simp add: t_def)
  moreover have "written Ed_controlhead t = first_or cs 0" "ed_controltail t = last_or 0 cs"
    using c(3,4) by (simp_all add: t_def link_last_def)
  ultimately have "both t cs (bs @ [e])"
    using t c d e by (simp add: both_def chain_def t_def)
  moreover have "ep_link e s = Some t" using e(4) by (simp add: ep_link_def Let_def t_def)
  moreover have "\<forall>x. ed_type (eds t x) = ed_type (eds s x)" by (simp add: t_def link_last_other)
  ultimately show thesis using that by blast
qed

lemma chain_split:
  "e \<in> set xs \<Longrightarrow> distinct xs \<Longrightarrow> \<exists>as bs. xs = as @ e # bs \<and> remove1 e xs = as @ bs"
  by (metis in_set_conv_decomp_first remove1_append remove1.simps(2) remove1_idem)

text \<open>The neighbours of an ED in its chain are in the chain, so the other chain stays as it is.\<close>

lemma unlink_other_chain:
  assumes "seg (eds s) 0 (as @ e # bs) 0" "unlink_chain r tail e s = (tail', t)" "tail = last_or 0 (as @ e # bs)"
    and "distinct (as @ e # bs)" "set ys \<inter> set (as @ e # bs) = {}" "0 \<notin> set ys"
  shows "seg (eds t) p ys n = seg (eds s) p ys n"
proof (rule seg_cong)
  fix x assume x: "x \<in> set ys"
  have pe: "ed_prev (eds s e) = last_or 0 as" and ne: "hwNextED (eds s e) = first_or bs 0"
    using assms(1) by (simp_all add: seg_append)
  have "x \<noteq> last_or 0 as" using x assms(5,6) last_or_in[of as 0] by (cases "as = []") auto
  moreover have "x \<noteq> first_or bs 0" using x assms(5,6) first_or_in[of bs 0] by (cases "bs = []") auto
  moreover have "last_or 0 as \<noteq> e \<or> as = []" using assms(4) last_or_in[of as 0] by (cases "as = []") auto
  ultimately have "eds t x = eds s x" using assms(2) pe ne
    by (cases "as = []") (auto simp: unlink_chain_def Let_def split: if_splits)
  then show "ed_prev (eds t x) = ed_prev (eds s x) \<and> hwNextED (eds t x) = hwNextED (eds s x)" by simp
qed

lemma ep_unlink_ctrl:
  assumes b: "both s cs bs" and e: "e \<in> set cs" "ed_type (eds s e) = CTRL"
  obtains t where "ep_unlink e s = Some t" "both t (remove1 e cs) bs" "\<forall>x. ed_type (eds t x) = ed_type (eds s x)"
proof -
  let ?s = "upd_ed e (\<lambda>d. d\<lparr>hwINFO := hwINFO d OR OHCI_ED_SKIP\<rparr>) s"
  obtain tail' s1 where u: "unlink_chain Ed_controlhead (ed_controltail ?s) e ?s = (tail', s1)" by fastforce
  define t where "t = upd_ed e (state_update (\<lambda>_. ED_UNLINK)) (s1\<lparr>ed_controltail := tail'\<rparr>)"
  obtain l r where lr: "cs = l @ e # r" "remove1 e cs = l @ r"
    using chain_split[OF e(1)] b by (auto simp: both_def chain_def)
  have frame: "seg (eds t) p xs n = seg (eds s1) p xs n" "seg (eds ?s) p xs n = seg (eds s) p xs n" for p xs n
    by (rule seg_cong, simp add: t_def)+
  have c: "distinct cs" "0 \<notin> set cs" "ed_controltail ?s = last_or 0 cs" "written Ed_controlhead ?s = first_or cs 0"
    "seg (eds ?s) 0 cs 0" and d: "distinct bs" "0 \<notin> set bs" "ed_bulktail ?s = last_or 0 bs"
    "written Ed_bulkhead ?s = first_or bs 0" "seg (eds ?s) 0 bs 0" "set cs \<inter> set bs = {}"
    using b by (simp_all add: both_def chain_def frame)
  note c' = c[unfolded lr(1)]
  from unlink_chain_seg[OF c'(5,1,2,3,4) u] have new: "seg (eds s1) 0 (l @ r) 0"
    "written Ed_controlhead s1 = first_or (l @ r) 0" "tail' = last_or 0 (l @ r)" by blast+
  note o = unlink_chain_other[OF u]
  have "seg (eds s1) 0 bs 0"
    using unlink_other_chain[OF c'(5) u c'(3,1), of bs] d lr(1) by blast
  then have "both t (remove1 e cs) bs"
    using new c'(1,2) d[unfolded lr(1)] o(1)[of Ed_bulkhead] o(5)
    unfolding both_def chain_def frame lr(2) by (auto simp: t_def)
  moreover have "ep_unlink e s = Some t" using e(2) u by (simp add: ep_unlink_def Let_def t_def)
  moreover have "\<forall>x. ed_type (eds t x) = ed_type (eds s x)" using o(2) by (simp add: t_def)
  ultimately show thesis using that by blast
qed

lemma ep_unlink_bulk:
  assumes b: "both s cs bs" and e: "e \<in> set bs" "ed_type (eds s e) = BULK"
  obtains t where "ep_unlink e s = Some t" "both t cs (remove1 e bs)" "\<forall>x. ed_type (eds t x) = ed_type (eds s x)"
proof -
  let ?s = "upd_ed e (\<lambda>d. d\<lparr>hwINFO := hwINFO d OR OHCI_ED_SKIP\<rparr>) s"
  obtain tail' s1 where u: "unlink_chain Ed_bulkhead (ed_bulktail ?s) e ?s = (tail', s1)" by fastforce
  define t where "t = upd_ed e (state_update (\<lambda>_. ED_UNLINK)) (s1\<lparr>ed_bulktail := tail'\<rparr>)"
  obtain l r where lr: "bs = l @ e # r" "remove1 e bs = l @ r"
    using chain_split[OF e(1)] b by (auto simp: both_def chain_def)
  have frame: "seg (eds t) p xs n = seg (eds s1) p xs n" "seg (eds ?s) p xs n = seg (eds s) p xs n" for p xs n
    by (rule seg_cong, simp add: t_def)+
  have c: "distinct cs" "0 \<notin> set cs" "ed_controltail ?s = last_or 0 cs" "written Ed_controlhead ?s = first_or cs 0"
    "seg (eds ?s) 0 cs 0" "set bs \<inter> set cs = {}" and d: "distinct bs" "0 \<notin> set bs" "ed_bulktail ?s = last_or 0 bs"
    "written Ed_bulkhead ?s = first_or bs 0" "seg (eds ?s) 0 bs 0"
    using b by (auto simp: both_def chain_def frame)
  note d' = d[unfolded lr(1)]
  from unlink_chain_seg[OF d'(5,1,2,3,4) u] have new: "seg (eds s1) 0 (l @ r) 0"
    "written Ed_bulkhead s1 = first_or (l @ r) 0" "tail' = last_or 0 (l @ r)" by blast+
  note o = unlink_chain_other[OF u]
  have "seg (eds s1) 0 cs 0"
    using unlink_other_chain[OF d'(5) u d'(3,1), of cs] c lr(1) by blast
  then have "both t cs (remove1 e bs)"
    using new d'(1,2) c[unfolded lr(1)] o(1)[of Ed_controlhead] o(4)
    unfolding both_def chain_def frame lr(2) by (auto simp: t_def)
  moreover have "ep_unlink e s = Some t" using e(2) u by (simp add: ep_unlink_def Let_def t_def)
  moreover have "\<forall>x. ed_type (eds t x) = ed_type (eds s x)" using o(2) by (simp add: t_def)
  ultimately show thesis using that by blast
qed

section \<open>The interface\<close>

datatype ed_op = Link desc | Unlink desc

fun op_ed :: "ed_op \<Rightarrow> desc" where
  "op_ed (Link e) = e"
| "op_ed (Unlink e) = e"

fun run_ops :: "(desc \<Rightarrow> 's \<Rightarrow> 's option) \<Rightarrow> (desc \<Rightarrow> 's \<Rightarrow> 's option) \<Rightarrow> ed_op list \<Rightarrow> 's \<Rightarrow> 's option" where
  "run_ops lnk unl [] s = Some s"
| "run_ops lnk unl (Link e # ops) s = Option.bind (lnk e s) (run_ops lnk unl ops)"
| "run_ops lnk unl (Unlink e # ops) s = Option.bind (unl e s) (run_ops lnk unl ops)"

text \<open>The same operations on the list of linked EDs; \<open>None\<close> if one is linked that already is, or
  unlinked that is not, or is \<open>NULL\<close>.\<close>

fun run_list :: "ed_op list \<Rightarrow> desc list \<Rightarrow> desc list option" where
  "run_list [] xs = Some xs"
| "run_list (Link e # ops) xs = (if e = 0 \<or> e \<in> set xs then None else run_list ops (xs @ [e]))"
| "run_list (Unlink e # ops) xs = (if e \<in> set xs then run_list ops (remove1 e xs) else None)"

locale ed_list =
  fixes lnk unl :: "desc \<Rightarrow> 's \<Rightarrow> 's option" and rep :: "'s \<Rightarrow> desc list \<Rightarrow> bool"
    and kind :: "'s \<Rightarrow> desc \<Rightarrow> 'k" and kinds :: "'k set"
  assumes lnk: "rep s xs \<Longrightarrow> kind s e \<in> kinds \<Longrightarrow> e \<noteq> 0 \<Longrightarrow> e \<notin> set xs \<Longrightarrow>
      \<exists>t. lnk e s = Some t \<and> rep t (xs @ [e]) \<and> kind t = kind s"
    and unl: "rep s xs \<Longrightarrow> kind s e \<in> kinds \<Longrightarrow> e \<in> set xs \<Longrightarrow>
      \<exists>t. unl e s = Some t \<and> rep t (remove1 e xs) \<and> kind t = kind s"
begin

lemma run_refines:
  "rep s xs \<Longrightarrow> run_list ops xs = Some ys \<Longrightarrow> \<forall>p \<in> set ops. kind s (op_ed p) \<in> kinds \<Longrightarrow>
   \<exists>t. run_ops lnk unl ops s = Some t \<and> rep t ys \<and> kind t = kind s"
proof (induction ops arbitrary: s xs)
  case (Cons p ops)
  show ?case
  proof (cases p)
    case (Link e)
    with Cons.prems lnk[of s xs e] obtain t where "lnk e s = Some t" "rep t (xs @ [e])" "kind t = kind s"
      by (auto split: if_splits)
    with Cons.IH[of t "xs @ [e]"] Cons.prems Link show ?thesis by (auto split: if_splits)
  next
    case (Unlink e)
    with Cons.prems unl[of s xs e] obtain t where "unl e s = Some t" "rep t (remove1 e xs)" "kind t = kind s"
      by (auto split: if_splits)
    with Cons.IH[of t "remove1 e xs"] Cons.prems Unlink show ?thesis by (auto split: if_splits)
  qed
qed simp

end

abbreviation kind_of :: "'a ohci_ed_scheme \<Rightarrow> desc \<Rightarrow> u8" where
  "kind_of s e \<equiv> ed_type (eds s e)"

definition rep_chains :: "'a ohci_ed_scheme \<Rightarrow> desc list \<Rightarrow> bool" where
  "rep_chains s xs \<longleftrightarrow> distinct xs \<and> (\<forall>e \<in> set xs. kind_of s e \<in> {CTRL, BULK}) \<and>
     both s (filter (\<lambda>e. kind_of s e = CTRL) xs) (filter (\<lambda>e. kind_of s e = BULK) xs)"

lemma filter_remove1: "distinct xs \<Longrightarrow> filter P (remove1 e xs) = remove1 e (filter P xs)"
  by (induction xs) auto

interpretation el: ed_list ep_link ep_unlink rep_chains kind_of "{CTRL, BULK}"
proof
  fix s :: "'a ohci_ed_scheme" and xs e
  let ?c = "filter (\<lambda>e. ed_type (eds s e) = CTRL) xs" and ?b = "filter (\<lambda>e. ed_type (eds s e) = BULK) xs"
  assume r: "rep_chains s xs" and f: "kind_of s e \<in> {CTRL, BULK}"
  then have b: "both s ?c ?b" by (simp add: rep_chains_def)
  {
    assume e: "e \<noteq> 0" "e \<notin> set xs"
    from f consider "ed_type (eds s e) = CTRL" | "ed_type (eds s e) = BULK" by auto
    then show "\<exists>t. ep_link e s = Some t \<and> rep_chains t (xs @ [e]) \<and> kind_of t = kind_of s"
    proof cases
      case 1
      then obtain t where "ep_link e s = Some t" "both t (?c @ [e]) ?b" "\<forall>x. ed_type (eds t x) = ed_type (eds s x)"
        using ep_link_ctrl[OF b e(1)] e(2) by auto
      then show ?thesis using r f e 1 by (auto simp: rep_chains_def fun_eq_iff)
    next
      case 2
      then obtain t where "ep_link e s = Some t" "both t ?c (?b @ [e])" "\<forall>x. ed_type (eds t x) = ed_type (eds s x)"
        using ep_link_bulk[OF b e(1)] e(2) by auto
      then show ?thesis using r f e 2 by (auto simp: rep_chains_def fun_eq_iff)
    qed
  next
    assume e: "e \<in> set xs"
    have d: "distinct xs" using r by (simp add: rep_chains_def)
    from f consider "ed_type (eds s e) = CTRL" | "ed_type (eds s e) = BULK" by auto
    then show "\<exists>t. ep_unlink e s = Some t \<and> rep_chains t (remove1 e xs) \<and> kind_of t = kind_of s"
    proof cases
      case 1
      then obtain t where "ep_unlink e s = Some t" "both t (remove1 e ?c) ?b" "\<forall>x. ed_type (eds t x) = ed_type (eds s x)"
        using ep_unlink_ctrl[OF b] e by auto
      moreover have "remove1 e ?b = ?b" using 1 by (intro remove1_idem) simp
      ultimately show ?thesis using r d
        by (auto simp: rep_chains_def fun_eq_iff filter_remove1 dest: notin_set_remove1 in_set_remove1)
    next
      case 2
      then obtain t where "ep_unlink e s = Some t" "both t ?c (remove1 e ?b)" "\<forall>x. ed_type (eds t x) = ed_type (eds s x)"
        using ep_unlink_bulk[OF b] e by auto
      moreover have "remove1 e ?c = ?c" using 2 by (intro remove1_idem) simp
      ultimately show ?thesis using r d
        by (auto simp: rep_chains_def fun_eq_iff filter_remove1 dest: notin_set_remove1 in_set_remove1)
    qed
  }
qed

text \<open>C17. Whatever sequence of \<open>ep_link\<close> and \<open>ep_unlink\<close> the driver performs on control and bulk
  EDs, as long as it links only EDs that are not linked and unlinks only linked ones: every call
  returns, and the control and the bulk chain are afterwards, from the head register through
  \<open>hwNextED\<close> to the tail pointer and backwards through \<open>ed_prev\<close>, the EDs of that type in the
  order in which they were linked.\<close>

theorem ed_chains_refine:
  assumes "rep_chains s xs" "run_list ops xs = Some ys" "\<forall>p \<in> set ops. kind_of s (op_ed p) \<in> {CTRL, BULK}"
  shows "\<exists>t. run_ops ep_link ep_unlink ops s = Some t \<and>
    chain Ed_controlhead ed_controltail t (filter (\<lambda>e. kind_of s e = CTRL) ys) \<and>
    chain Ed_bulkhead ed_bulktail t (filter (\<lambda>e. kind_of s e = BULK) ys)"
proof -
  from el.run_refines[OF assms] obtain t where "run_ops ep_link ep_unlink ops s = Some t"
    "rep_chains t ys" "kind_of t = kind_of s" by blast
  then show ?thesis by (auto simp: rep_chains_def both_def fun_eq_iff)
qed

definition ed0 :: ed where
  "ed0 = \<lparr>hwINFO = 0, hwTailP = 0, hwHeadP = 0, hwNextED = 0, ed_prev = 0, int_period = 0, int_branch = 0,
     int_load = 0, int_interval = 0, state = ED_UNLINK, ed_type = CTRL, last_iso = 0, rm_next = 0\<rparr>"

definition idle_hc :: ohci_ed where
  "idle_hc = ohci.extend ohci_zero \<lparr>eds = (\<lambda>e. ed0\<lparr>ed_type := if e = 0x30 then BULK else CTRL\<rparr>),
     ed_lock = False, dev_table = (\<lambda>_. 0)\<rparr>"

theorem ed_chains_refine_witness:
  "\<exists>t. run_ops ep_link ep_unlink [Link 0x10, Link 0x30, Link 0x20, Unlink 0x10] idle_hc = Some t \<and>
     ed_controltail t = 0x20 \<and> ed_bulktail t = 0x30"
proof -
  have r: "rep_chains idle_hc []"
    by (simp add: rep_chains_def both_def chain_def idle_hc_def ohci.defs written_def ohci_zero_def)
  have t: "kind_of idle_hc e = (if e = 0x30 then BULK else CTRL)" for e
    by (simp add: idle_hc_def ohci.defs)
  have l: "run_list [Link 0x10, Link 0x30, Link 0x20, Unlink 0x10] [] = Some [0x30, 0x20]" by simp
  have "\<forall>p \<in> set [Link 0x10, Link 0x30, Link 0x20, Unlink 0x10]. kind_of idle_hc (op_ed p) \<in> {CTRL, BULK}"
    by (simp add: t)
  from ed_chains_refine[OF r l this] show ?thesis by (auto simp: chain_def t)
qed

section \<open>Interrupt endpoints\<close>

text \<open>The fields of an ED that linking and unlinking never touch, except where it is set up.\<close>

definition same_setup :: "ed \<Rightarrow> ed \<Rightarrow> bool" where
  "same_setup d d' \<longleftrightarrow> int_interval d = int_interval d' \<and> int_branch d = int_branch d' \<and>
     int_load d = int_load d' \<and> ed_type d = ed_type d'"

lemma same_setup_refl [simp]: "same_setup d d"
  by (simp add: same_setup_def)

definition same_sched :: "'a ohci_ed_scheme \<Rightarrow> 'a ohci_ed_scheme \<Rightarrow> bool" where
  "same_sched s t \<longleftrightarrow> ohci_int_load s = ohci_int_load t \<and> (\<forall>x. same_setup (eds s x) (eds t x))"

lemma same_sched_trans: "same_sched s t \<Longrightarrow> same_sched t u \<Longrightarrow> same_sched s u"
  by (simp add: same_sched_def same_setup_def)

lemma same_sched_refl: "same_sched s s"
  by (simp add: same_sched_def same_setup_def)

lemma same_sched_write: "same_sched s (write_ptr p v s)" "same_sched s (upd_ed e (hwNextED_update f) s)"
  by (cases p; simp add: same_sched_def same_setup_def upd_ed_def)+

lemma link_int_sched:
  assumes "link_int e interval branch i s = Some t"
  shows "same_sched s t"
proof (rule link_int.raw_induct[OF _ assms, where P = "\<lambda>e interval branch i s t. same_sched s t"])
  fix rec e interval branch i and s t :: "'a ohci_ed_scheme"
  assume ih: "\<And>e interval branch i s t. rec e interval branch i s = Some t \<Longrightarrow> same_sched s t"
    and run: "(if i < ep_rev 6 interval
      then Option.bind (link_walk s interval (Slot (ep_rev 5 i + branch)) 1) (\<lambda>(p, n).
        rec e interval branch (i + n)
          (write_ptr p e (upd_ed e (hwNextED_update (\<lambda>_. read_ptr p s)) s)))
      else Some s) = Some t"
  show "same_sched s t"
  proof (cases "i < ep_rev 6 interval")
    case True
    with run obtain p n where "rec e interval branch (i + n)
        (write_ptr p e (upd_ed e (hwNextED_update (\<lambda>_. read_ptr p s)) s)) = Some t"
      by (auto simp: Option.bind_eq_Some_conv)
    then have "same_sched (write_ptr p e (upd_ed e (hwNextED_update (\<lambda>_. read_ptr p s)) s)) t" by (rule ih)
    then show ?thesis using same_sched_write same_sched_trans by blast
  next
    case False
    with run show ?thesis by (simp add: same_sched_def)
  qed
qed

lemma unlink_walk_sched:
  assumes "unlink_walk e p k s = Some nt"
  shows "same_sched s (snd nt)"
proof (rule unlink_walk.raw_induct[OF _ assms, where P = "\<lambda>e p k s nt. same_sched s (snd nt)"])
  fix rec e p k and s :: "'a ohci_ed_scheme" and nt
  assume ih: "\<And>e p k s nt. rec e p k s = Some nt \<Longrightarrow> same_sched s (snd nt)"
    and run: "(let q = read_ptr p s in
      if q \<noteq> 0 \<and> q \<noteq> hwNextED (eds s e)
      then if q = e then Some (k, write_ptr p (hwNextED (eds s e)) s)
           else rec e (Next q) (ep_rev 6 (unat (int_interval (eds s (hwNextED (eds s q)))))) s
      else Some (k, s)) = Some nt"
  show "same_sched s (snd nt)"
    using run by (auto simp: Let_def split: if_splits intro: same_sched_write ih same_sched_refl)
qed

lemma unlink_int_sched:
  assumes "unlink_int e interval branch i s = Some t"
  shows "same_sched s t"
proof (rule unlink_int.raw_induct[OF _ assms, where P = "\<lambda>e interval branch i s t. same_sched s t"])
  fix rec e interval branch i and s t :: "'a ohci_ed_scheme"
  assume ih: "\<And>e interval branch i s t. rec e interval branch i s = Some t \<Longrightarrow> same_sched s t"
    and run: "(if i < ep_rev 6 interval
      then Option.bind (unlink_walk e (Slot (ep_rev 5 i + branch)) 1 s) (\<lambda>(n, t). rec e interval branch (i + n) t)
      else Some s) = Some t"
  show "same_sched s t"
  proof (cases "i < ep_rev 6 interval")
    case True
    with run obtain n u where u: "unlink_walk e (Slot (ep_rev 5 i + branch)) 1 s = Some (n, u)"
      "rec e interval branch (i + n) u = Some t" by (auto simp: Option.bind_eq_Some_conv)
    have "same_sched s u" using unlink_walk_sched[OF u(1)] by simp
    moreover have "same_sched u t" using u(2) by (rule ih)
    ultimately show ?thesis by (rule same_sched_trans)
  next
    case False
    with run show ?thesis by (simp add: same_sched_def)
  qed
qed

text \<open>The load that the linked interrupt EDs \<open>xs\<close> put on slot \<open>j\<close>, and the accounting invariant:
  the table of loads holds exactly these sums.\<close>

definition slot_load :: "(desc \<Rightarrow> ed) \<Rightarrow> nat \<Rightarrow> desc \<Rightarrow> int" where
  "slot_load f j e = (if j mod unat (int_interval (f e)) = unat (int_branch (f e)) then int (unat (int_load (f e))) else 0)"

definition scheduled :: "ed \<Rightarrow> bool" where
  "scheduled d \<longleftrightarrow> 0 < unat (int_interval d) \<and> unat (int_interval d) dvd N_INTS \<and> unat (int_branch d) < unat (int_interval d)"

definition rep_loads :: "'a ohci_ed_scheme \<Rightarrow> desc list \<Rightarrow> bool" where
  "rep_loads s xs \<longleftrightarrow> length (ohci_int_load s) = N_INTS \<and> distinct xs \<and> (\<forall>e \<in> set xs. scheduled (eds s e)) \<and>
     (\<forall>j < N_INTS. ohci_int_load s ! j = sum_list (map (slot_load (eds s) j) xs))"

lemma same_sched_loads:
  assumes "same_sched s t"
  shows "slot_load (eds t) = slot_load (eds s)" "scheduled (eds t e) = scheduled (eds s e)"
    "ed_type (eds t e) = ed_type (eds s e)" "ohci_int_load t = ohci_int_load s"
  using assms by (simp_all add: same_sched_def same_setup_def slot_load_def scheduled_def fun_eq_iff)

lemma interval_word:
  "unat (of_nat (ep_2_n_interval p) :: u8) = ep_2_n_interval p"
  "0 < ep_2_n_interval p" "ep_2_n_interval p dvd N_INTS" "ep_2_n_interval p \<le> N_INTS"
proof -
  obtain k where k: "k \<le> 5" "ep_2_n_interval p = 2 ^ k" using ep_2_n_interval_power by blast
  then have "k \<in> {0, 1, 2, 3, 4, 5}" by auto
  then show "unat (of_nat (ep_2_n_interval p) :: u8) = ep_2_n_interval p" "0 < ep_2_n_interval p"
    "ep_2_n_interval p dvd N_INTS" "ep_2_n_interval p \<le> N_INTS"
    using k(2) by (auto simp: N_INTS_def)
qed

lemma link_loads:
  assumes r: "rep_loads s xs" and e: "e \<notin> set xs" "ed_type (eds s e) = INT_ep" and l: "ep_link e s = Some t"
  shows "rep_loads t (xs @ [e]) \<and> (\<forall>x. ed_type (eds t x) = ed_type (eds s x))"
proof -
  define s1 where "s1 = upd_ed e (\<lambda>d. d\<lparr>state := ED_OPER, hwNextED := 0\<rparr>) s"
  define n where "n = ep_2_n_interval (unat (int_period (eds s1 e)))"
  define ld where "ld = int (unat (int_load (eds s e)))"
  define b where "b = least_loaded (ohci_int_load s) N_INTS mod n"
  define s2 where "s2 = upd_ed e (\<lambda>d. d\<lparr>int_interval := of_nat n, int_branch := of_nat b\<rparr>)
    (s1\<lparr>ohci_int_load := add_load n b ld (ohci_int_load s)\<rparr>)"
  have n: "unat (of_nat n :: u8) = n" "0 < n" "n dvd N_INTS" "n \<le> N_INTS"
    unfolding n_def by (rule interval_word)+
  have b: "b < n" using n(2) by (simp add: b_def)
  then have bw: "unat (of_nat b :: u8) = b" using n(4) by (simp add: unat_of_nat N_INTS_def)
  have "ed_type (eds s1 e) = INT_ep" "int_load (eds s1 e) = int_load (eds s e)" "ohci_int_load s1 = ohci_int_load s"
    using e(2) by (simp_all add: s1_def upd_ed_def)
  then have "link_int e n b 0 s2 = Some t"
    using l unfolding ep_link_def Let_def s1_def[symmetric]
    by (simp add: ep_int_ballance_def s2_def b_def ld_def n_def Let_def)
  then have sch: "same_sched s2 t" by (rule link_int_sched)
  have old: "slot_load (eds s2) j x = slot_load (eds s) j x \<and> scheduled (eds s2 x) = scheduled (eds s x)"
    if "x \<in> set xs" for j x using that e(1) by (auto simp: s2_def s1_def slot_load_def scheduled_def upd_ed_def)
  have new: "slot_load (eds s2) j e = (if j mod n = b then ld else 0)" for j
    by (simp add: s2_def s1_def slot_load_def upd_ed_def n(1) bw ld_def)
  have sche: "scheduled (eds s2 e)"
    using n b by (simp add: s2_def s1_def scheduled_def upd_ed_def bw)
  have sums: "sum_list (map (slot_load (eds s2) j) xs) = sum_list (map (slot_load (eds s) j) xs)" for j
    using old by (intro arg_cong[where f = sum_list] map_cong) auto
  have len: "length (ohci_int_load s) = N_INTS" using r by (simp add: rep_loads_def)
  have "rep_loads s2 (xs @ [e])"
    using r e(1) add_load_class[OF b len] old sche sums
    by (simp add: rep_loads_def new) (simp add: s2_def s1_def upd_ed_def)
  moreover have "ed_type (eds s2 x) = ed_type (eds s x)" for x by (simp add: s2_def s1_def upd_ed_def)
  ultimately show ?thesis using same_sched_loads[OF sch] by (simp add: rep_loads_def)
qed

lemma unlink_loads:
  assumes r: "rep_loads s xs" and e: "e \<in> set xs" "ed_type (eds s e) = INT_ep" and u: "ep_unlink e s = Some t"
  shows "rep_loads t (remove1 e xs) \<and> (\<forall>x. ed_type (eds t x) = ed_type (eds s x))"
proof -
  define s1 where "s1 = upd_ed e (\<lambda>d. d\<lparr>hwINFO := hwINFO d OR OHCI_ED_SKIP\<rparr>) s"
  let ?n = "unat (int_interval (eds s e))" and ?b = "unat (int_branch (eds s e))" and ?ld = "int (unat (int_load (eds s e)))"
  have s1: "int_interval (eds s1 x) = int_interval (eds s x)" "int_branch (eds s1 x) = int_branch (eds s x)"
    "int_load (eds s1 x) = int_load (eds s x)" "ed_type (eds s1 x) = ed_type (eds s x)"
    "ohci_int_load s1 = ohci_int_load s" for x by (simp_all add: s1_def upd_ed_def)
  have sch: "scheduled (eds s e)" using r e(1) by (simp add: rep_loads_def)
  then have b: "?b < ?n" by (simp add: scheduled_def)
  obtain s2 where s2: "unlink_int e ?n ?b 0 s1 = Some s2"
    and t: "t = upd_ed e (state_update (\<lambda>_. ED_UNLINK)) (s2\<lparr>ohci_int_load := add_load ?n ?b (- ?ld) (ohci_int_load s2)\<rparr>)"
    using u e(2) b unfolding ep_unlink_def Let_def s1_def[symmetric] by (auto simp: s1)
  note sc = same_sched_loads[OF unlink_int_sched[OF s2]]
  have sl: "slot_load (eds t) j x = slot_load (eds s) j x" "scheduled (eds t x) = scheduled (eds s x)"
    "ed_type (eds t x) = ed_type (eds s x)" for j x
    using fun_cong[OF fun_cong[OF sc(1)], of j x] sc(2)[of x] sc(3)[of x] by (auto simp: t slot_load_def scheduled_def upd_ed_def s1)
  have len: "length (ohci_int_load s) = N_INTS" and ds: "distinct xs" using r by (simp_all add: rep_loads_def)
  have ld: "ohci_int_load t = add_load ?n ?b (- ?ld) (ohci_int_load s)" by (simp add: t sc(4) s1 upd_ed_def)
  have "sum_list (map (slot_load (eds s) j) xs) = slot_load (eds s) j e + sum_list (map (slot_load (eds s) j) (remove1 e xs))" for j
    using e(1) by (rule sum_list_map_remove1)
  then have "ohci_int_load t ! j = sum_list (map (slot_load (eds s) j) (remove1 e xs))" if "j < N_INTS" for j
    using that r add_load_class(2)[OF b len that, where ld = "- ?ld"] by (simp add: ld rep_loads_def slot_load_def)
  then have "rep_loads t (remove1 e xs)"
    using r ds add_load_class(1)[OF b len] by (simp add: rep_loads_def sl ld cong: map_cong)
  then show ?thesis using sl(3) by blast
qed

lemma run_loads:
  assumes "run_ops ep_link ep_unlink ops s = Some t" "rep_loads s xs" "run_list ops xs = Some ys"
    and "\<forall>p \<in> set ops. ed_type (eds s (op_ed p)) = INT_ep"
  shows "rep_loads t ys"
  using assms
proof (induction ops arbitrary: s xs)
  case (Cons p ops)
  show ?case
  proof (cases p)
    case (Link e)
    with Cons.prems(1) obtain u where u: "ep_link e s = Some u" "run_ops ep_link ep_unlink ops u = Some t"
      by (auto simp: Option.bind_eq_Some_conv)
    with link_loads[OF Cons.prems(2) _ _ u(1)] Cons.prems(3,4) Link show ?thesis
      by (auto intro: Cons.IH[OF u(2)] split: if_splits)
  next
    case (Unlink e)
    with Cons.prems(1) obtain u where u: "ep_unlink e s = Some u" "run_ops ep_link ep_unlink ops u = Some t"
      by (auto simp: Option.bind_eq_Some_conv)
    with unlink_loads[OF Cons.prems(2) _ _ u(1)] Cons.prems(3,4) Unlink show ?thesis
      by (auto intro: Cons.IH[OF u(2)] split: if_splits)
  qed
qed simp

text \<open>C19. The table of loads is exact: whenever a sequence of \<open>ep_link\<close> and \<open>ep_unlink\<close> calls for
  interrupt EDs returns, every slot's entry is the sum of the loads of the EDs that are linked and
  whose branch the slot belongs to, whatever happened to the chains.\<close>

theorem int_loads_accounted:
  assumes "run_ops ep_link ep_unlink ops s = Some t" "run_list ops [] = Some ys"
    and "ohci_int_load s = replicate N_INTS 0" "\<forall>p \<in> set ops. ed_type (eds s (op_ed p)) = INT_ep"
  shows "length (ohci_int_load t) = N_INTS \<and>
    (\<forall>j < N_INTS. ohci_int_load t ! j = (\<Sum>e \<leftarrow> ys.
      if j mod unat (int_interval (eds t e)) = unat (int_branch (eds t e)) then int (unat (int_load (eds t e))) else 0))"
proof -
  have "rep_loads s []" using assms(3) by (simp add: rep_loads_def)
  from run_loads[OF assms(1) this assms(2,4)] show ?thesis by (simp add: rep_loads_def slot_load_def[abs_def])
qed

definition int_ed :: "u8 \<Rightarrow> u8 \<Rightarrow> ed" where
  "int_ed period ld = ed0\<lparr>int_period := period, int_load := ld, ed_type := INT_ep\<rparr>"

definition int_hc :: ohci_ed where
  "int_hc = ohci.extend (ohci_zero\<lparr>int_table := replicate N_INTS 0, ohci_int_load := replicate N_INTS 0\<rparr>)
     \<lparr>eds = (\<lambda>e. if e = 0x10 then int_ed 40 5 else int_ed 20 7), ed_lock = False, dev_table = (\<lambda>_. 0)\<rparr>"

theorem int_loads_accounted_witness:
  "\<exists>t. run_ops ep_link ep_unlink [Link 0x10, Link 0x20, Unlink 0x10] int_hc = Some t \<and> ohci_int_load t ! 17 =
     (if 17 mod unat (int_interval (eds t 0x20)) = unat (int_branch (eds t 0x20)) then int (unat (int_load (eds t 0x20))) else 0)"
proof -
  let ?ops = "[Link 0x10, Link 0x20, Unlink 0x10]"
  have "run_ops ep_link ep_unlink ?ops int_hc \<noteq> None" by code_simp
  then obtain t where t: "run_ops ep_link ep_unlink ?ops int_hc = Some t" by blast
  have "run_list ?ops [] = Some [0x20]" by simp
  moreover have "ohci_int_load int_hc = replicate N_INTS 0" by (simp add: int_hc_def ohci.defs)
  moreover have "\<forall>p \<in> set ?ops. ed_type (eds int_hc (op_ed p)) = INT_ep" by (simp add: int_hc_def int_ed_def ohci.defs)
  ultimately have "17 < N_INTS \<Longrightarrow> ohci_int_load t ! 17 = (\<Sum>e \<leftarrow> [0x20].
      if 17 mod unat (int_interval (eds t e)) = unat (int_branch (eds t e)) then int (unat (int_load (eds t e))) else 0)"
    using int_loads_accounted[OF t] by blast
  then show ?thesis using t by (simp add: N_INTS_def)
qed

text \<open>Where the first slot's chain reaches the ED through one other ED that points to it, the walk
  takes \<open>inter\<close> from the ED being unlinked, and no other slot is visited.\<close>

lemma unlink_int_once:
  assumes f: "int_table s ! branch = a" "a \<noteq> 0" "a \<noteq> e" "a \<noteq> hwNextED (eds s e)"
    and n: "hwNextED (eds s a) = e" "e \<noteq> 0" "hwNextED (eds s e) \<noteq> e" and i: "unat (int_interval (eds s e)) = interval"
    and p: "0 < ep_rev 6 interval"
  shows "unlink_int e interval branch 0 s = Some (upd_ed a (hwNextED_update (\<lambda>_. hwNextED (eds s e))) s)"
proof -
  have "unlink_walk e (Next a) (ep_rev 6 interval) s =
      Some (ep_rev 6 interval, upd_ed a (hwNextED_update (\<lambda>_. hwNextED (eds s e))) s)"
    using n by (subst unlink_walk.simps) (simp add: Let_def)
  then have "unlink_walk e (Slot branch) 1 s =
      Some (ep_rev 6 interval, upd_ed a (hwNextED_update (\<lambda>_. hwNextED (eds s e))) s)"
    using f n(1) i by (subst unlink_walk.simps) (simp add: Let_def)
  moreover have "ep_rev 5 0 = 0" by (rule bit_eqI) (simp add: bit_ep_rev)
  ultimately show ?thesis using p
    by (subst unlink_int.simps) (simp add: unlink_int.simps[of e interval branch "ep_rev 6 interval"])
qed

text \<open>C32. Unlinking an interrupt ED that the first slot of its branch reaches through another ED
  takes it out of that chain only: \<open>ep_unlink\<close> returns with all 32 slots as they were, so a slot
  of the branch that starts with the ED still does, and the controller keeps polling a descriptor
  that the driver takes to be unlinked.\<close>

theorem ep_unlink_int_leaves:
  assumes "ed_type (eds s e) = INT_ep" "0 < ep_rev 6 (unat (int_interval (eds s e)))" "int_interval (eds s e) \<noteq> 0"
    and "int_table s ! unat (int_branch (eds s e)) = a" "a \<notin> {0, e, hwNextED (eds s e)}"
    and "hwNextED (eds s a) = e" "hwNextED (eds s e) \<noteq> e" "e \<noteq> 0"
  shows "\<exists>t. ep_unlink e s = Some t \<and> state (eds t e) = ED_UNLINK \<and> int_table t = int_table s"
proof -
  define s1 where "s1 = upd_ed e (\<lambda>d. d\<lparr>hwINFO := hwINFO d OR OHCI_ED_SKIP\<rparr>) s"
  have s1: "int_interval (eds s1 x) = int_interval (eds s x)" "int_branch (eds s1 x) = int_branch (eds s x)"
    "hwNextED (eds s1 x) = hwNextED (eds s x)" "ed_type (eds s1 x) = ed_type (eds s x)"
    "int_table s1 = int_table s" for x by (simp_all add: s1_def upd_ed_def)
  have "unlink_int e (unat (int_interval (eds s e))) (unat (int_branch (eds s e))) 0 s1 =
      Some (upd_ed a (hwNextED_update (\<lambda>_. hwNextED (eds s1 e))) s1)"
    using assms by (intro unlink_int_once) (auto simp: s1)
  moreover have "0 < unat (int_interval (eds s e))" using assms(3) by (simp add: unat_gt_0)
  ultimately show ?thesis
    using assms(1) unfolding ep_unlink_def Let_def s1_def[symmetric] by (simp add: s1) (simp add: upd_ed_def s1)
qed

text \<open>A schedule in which slots 0 and 16 are the least busy: the EDs \<open>0x10\<close> (interval 32) and \<open>0x20\<close>
  (interval 16) both get branch 0.\<close>

definition busy_hc :: ohci_ed where
  "busy_hc = int_hc\<lparr>ohci_int_load := (replicate N_INTS 9)[0 := 0, 16 := 0]\<rparr>"

theorem ep_unlink_int_leaves_witness:
  "\<exists>s t. run_ops ep_link ep_unlink [Link 0x10, Link 0x20] busy_hc = Some s \<and> ep_unlink 0x20 s = Some t \<and>
     state (eds t 0x20) = ED_UNLINK \<and> int_table t ! 16 = 0x20"
proof -
  have "map_option (\<lambda>s. (int_table s ! 0, int_table s ! 16, hwNextED (eds s 0x10), hwNextED (eds s 0x20), eds s 0x20))
      (run_ops ep_link ep_unlink [Link 0x10, Link 0x20] busy_hc) =
    Some (0x10, 0x20, 0x20, 0, (int_ed 20 7)\<lparr>state := ED_OPER, int_interval := 16, int_branch := 0\<rparr>)" by code_simp
  then obtain s where s: "run_ops ep_link ep_unlink [Link 0x10, Link 0x20] busy_hc = Some s"
    and p: "int_table s ! 0 = 0x10" "int_table s ! 16 = 0x20" "hwNextED (eds s 0x10) = 0x20" "hwNextED (eds s 0x20) = 0"
      "eds s 0x20 = (int_ed 20 7)\<lparr>state := ED_OPER, int_interval := 16, int_branch := 0\<rparr>" by auto
  have r: "ep_rev 6 16 = 2" by code_simp
  have "\<exists>t. ep_unlink 0x20 s = Some t \<and> state (eds t 0x20) = ED_UNLINK \<and> int_table t = int_table s"
    by (rule ep_unlink_int_leaves[where a = "0x10"]) (simp_all add: p r int_ed_def ed0_def)
  then show ?thesis using s p(2) by metis
qed

end
