(* ===== verification/Td_Queue.thy ===== *)
theory Td_Queue
  imports Ohci_Td Ed_Chains
begin

text \<open>
  What a submission does to the queue of its endpoint. An URB is described as a list of jobs, one
  per transfer descriptor; \<open>td_submit_urb\<close> is shown to append exactly the descriptors of these jobs
  to the endpoint's queue, for every kind of pipe. The jobs are an auxiliary list; the section on sizes
  states directly of \<open>td_submit_urb\<close> that its descriptors for a bulk transfer tile the buffer, as many
  as \<open>sohci_submit_urb\<close> counted.
\<close>

section \<open>Jobs\<close>

text \<open>The labels of a \<open>switch\<close> over the pipe type are distinct.\<close>

definition pipes_distinct :: "henv \<Rightarrow> bool" where
  "pipes_distinct K \<longleftrightarrow> distinct (map (macro K) [PIPE_ISOCHRONOUS, PIPE_INTERRUPT, PIPE_CONTROL, PIPE_BULK])"

text \<open>The info word, the buffer and its length.\<close>

type_synonym job = "u32 \<times> addr \<times> int"

definition bulk_jobs :: "bool \<Rightarrow> u32 \<Rightarrow> addr \<Rightarrow> int \<Rightarrow> job list" where
  "bulk_jobs out toggle data len =
     (let n = nat ((len - 1) div 4096) in
      map (\<lambda>i. ((if out then TD_CC OR TD_DP_OUT else if i < n then TD_CC OR TD_DP_IN else TD_CC OR TD_R OR TD_DP_IN) OR
                 (if i \<noteq> 0 then TD_T_TOGGLE else toggle),
               data + 4096 * int i, if i < n then 4096 else len - 4096 * int n)) [0..<Suc n])"

definition urb_jobs :: "henv \<Rightarrow> hurb \<Rightarrow> urb_priv \<Rightarrow> u32 \<Rightarrow> job list" where
  "urb_jobs K w p toggle =
     (let pipe = urb_pipe w; out = (usb_pipeout K pipe \<noteq> 0); ctrl = px_setup_packet (portable p);
          data = px_transfer_buffer (portable p); len = sint (urb_transfer_buffer_length w) in
      if usb_pipetype K pipe = macro K PIPE_BULK then bulk_jobs out toggle data len
      else if usb_pipetype K pipe = macro K PIPE_INTERRUPT
      then [(if out then TD_CC OR TD_DP_OUT OR toggle else TD_CC OR TD_R OR TD_DP_IN OR toggle, data, len)]
      else if usb_pipetype K pipe = macro K PIPE_CONTROL
      then (TD_CC OR TD_DP_SETUP OR TD_T_DATA0, ctrl, 8) #
           (if 0 < len then [(if out then TD_CC OR TD_R OR TD_DP_OUT OR TD_T_DATA1
                              else TD_CC OR TD_R OR TD_DP_IN OR TD_T_DATA1, data, len)] else []) @
           [(if out then TD_CC OR TD_DP_IN OR TD_T_DATA1 else TD_CC OR TD_DP_OUT OR TD_T_DATA1, 0, 0)]
      else if usb_pipetype K pipe = macro K PIPE_ISOCHRONOUS
      then map (\<lambda>i. (TD_CC OR TD_ISO OR ((urb_start_frame w + of_nat i) AND 0xffff),
                data + uint (iso_offset (iso_frame_desc w ! i)), sint (iso_length (iso_frame_desc w ! i))))
             [0..<nat (sint (urb_number_of_packets w))]
      else [])"

fun fill_all :: "henv \<Rightarrow> addr \<Rightarrow> nat \<Rightarrow> job list \<Rightarrow> hcd \<Rightarrow> hcd option" where
  "fill_all K u c [] s = Some s"
| "fill_all K u c ((info, data, len) # js) s = Option.bind (td_fill K info data len u c s) (fill_all K u (Suc c) js)"

lemma fill_all_append:
  "fill_all K u c (xs @ ys) s = Option.bind (fill_all K u c xs s) (fill_all K u (c + length xs) ys)"
proof (induction K u c xs s rule: fill_all.induct)
  case (2 K u c info data len js s)
  then show ?case by (cases "td_fill K info data len u c s") auto
qed simp

lemma bulk_loop_jobs:
  "bulk_loop K info toggle u data len c s =
     (let n = nat ((len - 1) div 4096) in
      map_option (\<lambda>t. (data + 4096 * int n, len - 4096 * int n, c + n, t))
        (fill_all K u c (map (\<lambda>i. (info OR (if c + i \<noteq> 0 then TD_T_TOGGLE else toggle), data + 4096 * int i, 4096)) [0..<n]) s))"
proof (induction K info toggle u data len c s rule: bulk_loop.induct)
  case (1 K info toggle u data len c s)
  show ?case
  proof (cases "4096 < len")
    case False
    then have "nat ((len - 1) div 4096) = 0" by simp
    then show ?thesis using False by (subst bulk_loop.simps) simp
  next
    case True
    define m where "m = nat ((len - 4096 - 1) div 4096)"
    have n: "nat ((len - 1) div 4096) = Suc m" using True by (simp add: m_def)
    have ns: "[0..<Suc m] = 0 # map Suc [0..<m]" by (simp add: upt_conv_Cons map_Suc_upt del: upt_Suc)
    show ?thesis
    proof (cases "td_fill K (info OR (if c \<noteq> 0 then TD_T_TOGGLE else toggle)) data 4096 u c s")
      case None
      then show ?thesis using True by (subst bulk_loop.simps) (simp add: n ns del: upt_Suc)
    next
      case (Some t)
      have "bulk_loop K info toggle u data len c s = bulk_loop K info toggle u (data + 4096) (len - 4096) (Suc c) t"
        using True Some by (subst bulk_loop.simps) simp
      also have "\<dots> = map_option (\<lambda>t. (data + 4096 + 4096 * int m, len - 4096 - 4096 * int m, Suc c + m, t))
        (fill_all K u (Suc c) (map (\<lambda>i. (info OR (if Suc c + i \<noteq> 0 then TD_T_TOGGLE else toggle),
            data + 4096 + 4096 * int i, 4096)) [0..<m]) t)"
        using "1"[OF True Some] by (simp add: m_def Let_def)
      finally show ?thesis
        using Some by (simp add: n ns Let_def comp_def algebra_simps del: upt_Suc)
    qed
  qed
qed

text \<open>What one \<open>td_fill\<close> changes: the old empty descriptor is the job's, the one prepared for the
  index is the new empty one.\<close>

definition job_td :: "henv \<Rightarrow> bool \<Rightarrow> desc \<Rightarrow> addr \<Rightarrow> nat \<Rightarrow> job \<Rightarrow> desc \<Rightarrow> td" where
  "job_td K b e u i j n =
     (case j of (info, data, len) \<Rightarrow>
        let cbp = (if data = 0 \<or> len = 0 then 0 else virt_to_bus K data) in
        \<lparr>tINFO = info, hwCBP = if b then cbp AND 0xFFFFF000 else cbp, hwNextTD = n,
         hwBE = if data = 0 \<or> len = 0 then 0 else virt_to_bus K (data + len - 1),
         hwPSW0 = ucast ((virt_to_bus K data AND 0x0FFF) OR 0xE000), td_index = of_nat i, td_ed = e,
         next_dl_td = 0, td_urb = u\<rparr>)"

lemma job_td_fields [simp]:
  "tINFO (job_td K b e u i j n) = fst j" "hwNextTD (job_td K b e u i j n) = n" "td_index (job_td K b e u i j n) = of_nat i"
  "td_ed (job_td K b e u i j n) = e" "td_urb (job_td K b e u i j n) = u" "next_dl_td (job_td K b e u i j n) = 0"
  by (cases j; simp add: job_td_def Let_def)+

lemma job_td_span:
  "0 < data \<Longrightarrow> 0 < len \<Longrightarrow> hwCBP (job_td K False e u i (info, data, len) n) = virt_to_bus K data \<and>
   hwBE (job_td K False e u i (info, data, len) n) = virt_to_bus K (data + len - 1)"
  by (simp add: job_td_def Let_def)

definition iso_ed :: "henv \<Rightarrow> ed \<Rightarrow> bool" where
  "iso_ed K d \<longleftrightarrow> ucast (ed_type d AND 3) = macro K PIPE_ISOCHRONOUS"

text \<open>The parts of the state that filling descriptors leaves alone.\<close>

definition same_frame :: "addr \<Rightarrow> hcd \<Rightarrow> hcd \<Rightarrow> bool" where
  "same_frame u s t \<longleftrightarrow> io t = io s \<and> (\<forall>v. v \<noteq> u \<longrightarrow> urbs t v = urbs s v) \<and>
     (\<forall>p. (urbs t u)\<lparr>hcpriv := p\<rparr> = (urbs s u)\<lparr>hcpriv := p\<rparr>) \<and>
     (\<forall>x. hwHeadP (eds t x) = hwHeadP (eds s x) \<and> ed_type (eds t x) = ed_type (eds s x))"

lemma same_frame_refl [simp]: "same_frame u s s"
  by (simp add: same_frame_def)

lemma same_frame_trans: "same_frame u s t \<Longrightarrow> same_frame u t r \<Longrightarrow> same_frame u s r"
  by (simp add: same_frame_def)

lemma td_fill_frame:
  assumes "td_fill K info data len u index s = Some t"
  shows "same_frame u s t"
  using assms by (auto simp: td_fill_def Let_def err_log_def same_frame_def upd_td_def upd_ed_def upd_priv_def upd_urb_def
      split: option.splits if_splits)

lemma td_fill_run:
  assumes "hcpriv (urbs s u) = Some p" "index < unat (p_length p)" "p_td p ! index \<noteq> ptr (hwTailP (eds s (p_ed p)))"
  obtains t where "td_fill K info data len u index s = Some t"
    "hcpriv (urbs t u) = Some (p\<lparr>p_td := (p_td p)[index := ptr (hwTailP (eds s (p_ed p)))]\<rparr>)"
    "tds t = (tds s)(ptr (hwTailP (eds s (p_ed p))) :=
         job_td K (iso_ed K (eds s (p_ed p))) (p_ed p) u index (info, data, len) (p_td p ! index),
       p_td p ! index := (tds s (p_td p ! index))\<lparr>hwNextTD := 0\<rparr>)"
    "hwTailP (eds t (p_ed p)) = p_td p ! index" "same_frame u s t"
proof -
  obtain t where t: "td_fill K info data len u index s = Some t"
    using assms by (auto simp: td_fill_def Let_def)
  then have "hcpriv (urbs t u) = Some (p\<lparr>p_td := (p_td p)[index := ptr (hwTailP (eds s (p_ed p)))]\<rparr>)"
    "tds t = (tds s)(ptr (hwTailP (eds s (p_ed p))) :=
         job_td K (iso_ed K (eds s (p_ed p))) (p_ed p) u index (info, data, len) (p_td p ! index),
       p_td p ! index := (tds s (p_td p ! index))\<lparr>hwNextTD := 0\<rparr>)"
    "hwTailP (eds t (p_ed p)) = p_td p ! index"
    using assms by (auto simp: td_fill_def Let_def upd_td_def upd_ed_def upd_priv_def upd_urb_def job_td_def iso_ed_def
        fun_eq_iff split: option.splits if_splits)
  from that[OF t this td_fill_frame[OF t]] show thesis .
qed

section \<open>A whole submission\<close>

text \<open>The jobs fill the old empty descriptor \<open>T\<close> and all but the last of the prepared ones \<open>ns\<close>.\<close>

lemma fill_all_run:
  assumes "hcpriv (urbs s u) = Some p" "c + length js \<le> unat (p_length p)"
    and "ns = take (length js) (drop c (p_td p))" "length ns = length js"
    and "T = hwTailP (eds s (p_ed p))" "distinct (T # ns)" "\<forall>x \<in> set (T # ns). ptr x = x"
  shows "\<exists>t q. fill_all K u c js s = Some t \<and> same_frame u s t \<and>
    hcpriv (urbs t u) = Some (p\<lparr>p_td := q\<rparr>) \<and>
    hwTailP (eds t (p_ed p)) = (T # ns) ! length js \<and>
    (\<forall>i < length js. tds t ((T # ns) ! i) = job_td K (iso_ed K (eds s (p_ed p))) (p_ed p) u (c + i) (js ! i) (ns ! i)) \<and>
    (\<forall>x. x \<notin> set (T # ns) \<longrightarrow> tds t x = tds s x) \<and>
    (\<forall>x. x \<notin> set (take (length js) (T # ns)) \<longrightarrow> td_urb (tds t x) = td_urb (tds s x))"
  using assms
proof (induction js arbitrary: c s p ns T)
  case Nil
  then show ?case by (intro exI[of _ s] exI[of _ "p_td p"]) auto
next
  case (Cons j js)
  obtain info data len where j: "j = (info, data, len)" by (cases j)
  let ?l = "p_td p"
  have c: "c < unat (p_length p)" "c < length ?l" using Cons.prems(2-4) by auto
  define ms where "ms = take (length js) (drop (Suc c) ?l)"
  have ns: "ns = ?l ! c # ms" using Cons.prems(3) c(2) by (simp add: ms_def Cons_nth_drop_Suc[symmetric])
  have T: "ptr (hwTailP (eds s (p_ed p))) = T" using Cons.prems(5,7) by simp
  have ne: "?l ! c \<noteq> ptr (hwTailP (eds s (p_ed p)))" using Cons.prems(6) ns T by auto
  obtain t where t: "td_fill K info data len u c s = Some t" "hcpriv (urbs t u) = Some (p\<lparr>p_td := ?l[c := T]\<rparr>)"
    "tds t = (tds s)(T := job_td K (iso_ed K (eds s (p_ed p))) (p_ed p) u c j (?l ! c),
       ?l ! c := (tds s (?l ! c))\<lparr>hwNextTD := 0\<rparr>)" "hwTailP (eds t (p_ed p)) = ?l ! c" "same_frame u s t"
    using td_fill_run[OF Cons.prems(1) c(1) ne, of K info data len] unfolding T j by metis
  let ?p = "p\<lparr>p_td := ?l[c := T]\<rparr>"
  have iso: "iso_ed K (eds t (p_ed p)) = iso_ed K (eds s (p_ed p))" using t(5) by (simp add: same_frame_def iso_ed_def)
  have "\<exists>r q. fill_all K u (Suc c) js t = Some r \<and> same_frame u t r \<and> hcpriv (urbs r u) = Some (?p\<lparr>p_td := q\<rparr>) \<and>
    hwTailP (eds r (p_ed ?p)) = (?l ! c # ms) ! length js \<and>
    (\<forall>i < length js. tds r ((?l ! c # ms) ! i) =
       job_td K (iso_ed K (eds t (p_ed ?p))) (p_ed ?p) u (Suc c + i) (js ! i) (ms ! i)) \<and>
    (\<forall>x. x \<notin> set (?l ! c # ms) \<longrightarrow> tds r x = tds t x) \<and>
    (\<forall>x. x \<notin> set (take (length js) (?l ! c # ms)) \<longrightarrow> td_urb (tds r x) = td_urb (tds t x))"
  proof (rule Cons.IH[OF t(2)])
    show "ms = take (length js) (drop (Suc c) (p_td ?p))" by (simp add: ms_def)
    show "length ms = length js" using Cons.prems(4) ns by simp
  qed (use Cons.prems ns t(4) in auto)
  then obtain r q where r: "fill_all K u (Suc c) js t = Some r" "same_frame u t r" "hcpriv (urbs r u) = Some (p\<lparr>p_td := q\<rparr>)"
    "hwTailP (eds r (p_ed p)) = ns ! length js"
    "\<forall>i < length js. tds r (ns ! i) = job_td K (iso_ed K (eds s (p_ed p))) (p_ed p) u (Suc c + i) (js ! i) (ms ! i)"
    "\<forall>x. x \<notin> set ns \<longrightarrow> tds r x = tds t x"
    "\<forall>x. x \<notin> set (take (length js) ns) \<longrightarrow> td_urb (tds r x) = td_urb (tds t x)"
    using ns iso by auto
  have fr: "same_frame u s r" using t(5) r(2) by (rule same_frame_trans)
  have nT: "T \<notin> set ns" using Cons.prems(6) by simp
  have first: "tds r T = job_td K (iso_ed K (eds s (p_ed p))) (p_ed p) u c j (ns ! 0)"
    using r(6) nT t(3) ns by simp
  have all: "tds r ((T # ns) ! i) = job_td K (iso_ed K (eds s (p_ed p))) (p_ed p) u (c + i) ((j # js) ! i) (ns ! i)"
    if "i < length (j # js)" for i
  proof (cases i)
    case 0
    then show ?thesis using first by simp
  next
    case (Suc k)
    then show ?thesis using that r(5) ns by simp
  qed
  have "tds r x = tds s x" if "x \<notin> set (T # ns)" for x using that r(6) t(3) ns by simp
  moreover have "td_urb (tds r x) = td_urb (tds s x)" if "x \<notin> set (take (length (j # js)) (T # ns))" for x
    using that r(7) t(3) by simp
  moreover have "fill_all K u c (j # js) s = Some r" using t(1) r(1) by (simp add: j)
  ultimately show ?case using fr r(3,4) all by (intro exI[of _ r] exI[of _ q]) simp
qed

text \<open>The state in which the filling starts, and the doorbell at the end.\<close>

definition first_toggle :: "henv \<Rightarrow> hurb \<Rightarrow> usb_device \<Rightarrow> hcd \<Rightarrow> u32" where
  "first_toggle K w dev s =
     (if toggles s (devnum dev) (usb_pipeendpoint K (urb_pipe w)) (usb_pipeout K (urb_pipe w)) then TD_T_TOGGLE else TD_T_DATA0)"

definition start_state :: "henv \<Rightarrow> addr \<Rightarrow> usb_device \<Rightarrow> hcd \<Rightarrow> hcd" where
  "start_state K u dev s =
     (let ep = usb_pipeendpoint K (urb_pipe (urbs s u)); out = usb_pipeout K (urb_pipe (urbs s u)) in
      upd_priv u (td_cnt_update (\<lambda>_. 0))
        (if toggles s (devnum dev) ep out then s
         else s\<lparr>toggles := (toggles s)(devnum dev := (toggles s (devnum dev))(ep := (toggles s (devnum dev) ep)(out := True)))\<rparr>))"

definition doorbell :: "henv \<Rightarrow> u32 \<Rightarrow> hcd \<Rightarrow> hcd" where
  "doorbell K pipe s =
     (if usb_pipetype K pipe = macro K PIPE_BULK then writel OHCI_BLF Cmdstatus s
      else if usb_pipetype K pipe = macro K PIPE_INTERRUPT then s
      else if usb_pipetype K pipe = macro K PIPE_CONTROL then writel OHCI_CLF Cmdstatus s else s)"

lemma start_state_fields:
  "tds (start_state K u dev s) = tds s" "eds (start_state K u dev s) = eds s" "io (start_state K u dev s) = io s"
  "hcpriv (urbs (start_state K u dev s) u) = map_option (td_cnt_update (\<lambda>_. 0)) (hcpriv (urbs s u))"
  "(urbs (start_state K u dev s) u)\<lparr>hcpriv := p\<rparr> = (urbs s u)\<lparr>hcpriv := p\<rparr>"
  by (simp_all add: start_state_def upd_priv_def upd_urb_def Let_def)

lemma iso_loop_jobs:
  assumes "\<forall>p. (urbs s u)\<lparr>hcpriv := p\<rparr> = w\<lparr>hcpriv := p\<rparr>"
  shows "iso_loop K u data [c..<c + n] s = fill_all K u c (map (\<lambda>i. (TD_CC OR TD_ISO OR ((urb_start_frame w + of_nat i) AND 0xffff),
      data + uint (iso_offset (iso_frame_desc w ! i)), sint (iso_length (iso_frame_desc w ! i)))) [c..<c + n]) s"
  using assms
proof (induction n arbitrary: c s)
  case (Suc n)
  have w: "urb_start_frame (urbs s u) = urb_start_frame w" "iso_frame_desc (urbs s u) = iso_frame_desc w"
    using Suc.prems by (metis hurb.select_convs(1-6) hurb.surjective hurb.update_convs(2))+
  have l: "[c..<c + Suc n] = c # [Suc c..<Suc c + n]" by (simp add: upt_conv_Cons)
  show ?case
  proof (cases "td_fill K (TD_CC OR TD_ISO OR ((urb_start_frame w + of_nat c) AND 0xffff))
      (data + uint (iso_offset (iso_frame_desc w ! c))) (sint (iso_length (iso_frame_desc w ! c))) u c s")
    case None
    then show ?thesis unfolding l by (simp add: w)
  next
    case (Some t)
    have "\<forall>p. (urbs t u)\<lparr>hcpriv := p\<rparr> = w\<lparr>hcpriv := p\<rparr>"
      using td_fill_frame[OF Some] Suc.prems by (simp add: same_frame_def)
    from Suc.IH[OF this, of "Suc c"] Some show ?thesis unfolding l by (simp add: w)
  qed
qed simp

lemma fill_all_fun [simp]:
  "fill_all K u c [] = Some"
  "fill_all K u c ((info, data, len) # js) = (\<lambda>s. Option.bind (td_fill K info data len u c s) (fill_all K u (Suc c) js))"
  by (simp_all add: fun_eq_iff)

lemma map_option_bind_fun: "map_option f (Option.bind x g) = Option.bind x (\<lambda>y. map_option f (g y))"
  by (cases x) simp_all

lemma bulk_jobs_split:
  "bulk_jobs out toggle data len =
     (let n = nat ((len - 1) div 4096); info = (if out then TD_CC OR TD_DP_OUT else TD_CC OR TD_DP_IN) in
      map (\<lambda>i. (info OR (if i \<noteq> 0 then TD_T_TOGGLE else toggle), data + 4096 * int i, 4096)) [0..<n] @
      [((if out then TD_CC OR TD_DP_OUT else TD_CC OR TD_R OR TD_DP_IN) OR (if n \<noteq> 0 then TD_T_TOGGLE else toggle),
        data + 4096 * int n, len - 4096 * int n)])"
  by (simp add: bulk_jobs_def Let_def)

lemma td_submit_jobs:
  assumes "hcpriv (urbs s u) = Some p" "urb_dev (urbs s u) = Some dev"
    and "usb_pipetype K (urb_pipe (urbs s u)) \<in> macro K ` {PIPE_BULK, PIPE_INTERRUPT, PIPE_CONTROL, PIPE_ISOCHRONOUS}"
    and "js = urb_jobs K (urbs s u) p (first_toggle K (urbs s u) dev s)"
  shows "td_submit_urb K u s = map_option (\<lambda>t. (length js, doorbell K (urb_pipe (urbs s u)) t))
    (fill_all K u 0 js (start_state K u dev s))"
proof -
  let ?w = "urbs s u" and ?z = "start_state K u dev s" and ?tog = "first_toggle K (urbs s u) dev s"
  let ?pipe = "urb_pipe ?w" and ?data = "px_transfer_buffer (portable p)" and ?len = "sint (urb_transfer_buffer_length (urbs s u))"
  let ?on = "toggles s (devnum dev) (usb_pipeendpoint K ?pipe) (usb_pipeout K ?pipe)"
  obtain tog s1 where o: "(if ?on then (TD_T_TOGGLE, s)
      else (TD_T_DATA0, s\<lparr>toggles := (toggles s)(devnum dev := (toggles s (devnum dev))
        (usb_pipeendpoint K ?pipe := (toggles s (devnum dev) (usb_pipeendpoint K ?pipe))(usb_pipeout K ?pipe := True)))\<rparr>)) = (tog, s1)"
    by fastforce
  then have z: "upd_priv u (td_cnt_update (\<lambda>_. 0)) s1 = ?z" "tog = ?tog"
    by (auto simp: start_state_def first_toggle_def Let_def split: if_splits)
  note e = td_submit_urb_def assms(1,2) option.case prod.case Let_def o z
  note j = assms(4) urb_jobs_def Let_def doorbell_def
  consider (bulk) "usb_pipetype K ?pipe = macro K PIPE_BULK"
    | (int) "usb_pipetype K ?pipe \<noteq> macro K PIPE_BULK" "usb_pipetype K ?pipe = macro K PIPE_INTERRUPT"
    | (ctl) "usb_pipetype K ?pipe \<noteq> macro K PIPE_BULK" "usb_pipetype K ?pipe \<noteq> macro K PIPE_INTERRUPT"
        "usb_pipetype K ?pipe = macro K PIPE_CONTROL"
    | (isoc) "usb_pipetype K ?pipe \<noteq> macro K PIPE_BULK" "usb_pipetype K ?pipe \<noteq> macro K PIPE_INTERRUPT"
        "usb_pipetype K ?pipe \<noteq> macro K PIPE_CONTROL" "usb_pipetype K ?pipe = macro K PIPE_ISOCHRONOUS"
    using assms(3) by blast
  then show ?thesis
  proof cases
    case bulk
    show ?thesis unfolding e
      by (simp add: j bulk bulk_loop_jobs bulk_jobs_split fill_all_append map_option_bind_fun option.map_comp comp_def
          Option.bind_map_option del: TD_CC_def TD_DP_OUT_def TD_DP_IN_def TD_R_def TD_T_TOGGLE_def)
  next
    case int
    then have m: "macro K PIPE_INTERRUPT \<noteq> macro K PIPE_BULK" by simp
    show ?thesis unfolding e
      by (simp add: j int(2) m del: TD_CC_def TD_DP_OUT_def TD_DP_IN_def TD_R_def)
  next
    case ctl
    then have m: "macro K PIPE_CONTROL \<noteq> macro K PIPE_BULK" "macro K PIPE_CONTROL \<noteq> macro K PIPE_INTERRUPT" by simp_all
    show ?thesis unfolding e
      by (simp add: j ctl(3) m option.map_comp comp_def map_option_bind_fun Option.bind_map_option numeral_2_eq_2 numeral_3_eq_3
          del: TD_CC_def TD_DP_OUT_def TD_DP_IN_def TD_R_def TD_T_DATA0_def TD_T_DATA1_def TD_DP_SETUP_def)
  next
    case isoc
    then have m: "macro K PIPE_ISOCHRONOUS \<noteq> macro K PIPE_BULK" "macro K PIPE_ISOCHRONOUS \<noteq> macro K PIPE_INTERRUPT"
      "macro K PIPE_ISOCHRONOUS \<noteq> macro K PIPE_CONTROL" by simp_all
    have "\<forall>q. (urbs ?z u)\<lparr>hcpriv := q\<rparr> = ?w\<lparr>hcpriv := q\<rparr>" by (simp add: start_state_fields)
    from iso_loop_jobs[OF this, of K ?data 0] show ?thesis unfolding e
      by (simp add: j isoc(4) m option.map_comp comp_def del: TD_CC_def TD_ISO_def)
  qed
qed

section \<open>The endpoint's queue\<close>

text \<open>The descriptors \<open>xs\<close> from \<open>h\<close> on, up to the empty one \<open>t\<close>.\<close>

fun tdq :: "(desc \<Rightarrow> td) \<Rightarrow> desc \<Rightarrow> desc list \<Rightarrow> desc \<Rightarrow> bool" where
  "tdq f h [] t = (h = t)"
| "tdq f h (x # xs) t = (h = x \<and> tdq f (ptr (hwNextTD (f x))) xs t)"

lemma tdq_append: "tdq f h (xs @ ys) t \<longleftrightarrow> (\<exists>m. tdq f h xs m \<and> tdq f m ys t)"
  by (induction xs arbitrary: h) auto

lemma tdq_cong: "(\<And>x. x \<in> set xs \<Longrightarrow> f x = g x) \<Longrightarrow> tdq f h xs t = tdq g h xs t"
  by (induction xs arbitrary: h) auto

lemma tdq_path:
  "k \<le> length ns \<Longrightarrow> \<forall>i < k. ptr (hwNextTD (f ((T # ns) ! i))) = ns ! i \<Longrightarrow>
   tdq f T (take k (T # ns)) ((T # ns) ! k)"
proof (induction k arbitrary: T ns)
  case (Suc k)
  then obtain n ms where ns: "ns = n # ms" by (cases ns) auto
  have "\<forall>i < k. ptr (hwNextTD (f ((n # ms) ! i))) = ms ! i" using Suc.prems(2) ns by auto
  then have "tdq f n (take k (n # ms)) ((n # ms) ! k)" using Suc.prems(1) ns by (intro Suc.IH) auto
  moreover have "ptr (hwNextTD (f T)) = n" using Suc.prems(2) ns by force
  ultimately show ?case by (simp add: ns)
qed simp

text \<open>A submission for which everything is prepared.\<close>

lemma td_submit_run:
  assumes "hcpriv (urbs s u) = Some p" "urb_dev (urbs s u) = Some dev"
    and "usb_pipetype K (urb_pipe (urbs s u)) \<in> macro K ` {PIPE_BULK, PIPE_INTERRUPT, PIPE_CONTROL, PIPE_ISOCHRONOUS}"
    and "js = urb_jobs K (urbs s u) p (first_toggle K (urbs s u) dev s)" "length js \<le> unat (p_length p)"
    and "ns = take (length js) (p_td p)" "length ns = length js" "T = hwTailP (eds s (p_ed p))"
    and "distinct (T # ns)" "\<forall>x \<in> set (T # ns). ptr x = x"
  obtains t q where "td_submit_urb K u s = Some (length js, t)" "same_frame u s (t\<lparr>io := io s\<rparr>)"
    "hcpriv (urbs t u) = Some (p\<lparr>td_cnt := 0, p_td := q\<rparr>)" "hwTailP (eds t (p_ed p)) = (T # ns) ! length js"
    "\<forall>i < length js. tds t ((T # ns) ! i) = job_td K (iso_ed K (eds s (p_ed p))) (p_ed p) u i (js ! i) (ns ! i)"
    "\<forall>x. x \<notin> set (T # ns) \<longrightarrow> tds t x = tds s x"
    "\<forall>x. x \<notin> set (take (length js) (T # ns)) \<longrightarrow> td_urb (tds t x) = td_urb (tds s x)"
    "io t = io (doorbell K (urb_pipe (urbs s u)) s)"
proof -
  let ?z = "start_state K u dev s" and ?e = "p_ed p"
  let ?p = "p\<lparr>td_cnt := 0\<rparr>"
  have "\<exists>t q. fill_all K u 0 js ?z = Some t \<and> same_frame u ?z t \<and>
    hcpriv (urbs t u) = Some (?p\<lparr>p_td := q\<rparr>) \<and> hwTailP (eds t (p_ed ?p)) = (T # ns) ! length js \<and>
    (\<forall>i < length js. tds t ((T # ns) ! i) = job_td K (iso_ed K (eds ?z (p_ed ?p))) (p_ed ?p) u (0 + i) (js ! i) (ns ! i)) \<and>
    (\<forall>x. x \<notin> set (T # ns) \<longrightarrow> tds t x = tds ?z x) \<and>
    (\<forall>x. x \<notin> set (take (length js) (T # ns)) \<longrightarrow> td_urb (tds t x) = td_urb (tds ?z x))"
    using assms(1,5-10) by (intro fill_all_run) (simp_all add: start_state_fields)
  then obtain t q where t: "fill_all K u 0 js ?z = Some t" "same_frame u ?z t" "hcpriv (urbs t u) = Some (?p\<lparr>p_td := q\<rparr>)"
    "hwTailP (eds t ?e) = (T # ns) ! length js"
    "\<forall>i < length js. tds t ((T # ns) ! i) = job_td K (iso_ed K (eds s ?e)) ?e u i (js ! i) (ns ! i)"
    "\<forall>x. x \<notin> set (T # ns) \<longrightarrow> tds t x = tds s x"
    "\<forall>x. x \<notin> set (take (length js) (T # ns)) \<longrightarrow> td_urb (tds t x) = td_urb (tds s x)"
    by (auto simp: start_state_fields)
  define r where "r = doorbell K (urb_pipe (urbs s u)) t"
  have r: "tds r = tds t" "eds r = eds t" "urbs r = urbs t" by (simp_all add: r_def doorbell_def writel_def)
  have io: "io r = io (doorbell K (urb_pipe (urbs s u)) s)"
    using t(2) by (simp add: r_def doorbell_def writel_def same_frame_def start_state_fields)
  have "urbs ?z v = urbs s v" if "v \<noteq> u" for v
    using that by (simp add: start_state_def upd_priv_def upd_urb_def Let_def)
  then have "same_frame u s (r\<lparr>io := io s\<rparr>)" using t(2) by (simp add: same_frame_def r start_state_fields)
  moreover have "td_submit_urb K u s = Some (length js, r)"
    using td_submit_jobs[OF assms(1-4)] t(1) by (simp add: r_def)
  ultimately show thesis using that[of r q] t(3-7) io by (simp add: r)
qed

text \<open>C6. A submission appends its transfer to the endpoint's queue, for every kind of pipe: when the
  URB has as many prepared descriptors \<open>ns\<close> as it needs, all distinct, new to the queue and aligned,
  then \<open>td_submit_urb\<close> returns; the queue is the old one followed by the URB's descriptors, the
  first of them being the former empty descriptor \<open>T\<close>, and ends at a new empty one; the \<open>i\<close>-th of them
  holds the \<open>i\<close>-th job, its index, the URB and the endpoint; no other descriptor has changed; and
  the controller has been told to look at the list of control or bulk endpoints.\<close>

theorem td_submit_urb_appends:
  assumes "hcpriv (urbs s u) = Some p" "urb_dev (urbs s u) = Some dev"
    and "usb_pipetype K (urb_pipe (urbs s u)) \<in> macro K ` {PIPE_BULK, PIPE_INTERRUPT, PIPE_CONTROL, PIPE_ISOCHRONOUS}"
    and "js = urb_jobs K (urbs s u) p (first_toggle K (urbs s u) dev s)" "length js \<le> unat (p_length p)"
    and "ns = take (length js) (p_td p)" "length ns = length js" "T = hwTailP (eds s (p_ed p))"
    and "distinct (T # ns)" "\<forall>x \<in> set (T # ns). ptr x = x"
    and "tdq (tds s) (ptr (hwHeadP (eds s (p_ed p)))) xs T" "set xs \<inter> set (T # ns) = {}"
  shows "\<exists>t. td_submit_urb K u s = Some (length js, t) \<and>
    hwTailP (eds t (p_ed p)) = (T # ns) ! length js \<and>
    tdq (tds t) (ptr (hwHeadP (eds t (p_ed p)))) (xs @ take (length js) (T # ns)) ((T # ns) ! length js) \<and>
    (\<forall>i < length js. tds t ((T # ns) ! i) = job_td K (iso_ed K (eds s (p_ed p))) (p_ed p) u i (js ! i) (ns ! i)) \<and>
    (\<forall>x. x \<notin> set (T # ns) \<longrightarrow> tds t x = tds s x) \<and>
    io t = io (doorbell K (urb_pipe (urbs s u)) s)"
proof -
  obtain t where t: "td_submit_urb K u s = Some (length js, t)" "same_frame u s (t\<lparr>io := io s\<rparr>)"
    "hwTailP (eds t (p_ed p)) = (T # ns) ! length js"
    "\<forall>i < length js. tds t ((T # ns) ! i) = job_td K (iso_ed K (eds s (p_ed p))) (p_ed p) u i (js ! i) (ns ! i)"
    "\<forall>x. x \<notin> set (T # ns) \<longrightarrow> tds t x = tds s x" "io t = io (doorbell K (urb_pipe (urbs s u)) s)"
    by (rule td_submit_run[OF assms(1-10)])
  have "tdq (tds t) (ptr (hwHeadP (eds s (p_ed p)))) xs T"
    using assms(11,12) t(5) by (subst tdq_cong[where g = "tds s"]) auto
  moreover have "tdq (tds t) T (take (length js) (T # ns)) ((T # ns) ! length js)"
    using assms(7,10) t(4) by (intro tdq_path) auto
  moreover have "hwHeadP (eds t (p_ed p)) = hwHeadP (eds s (p_ed p))" using t(2) by (simp add: same_frame_def)
  ultimately have "tdq (tds t) (ptr (hwHeadP (eds t (p_ed p)))) (xs @ take (length js) (T # ns)) ((T # ns) ! length js)"
    unfolding tdq_append by metis
  then show ?thesis using t by blast
qed

section \<open>Sizes\<close>

lemma sdiv_nonneg: "0 \<le> (x :: int) \<Longrightarrow> 0 < c \<Longrightarrow> x sdiv c = x div c"
  by (cases "x = 0") (simp_all add: signed_divide_int_def)

text \<open>The jobs of a bulk transfer, one for every 4096 bytes.\<close>

lemma bulk_jobs_nth:
  assumes "usb_pipetype K (urb_pipe w) = macro K PIPE_BULK" "0 < sint (urb_transfer_buffer_length w)"
    and "len = sint (urb_transfer_buffer_length w)" "n = nat (urb_size K w)" "toggle \<in> {TD_T_TOGGLE, TD_T_DATA0}"
  shows "length (urb_jobs K w p toggle) = n" "4096 * (int n - 1) < len" "len \<le> 4096 * int n"
    "i < n \<Longrightarrow> snd (urb_jobs K w p toggle ! i) =
       (px_transfer_buffer (portable p) + 4096 * int i, min (4096 * (int i + 1)) len - 4096 * int i)"
    "i < n \<Longrightarrow> fst (urb_jobs K w p toggle ! i) AND TD_R \<noteq> 0 \<longleftrightarrow> i = n - 1 \<and> usb_pipeout K (urb_pipe w) = 0"
proof -
  define m where "m = nat ((len - 1) div 4096)"
  let ?out = "usb_pipeout K (urb_pipe w) \<noteq> 0" and ?js = "urb_jobs K w p toggle"
  have js: "?js = bulk_jobs ?out toggle (px_transfer_buffer (portable p)) len"
    using assms(1,3) by (simp add: urb_jobs_def)
  have m0: "int m = (len - 1) div 4096" using assms(2,3) by (simp add: m_def)
  then have "urb_size K w = int m + 1"
    using assms(1,2,3) by (simp add: urb_size_def Let_def sdiv_nonneg)
  then have n: "n = Suc m" using assms(4) by simp
  have "len - 1 = (len - 1) div 4096 * 4096 + (len - 1) mod 4096" "0 \<le> (len - 1) mod 4096" "(len - 1) mod 4096 < 4096"
    by simp_all
  then have m: "4096 * int m < len" "len \<le> 4096 * int m + 4096" using m0 by linarith+
  then show "4096 * (int n - 1) < len" "len \<le> 4096 * int n" by (simp_all add: n)
  show "length ?js = n" by (simp add: js bulk_jobs_def m_def Let_def n)
  have e: "?js ! i = ((if ?out then TD_CC OR TD_DP_OUT
        else if i < m then TD_CC OR TD_DP_IN else TD_CC OR TD_R OR TD_DP_IN) OR (if i \<noteq> 0 then TD_T_TOGGLE else toggle),
      px_transfer_buffer (portable p) + 4096 * int i, if i < m then 4096 else len - 4096 * int m)" if "i < n" for i
    using that unfolding js bulk_jobs_def Let_def m_def[symmetric] n by (simp del: upt_Suc TD_CC_def)
  have "(if i < m then 4096 else len - 4096 * int m) = min (4096 * (int i + 1)) len - 4096 * int i" if "i < n" for i
  proof (cases "i < m")
    case True
    then have "4096 * (int i + 1) \<le> 4096 * int m" by simp
    then have "4096 * (int i + 1) \<le> len" using m(1) by (rule order.trans[OF _ less_imp_le])
    then show ?thesis using True by simp
  next
    case False
    then have "i = m" using that n by simp
    then show ?thesis using m(2) by simp
  qed
  then show "i < n \<Longrightarrow> snd (?js ! i) = (px_transfer_buffer (portable p) + 4096 * int i, min (4096 * (int i + 1)) len - 4096 * int i)"
    by (simp add: e)
  have "(TD_CC OR TD_DP_OUT OR k) AND TD_R = 0" "(TD_CC OR TD_DP_IN OR k) AND TD_R = 0"
    "(TD_CC OR TD_R OR TD_DP_IN OR k) AND TD_R \<noteq> 0" if "k \<in> {TD_T_TOGGLE, TD_T_DATA0}" for k
    using that by auto
  moreover have "(if i \<noteq> 0 then TD_T_TOGGLE else toggle) \<in> {TD_T_TOGGLE, TD_T_DATA0}" using assms(5) by auto
  ultimately show "fst (?js ! i) AND TD_R \<noteq> 0 \<longleftrightarrow> i = n - 1 \<and> usb_pipeout K (urb_pipe w) = 0" if "i < n"
    using that unfolding e[OF that] fst_conv
    by (simp add: n less_Suc_eq_le or.assoc del: TD_CC_def TD_R_def TD_DP_IN_def TD_DP_OUT_def TD_T_TOGGLE_def TD_T_DATA0_def) fastforce
qed

lemma first_toggle_cases: "first_toggle K w dev s \<in> {TD_T_TOGGLE, TD_T_DATA0}"
  by (simp add: first_toggle_def)

text \<open>C22. \<open>td_submit_urb\<close> tiles the buffer of a bulk transfer: it fills as many descriptors as
  \<open>sohci_submit_urb\<close> counted for the URB (\<open>size\<close>); the \<open>i\<close>-th one starts, in \<open>hwCBP\<close>, at the
  bus address of byte \<open>4096 * i\<close> of the staged buffer and ends, in \<open>hwBE\<close>, at that of the byte
  before the next one starts, the last one at that of the last byte of the buffer; none is empty;
  and only the last one of an input transfer may end short of its length without an error
  (\<open>TD_R\<close>). (The endpoint is not isochronous, so that \<open>td_fill\<close> does not mask \<open>hwCBP\<close>.)\<close>

theorem td_submit_urb_bulk_tiles:
  assumes "hcpriv (urbs s u) = Some p" "urb_dev (urbs s u) = Some dev"
    and "usb_pipetype K (urb_pipe (urbs s u)) = macro K PIPE_BULK" "\<not> iso_ed K (eds s (p_ed p))"
    and "len = sint (urb_transfer_buffer_length (urbs s u))" "0 < len"
    and "data = px_transfer_buffer (portable p)" "0 < data"
    and "n = nat (urb_size K (urbs s u))" "n \<le> unat (p_length p)"
    and "ns = take n (p_td p)" "length ns = n" "T = hwTailP (eds s (p_ed p))"
    and "distinct (T # ns)" "\<forall>x \<in> set (T # ns). ptr x = x"
  shows "\<exists>t. td_submit_urb K u s = Some (n, t) \<and> 4096 * (int n - 1) < len \<and> len \<le> 4096 * int n \<and>
    (\<forall>i < n.
       hwCBP (tds t ((T # ns) ! i)) = virt_to_bus K (data + 4096 * int i) \<and>
       hwBE (tds t ((T # ns) ! i)) = virt_to_bus K (data + min (4096 * (int i + 1)) len - 1) \<and>
       (tINFO (tds t ((T # ns) ! i)) AND TD_R \<noteq> 0 \<longleftrightarrow> i = n - 1 \<and> usb_pipeout K (urb_pipe (urbs s u)) = 0))"
proof -
  define js where "js = urb_jobs K (urbs s u) p (first_toggle K (urbs s u) dev s)"
  note jobs = bulk_jobs_nth[where toggle = "first_toggle K (urbs s u) dev s", OF assms(3) _ assms(5,9) first_toggle_cases]
  note j = jobs(1)[where p = p, folded js_def] jobs(2,3) jobs(4,5)[where p = p, folded js_def]
  have l: "length js = n" "0 < sint (urb_transfer_buffer_length (urbs s u))" using j(1) assms(5,6) by simp_all
  have pipe: "usb_pipetype K (urb_pipe (urbs s u)) \<in> macro K ` {PIPE_BULK, PIPE_INTERRUPT, PIPE_CONTROL, PIPE_ISOCHRONOUS}"
    using assms(3) by blast
  obtain t where t: "td_submit_urb K u s = Some (n, t)"
    "\<forall>i < n. tds t ((T # ns) ! i) = job_td K (iso_ed K (eds s (p_ed p))) (p_ed p) u i (js ! i) (ns ! i)"
    by (rule td_submit_run[OF assms(1,2) pipe js_def, unfolded l(1), OF assms(10-15)])
  have "hwCBP (tds t ((T # ns) ! i)) = virt_to_bus K (data + 4096 * int i) \<and>
       hwBE (tds t ((T # ns) ! i)) = virt_to_bus K (data + min (4096 * (int i + 1)) len - 1)" if i: "i < n" for i
  proof -
    have "4096 * int i \<le> 4096 * (int n - 1)" using i by simp
    then have "4096 * int i < len" using j(2)[OF l(2)] by (rule order.strict_trans1)
    then have "0 < min (4096 * (int i + 1)) len - 4096 * int i" by simp
    moreover have "js ! i = (fst (js ! i), data + 4096 * int i, min (4096 * (int i + 1)) len - 4096 * int i)"
      using j(4)[OF l(2) i] assms(7) by (cases "js ! i") simp
    moreover have "tds t ((T # ns) ! i) = job_td K False (p_ed p) u i (js ! i) (ns ! i)" using t(2) i assms(4) by simp
    ultimately have "hwCBP (tds t ((T # ns) ! i)) = virt_to_bus K (data + 4096 * int i) \<and>
        hwBE (tds t ((T # ns) ! i)) =
          virt_to_bus K (data + 4096 * int i + (min (4096 * (int i + 1)) len - 4096 * int i) - 1)"
      using assms(8) by (metis job_td_span add_pos_nonneg of_nat_0_le_iff zero_le_mult_iff zero_le_numeral)
    then show ?thesis by simp
  qed
  moreover have "tINFO (tds t ((T # ns) ! i)) AND TD_R \<noteq> 0 \<longleftrightarrow> i = n - 1 \<and> usb_pipeout K (urb_pipe (urbs s u)) = 0"
    if i: "i < n" for i using t(2) i j(5)[OF l(2) i] by simp
  ultimately show ?thesis using t(1) j(2,3)[OF l(2)] by blast
qed

text \<open>The jobs of a control transfer with data, and what \<open>sohci_submit_urb\<close> counts for it.\<close>

lemma control_jobs:
  assumes "usb_pipetype K (urb_pipe w) = macro K PIPE_CONTROL" "pipes_distinct K" "0 < sint (urb_transfer_buffer_length w)"
  shows "length (urb_jobs K w p toggle) = 3" "urb_size K w = (sint (urb_transfer_buffer_length w) - 1) div 4096 + 3"
    "i < 3 \<Longrightarrow> fst (urb_jobs K w p toggle ! i) AND TD_ISO = 0"
proof -
  have d: "macro K PIPE_CONTROL \<noteq> macro K PIPE_BULK" "macro K PIPE_CONTROL \<noteq> macro K PIPE_INTERRUPT"
    "macro K PIPE_CONTROL \<noteq> macro K PIPE_ISOCHRONOUS" using assms(2) by (auto simp: pipes_distinct_def)
  show "length (urb_jobs K w p toggle) = 3" using assms d by (simp add: urb_jobs_def Let_def)
  show "urb_size K w = (sint (urb_transfer_buffer_length w) - 1) div 4096 + 3"
    using assms d by (simp add: urb_size_def Let_def sdiv_nonneg) 
  show "i < 3 \<Longrightarrow> fst (urb_jobs K w p toggle ! i) AND TD_ISO = 0"
    using assms d by (auto simp: urb_jobs_def Let_def numeral_3_eq_3 less_Suc_eq)
qed

definition bulk_urb :: hurb where
  "bulk_urb = urb.extend (stage_urb\<lparr>urb_pipe := 0xC0000000, urb_transfer_buffer_length := 10000, urb_dev := Some \<lparr>devnum = 2, dev_bus = True\<rparr>\<rparr>)
     \<lparr>urb_devp = 0x9000, hcpriv = Some \<lparr>p_ed = 0x10, p_length = 3, td_cnt = 0, p_state = 0, portable = px0\<lparr>px_transfer_buffer := 0x20000\<rparr>,
        p_td = [0x110, 0x120, 0x130]\<rparr>, urb_status = EINPROGRESS, urb_start_frame = 0, urb_number_of_packets = 0,
      iso_frame_desc = [], urb_next = 0\<rparr>"

definition ps2_henv :: henv where
  "ps2_henv = penv.extend (kenv.extend linux_env \<lparr>usb_pipecontrol = (\<lambda>p. of_bool (drop_bit 30 p = 2)),
       usb_pipeisoc = (\<lambda>p. of_bool (drop_bit 30 p = 0)), usb_pipeslow = (\<lambda>_. 0), usb_maxpacket = (\<lambda>_ _. 64)\<rparr>)
     \<lparr>virt_to_bus = of_int, bus_to_virt = uint, usb_disable_spd = 1, usb_iso_asap = 2, usb_async_unlink = 8,
      on_complete = (\<lambda>_ s. s)\<rparr>"

definition td0 :: td where
  "td0 = \<lparr>tINFO = 0, hwCBP = 0, hwNextTD = 0, hwBE = 0, hwPSW0 = 0, td_index = 0, td_ed = 0, next_dl_td = 0, td_urb = 0\<rparr>"

definition bulk_hcd :: hcd where
  "bulk_hcd = ohci_ed.extend (idle_hc\<lparr>eds := (\<lambda>_. ed0\<lparr>ed_type := BULK, hwTailP := 0x100, hwHeadP := 0x100\<rparr>)\<rparr>)
     \<lparr>tds = (\<lambda>_. td0), urbs = (\<lambda>_. bulk_urb), toggles = (\<lambda>_ _ _. False), halts = (\<lambda>_ _ _. False), dev_use = (\<lambda>_. 1),
      hcd_dma = stage_dma, devs = (\<lambda>_. \<lparr>dev_eds = [], ed_cnt = 1\<rparr>), dev_priv = (\<lambda>_. True)\<rparr>"

lemma bulk_fields:
  "usb_pipetype ps2_henv (urb_pipe bulk_urb) = macro ps2_henv PIPE_BULK" "sint (urb_transfer_buffer_length bulk_urb) = 10000"
  "urb_dev bulk_urb = Some \<lparr>devnum = 2, dev_bus = True\<rparr>" "urbs bulk_hcd v = bulk_urb" "usb_pipetype ps2_henv = usb_pipetype linux_env"
  "macro ps2_henv = linux_macro" "usb_pipeout ps2_henv = usb_pipeout linux_env"
  by (simp_all add: ps2_henv_def bulk_urb_def bulk_hcd_def urb.defs kenv.defs penv.defs ohci_ed.defs stage_urb_def linux_env_def)

theorem td_submit_urb_appends_witness:
  "\<exists>t. td_submit_urb ps2_henv 1 bulk_hcd = Some (3, t) \<and> hwTailP (eds t 0x10) = 0x130 \<and>
     tdq (tds t) (ptr (hwHeadP (eds t 0x10))) [0x100, 0x110, 0x120] 0x130"
proof -
  let ?js = "urb_jobs ps2_henv (urbs bulk_hcd 1) (the (hcpriv bulk_urb)) (first_toggle ps2_henv (urbs bulk_hcd 1) \<lparr>devnum = 2, dev_bus = True\<rparr> bulk_hcd)"
  have p: "hcpriv (urbs bulk_hcd 1) = Some (the (hcpriv bulk_urb))" "p_ed (the (hcpriv bulk_urb)) = 0x10"
    "p_length (the (hcpriv bulk_urb)) = 3" "p_td (the (hcpriv bulk_urb)) = [0x110, 0x120, 0x130]"
    by (simp_all add: bulk_fields) (simp_all add: bulk_urb_def urb.defs)
  have e: "hwTailP (eds bulk_hcd 0x10) = 0x100" "hwHeadP (eds bulk_hcd 0x10) = 0x100"
    by (simp_all add: bulk_hcd_def ohci_ed.defs)
  have l: "length ?js = 3"
    unfolding urb_jobs_def Let_def bulk_fields(4) by (simp only: bulk_fields(1,2) if_True) (simp add: bulk_jobs_def)
  have f1: "urb_dev (urbs bulk_hcd 1) = Some \<lparr>devnum = 2, dev_bus = True\<rparr>" by (simp only: bulk_fields)
  have f2: "usb_pipetype ps2_henv (urb_pipe (urbs bulk_hcd 1)) \<in>
      macro ps2_henv ` {PIPE_BULK, PIPE_INTERRUPT, PIPE_CONTROL, PIPE_ISOCHRONOUS}"
    by (subst bulk_fields(4)) (use bulk_fields(1) in blast)
  have f3: "length ?js \<le> unat (p_length (the (hcpriv bulk_urb)))" unfolding l p(3) by simp
  have f4: "[0x110, 0x120, 0x130] = take (length ?js) (p_td (the (hcpriv bulk_urb)))" unfolding l p(4) by simp
  have f5: "length [0x110, 0x120, 0x130 :: desc] = length ?js" unfolding l by simp
  have f6: "0x100 = hwTailP (eds bulk_hcd (p_ed (the (hcpriv bulk_urb))))" unfolding p(2) e by simp
  have f7: "distinct [0x100, 0x110, 0x120, 0x130 :: desc]" by simp
  have f8: "\<forall>x \<in> set [0x100, 0x110, 0x120, 0x130]. ptr x = x" by (simp add: ptr_def)
  have f9: "tdq (tds bulk_hcd) (ptr (hwHeadP (eds bulk_hcd (p_ed (the (hcpriv bulk_urb)))))) [] 0x100"
    unfolding p(2) e by (simp add: ptr_def)
  have f10: "set [] \<inter> set [0x100, 0x110, 0x120, 0x130 :: desc] = {}" by simp
  obtain t where t: "td_submit_urb ps2_henv 1 bulk_hcd = Some (length ?js, t)"
    "hwTailP (eds t (p_ed (the (hcpriv bulk_urb)))) = [0x100, 0x110, 0x120, 0x130] ! length ?js"
    "tdq (tds t) (ptr (hwHeadP (eds t (p_ed (the (hcpriv bulk_urb))))))
       ([] @ take (length ?js) [0x100, 0x110, 0x120, 0x130]) ([0x100, 0x110, 0x120, 0x130] ! length ?js)"
    using td_submit_urb_appends[OF p(1) f1 f2 refl f3 f4 f5 f6 f7 f8 f9 f10] by blast
  have n: "[0x100, 0x110, 0x120, 0x130] ! 3 = (0x130 :: desc)" "take 3 [0x100, 0x110, 0x120, 0x130] = [0x100, 0x110, 0x120 :: desc]"
    by simp_all
  show ?thesis using t unfolding l p(2) n append_Nil by blast
qed

theorem td_submit_urb_bulk_tiles_witness:
  "\<exists>t. td_submit_urb ps2_henv 1 bulk_hcd = Some (3, t) \<and> hwCBP (tds t 0x100) = 0x20000 \<and> hwBE (tds t 0x100) = 0x20FFF \<and>
     hwCBP (tds t 0x120) = 0x22000 \<and> hwBE (tds t 0x120) = 0x2270F"
proof -
  have w: "urbs bulk_hcd 1 = bulk_urb" by (rule bulk_fields(4))
  have p: "hcpriv (urbs bulk_hcd 1) = Some (the (hcpriv bulk_urb))" "p_ed (the (hcpriv bulk_urb)) = 0x10"
    "p_length (the (hcpriv bulk_urb)) = 3" "p_td (the (hcpriv bulk_urb)) = [0x110, 0x120, 0x130]"
    "px_transfer_buffer (portable (the (hcpriv bulk_urb))) = 0x20000"
    by (simp_all add: bulk_fields) (simp_all add: bulk_urb_def urb.defs)
  have e: "hwTailP (eds bulk_hcd 0x10) = 0x100" "ed_type (eds bulk_hcd 0x10) = BULK"
    by (simp_all add: bulk_hcd_def ohci_ed.defs)
  have h1: "urb_dev (urbs bulk_hcd 1) = Some \<lparr>devnum = 2, dev_bus = True\<rparr>"
    "usb_pipetype ps2_henv (urb_pipe (urbs bulk_hcd 1)) = macro ps2_henv PIPE_BULK"
    unfolding w by (rule bulk_fields(3), rule bulk_fields(1))
  have h2: "\<not> iso_ed ps2_henv (eds bulk_hcd (p_ed (the (hcpriv bulk_urb))))"
    unfolding p(2) iso_ed_def e(2) by (simp add: bulk_fields(6))
  have len: "10000 = sint (urb_transfer_buffer_length (urbs bulk_hcd 1))" unfolding w bulk_fields(2) ..
  have n: "3 = nat (urb_size ps2_henv (urbs bulk_hcd 1))"
    unfolding w urb_size_def Let_def by (simp only: bulk_fields(1,2) if_True) (simp add: signed_divide_int_def)
  have v: "virt_to_bus ps2_henv = of_int" by (simp add: ps2_henv_def penv.defs)
  obtain t where t: "td_submit_urb ps2_henv 1 bulk_hcd = Some (3, t)"
    "\<forall>i < 3. hwCBP (tds t ([0x100, 0x110, 0x120, 0x130] ! i)) = virt_to_bus ps2_henv (0x20000 + 4096 * int i) \<and>
       hwBE (tds t ([0x100, 0x110, 0x120, 0x130] ! i)) = virt_to_bus ps2_henv (0x20000 + min (4096 * (int i + 1)) 10000 - 1)"
    using td_submit_urb_bulk_tiles[OF p(1) h1 h2 len _ p(5)[symmetric] _ n, of "[0x110, 0x120, 0x130]" "0x100"]
    by (auto simp: p e ptr_def)
  from t(2)[rule_format, of 0] t(2)[rule_format, of 2] have
    "hwCBP (tds t 0x100) = 0x20000" "hwBE (tds t 0x100) = 0x20FFF" "hwCBP (tds t 0x120) = 0x22000" "hwBE (tds t 0x120) = 0x2270F"
    by (simp_all add: v)
  with t(1) show ?thesis by blast
qed

end
