(* ===== verification/Done_List.thy ===== *)
theory Done_List
  imports Ohci_Urb Td_Queue
begin

text \<open>
  From the controller's done queue to the completion handlers. The controller puts a finished
  descriptor in front of its queue; \<open>dl_reverse_done_list\<close> turns the queue round, and
  \<open>dl_done_list\<close> counts the finished descriptors of every URB and returns an URB with its last one.
  The lemmas abstract both to functions on lists: the chains of \<open>hwNextTD\<close> and of \<open>next_dl_td\<close> through
  the store become lists of descriptors, the counters a function from URBs to what is still missing.
  The last section is about control transfers that have too few descriptors.
\<close>

section \<open>Reversal\<close>

text \<open>The descriptors \<open>xs\<close>, linked by \<open>next_dl_td\<close>.\<close>

fun dlq :: "(desc \<Rightarrow> td) \<Rightarrow> desc \<Rightarrow> desc list \<Rightarrow> bool" where
  "dlq f h [] = (h = 0)"
| "dlq f h (x # xs) = (h = x \<and> x \<noteq> 0 \<and> dlq f (next_dl_td (f x)) xs)"

lemma dlq_other: "x \<notin> set xs \<Longrightarrow> dlq (f(x := d)) h xs = dlq f h xs"
  by (induction xs arbitrary: h) auto

lemma tdq_other: "x \<notin> set xs \<Longrightarrow> tdq (f(x := d)) h xs t = tdq f h xs t"
  by (rule tdq_cong) auto

lemma done_error_fields [simp]:
  "tds (done_error t s) = tds s" "done_head (done_error t s) = done_head s" "ed_lock (done_error t s) = ed_lock s"
  "io (done_error t s) = io s"
  by (auto simp: done_error_def Let_def upd_ed_def upd_priv_def upd_urb_def split: option.splits)

lemma reverse_loop_run:
  assumes "tdq (tds s) h ys 0" "dlq (tds s) r zs" "distinct (ys @ zs)" "0 \<notin> set ys"
  shows "\<exists>h' t. reverse_loop h r r s = Some (h', t) \<and> dlq (tds t) h' (rev ys @ zs) \<and>
    (\<forall>x. (tds t x)\<lparr>next_dl_td := 0\<rparr> = (tds s x)\<lparr>next_dl_td := 0\<rparr>) \<and>
    done_head t = done_head s \<and> ed_lock t = ed_lock s \<and> io t = io s \<and>
    ((\<forall>y \<in> set ys. TD_CC_GET (tINFO (tds s y)) = 0) \<longrightarrow> urbs t = urbs s \<and> eds t = eds s)"
  using assms
proof (induction ys arbitrary: h r zs s)
  case Nil
  then show ?case by (subst reverse_loop.simps) simp
next
  case (Cons y ys)
  let ?s = "upd_td y (next_dl_td_update (\<lambda>_. r)) (done_error y s)"
  have h: "h = y" "y \<noteq> 0" "ptr (hwNextTD (tds ?s y)) = ptr (hwNextTD (tds s y))"
    using Cons.prems by (auto simp: upd_td_def)
  have "tdq (tds ?s) (ptr (hwNextTD (tds s y))) ys 0"
    using Cons.prems by (simp add: upd_td_def tdq_other)
  moreover have "dlq (tds ?s) y (y # zs)" using Cons.prems h by (simp add: upd_td_def dlq_other)
  moreover have "distinct (ys @ y # zs)" "0 \<notin> set ys" using Cons.prems by auto
  ultimately obtain h' t where t: "reverse_loop (ptr (hwNextTD (tds s y))) y y ?s = Some (h', t)"
    "dlq (tds t) h' (rev ys @ y # zs)" "\<forall>x. (tds t x)\<lparr>next_dl_td := 0\<rparr> = (tds ?s x)\<lparr>next_dl_td := 0\<rparr>"
    "done_head t = done_head ?s" "ed_lock t = ed_lock ?s" "io t = io ?s"
    "(\<forall>z \<in> set ys. TD_CC_GET (tINFO (tds ?s z)) = 0) \<longrightarrow> urbs t = urbs ?s \<and> eds t = eds ?s"
    using Cons.IH by blast
  have "reverse_loop h r r s = Some (h', t)"
    using t(1) h by (subst reverse_loop.simps) (simp add: Let_def)
  moreover have "urbs t = urbs s \<and> eds t = eds s" if z: "\<forall>z \<in> set (y # ys). TD_CC_GET (tINFO (tds s z)) = 0"
  proof -
    have "done_error y s = s" using z by (simp add: done_error_def Let_def)
    moreover have "TD_CC_GET (tINFO (tds ?s z)) = TD_CC_GET (tINFO (tds s z))" for z by (simp add: upd_td_def)
    ultimately show ?thesis using t(7) z by (simp add: upd_td_def)
  qed
  ultimately show ?case using t(2-6) by (intro exI[of _ h'] exI[of _ t]) (simp add: upd_td_def)
qed

text \<open>C5. The done queue is reversed in place: when \<open>xs\<close> are the descriptors the controller has put
  on its queue, newest first, \<open>dl_reverse_done_list\<close> returns, and the list it leaves, linked by
  \<open>next_dl_td\<close> and starting at the result, is the same descriptors, oldest first, none lost and
  none twice; the queue's head is cleared, and nothing else in a descriptor changes.\<close>

theorem dl_reverse_done_list_reverses:
  assumes "\<not> ed_lock s" "tdq (tds s) (ptr (done_head s)) xs 0" "distinct xs" "0 \<notin> set xs"
  shows "\<exists>h t. dl_reverse_done_list s = Some (h, t) \<and> dlq (tds t) h (rev xs) \<and> done_head t = 0 \<and> \<not> ed_lock t \<and>
    (\<forall>x. (tds t x)\<lparr>next_dl_td := 0\<rparr> = (tds s x)\<lparr>next_dl_td := 0\<rparr>)"
proof -
  let ?s = "s\<lparr>ed_lock := True, done_head := 0\<rparr>"
  from reverse_loop_run[of ?s "ptr (done_head s)" xs 0 "[]"] assms
  obtain h t where "reverse_loop (ptr (done_head s)) 0 0 ?s = Some (h, t)" "dlq (tds t) h (rev xs)"
    "\<forall>x. (tds t x)\<lparr>next_dl_td := 0\<rparr> = (tds s x)\<lparr>next_dl_td := 0\<rparr>" "done_head t = 0" by auto
  then show ?thesis using assms(1)
    by (intro exI[of _ h] exI[of _ "t\<lparr>ed_lock := False\<rparr>"]) (simp add: dl_reverse_done_list_def locked_def)
qed

text \<open>Two finished descriptors, the one at \<open>0x120\<close> last.\<close>

definition done_tds :: "desc \<Rightarrow> td" where
  "done_tds x = (if x = 0x120 then td0\<lparr>hwNextTD := 0x110, td_urb := 1, td_ed := 0x10\<rparr>
     else td0\<lparr>td_urb := 1, td_ed := 0x10\<rparr>)"

definition done_hcd :: hcd where
  "done_hcd = bulk_hcd\<lparr>tds := done_tds, done_head := 0x120\<rparr>"

lemma done_hcd_queue:
  "\<not> ed_lock done_hcd" "tdq (tds done_hcd) (ptr (done_head done_hcd)) [0x120, 0x110] 0"
  by (simp_all add: done_hcd_def bulk_hcd_def ohci_ed.defs idle_hc_def ohci.defs done_tds_def td0_def ptr_def)

theorem dl_reverse_done_list_reverses_witness:
  "\<exists>t. dl_reverse_done_list done_hcd = Some (0x110, t) \<and> next_dl_td (tds t 0x110) = 0x120 \<and> next_dl_td (tds t 0x120) = 0"
  using dl_reverse_done_list_reverses[OF done_hcd_queue] by auto

section \<open>Counting\<close>

text \<open>What is observed of the driver by the dumper and the clients.\<close>

fun observed :: "io_event \<Rightarrow> bool" where
  "observed (Complete u) = True"
| "observed (Dump_return u) = True"
| "observed _ = False"

definition obs :: "hcd \<Rightarrow> io_event list" where
  "obs s = filter observed (io s)"

text \<open>An URB under way, and an endpoint that is not being deleted, on a control or bulk pipe.\<close>

definition ready :: "henv \<Rightarrow> hcd \<Rightarrow> addr \<Rightarrow> bool" where
  "ready K s u \<longleftrightarrow> urb_complete (urbs s u) \<and>
     usb_pipetype K (urb_pipe (urbs s u)) \<in> {macro K PIPE_BULK, macro K PIPE_CONTROL} \<and>
     (\<exists>p. hcpriv (urbs s u) = Some p \<and> p_state p \<noteq> URB_DEL \<and> unat (td_cnt p) < unat (p_length p))"

definition live_ed :: "hcd \<Rightarrow> desc \<Rightarrow> bool" where
  "live_ed s e \<longleftrightarrow> ed_type (eds s e) \<in> {CTRL, BULK} \<and> state (eds s e) AND ED_DEL = 0 \<and> state (eds s e) \<noteq> ED_NEW"

text \<open>How many of an URB's descriptors are not done yet.\<close>

definition missing :: "hcd \<Rightarrow> addr \<Rightarrow> nat" where
  "missing s u = (case hcpriv (urbs s u) of None \<Rightarrow> 0 | Some p \<Rightarrow> unat (p_length p) - unat (td_cnt p))"

text \<open>The URBs that become complete while the descriptors of the URBs \<open>us\<close> are counted, in order.\<close>

fun completions :: "(addr \<Rightarrow> nat) \<Rightarrow> addr list \<Rightarrow> addr list" where
  "completions r [] = []"
| "completions r (u # us) =
     (if r u = 1 then u # completions (r(u := 0)) us else completions (r(u := r u - 1)) us)"

text \<open>A completion handler that does not touch the driver, but may use memory.\<close>

definition quiet :: "henv \<Rightarrow> bool" where
  "quiet K \<longleftrightarrow> (\<forall>u s. \<exists>d. on_complete K u s = s\<lparr>hcd_dma := d\<rparr>)"

lemma free_all_dma: "\<exists>d. fold (\<lambda>t s. if t \<noteq> 0 then free_local (bus_to_virt K t) s else s) ts s = s\<lparr>hcd_dma := d\<rparr>"
proof (induction ts arbitrary: s)
  case Nil
  show ?case by (intro exI[of _ "hcd_dma s"]) simp
next
  case (Cons t ts)
  have "\<exists>d. (if t \<noteq> 0 then free_local (bus_to_virt K t) s else s) = s\<lparr>hcd_dma := d\<rparr>"
    by (cases "t = 0") (auto simp: free_local_def intro: exI[of _ "hcd_dma s"])
  then obtain d where d: "(if t \<noteq> 0 then free_local (bus_to_virt K t) s else s) = s\<lparr>hcd_dma := d\<rparr>" by blast
  from Cons.IH[of "s\<lparr>hcd_dma := d\<rparr>"] show ?case by (simp only: fold_Cons comp_apply d) simp
qed

lemma urb_rm_priv_run:
  assumes "hcpriv (urbs s u) = Some p"
  obtains d where "urb_rm_priv K u s = upd_urb u (hcpriv_update (\<lambda>_. None)) (s\<lparr>hcd_dma := d\<rparr>)"
proof -
  from free_all_dma[of K "take (unat (p_length p)) (p_td p)" s] obtain d where
    "fold (\<lambda>t s. if t \<noteq> 0 then free_local (bus_to_virt K t) s else s) (take (unat (p_length p)) (p_td p)) s = s\<lparr>hcd_dma := d\<rparr>"
    by blast
  then have "urb_rm_priv K u s = upd_urb u (hcpriv_update (\<lambda>_. None))
      (s\<lparr>hcd_dma := snd (Portable_FreeUrb (portable p) d)\<rparr>)"
    using assms by (simp add: urb_rm_priv_def Let_def)
  then show thesis by (rule that)
qed

text \<open>What the steps of \<open>done_td\<close> have in common: the descriptors and all other URBs stay, endpoints
  stay live, and the lock is free.\<close>

definition keeps :: "addr \<Rightarrow> hcd \<Rightarrow> hcd \<Rightarrow> bool" where
  "keeps u s t \<longleftrightarrow> tds t = tds s \<and> ed_lock t = ed_lock s \<and> (\<forall>v. v \<noteq> u \<longrightarrow> urbs t v = urbs s v) \<and>
     (\<forall>e. live_ed s e \<longrightarrow> live_ed t e)"

lemma keeps_trans: "keeps u s t \<Longrightarrow> keeps u t r \<Longrightarrow> keeps u s r"
  by (simp add: keeps_def)

lemma keeps_simps [simp]:
  "keeps u s s" "keeps u s (upd_urb u f s)" "keeps u s (upd_priv u g s)" "keeps u s (s\<lparr>hcd_dma := d\<rparr>)" "keeps u s (event e s)"
  "keeps u s (s\<lparr>halts := h\<rparr>)" "keeps u s (dev_use_add n u s)"
  by (auto simp: keeps_def live_ed_def upd_urb_def upd_priv_def event_def dev_use_add_def split: option.splits)

lemma return_ready:
  assumes p: "hcpriv (urbs s u) = Some p" and w: "urb_complete (urbs s u)"
      "usb_pipetype K (urb_pipe (urbs s u)) \<in> {macro K PIPE_BULK, macro K PIPE_CONTROL}"
    and k: "quiet K" "pipes_distinct K"
  obtains t where "sohci_return_urb K u s = Some (True, t)" "keeps u s t" "hcpriv (urbs t u) = None"
    "obs t = obs s @ [Dump_return u, Complete u]"
proof -
  define s1 where "s1 = event (Dump_return u) (s\<lparr>hcd_dma := Portable_PrepareUrbOnReturn (kenv.truncate K)
      (urb.truncate (urbs s u)) (portable p) (hcd_dma s)\<rparr>)"
  have s1: "hcpriv (urbs s1 u) = Some p" "obs s1 = obs s @ [Dump_return u]"
    using p by (simp_all add: s1_def event_def obs_def)
  have k1: "keeps u s s1" unfolding s1_def by (rule keeps_trans[OF keeps_simps(4) keeps_simps(5)])
  obtain d where rm: "urb_rm_priv K u s1 = upd_urb u (hcpriv_update (\<lambda>_. None)) (s1\<lparr>hcd_dma := d\<rparr>)"
    using urb_rm_priv_run[OF s1(1)] by blast
  define s2 where "s2 = usb_dec_dev_use u (urb_rm_priv K u s1)"
  have k2: "keeps u s1 s2"
    unfolding s2_def rm by (rule keeps_trans[OF keeps_trans[OF keeps_simps(4) keeps_simps(2)] keeps_simps(7)])
  have s2: "hcpriv (urbs s2 u) = None" "obs s2 = obs s @ [Dump_return u]"
    using s1(2) by (auto simp: s2_def rm upd_urb_def obs_def dev_use_add_def split: option.splits)
  obtain d2 where d2: "on_complete K u (event (Complete u) s2) = (event (Complete u) s2)\<lparr>hcd_dma := d2\<rparr>"
    using k(1) by (auto simp: quiet_def)
  define t where "t = call_complete K u s2"
  have t: "t = (event (Complete u) s2)\<lparr>hcd_dma := d2\<rparr>" by (simp add: t_def call_complete_def d2)
  have "keeps u s2 t" unfolding t by (rule keeps_trans[OF keeps_simps(5) keeps_simps(4)])
  then have "keeps u s t" using k1 k2 keeps_trans by blast
  moreover have "sohci_return_urb K u s = Some (True, t)"
    using w k(2) p by (auto simp: sohci_return_urb_def pipes_distinct_def Let_def t_def s2_def s1_def)
  moreover have "hcpriv (urbs t u) = None" "obs t = obs s @ [Dump_return u, Complete u]"
    using s2 by (simp_all add: t event_def obs_def)
  ultimately show thesis using that by blast
qed

text \<open>Unlinking does not concern descriptors, URBs and observers.\<close>

definition harmless :: "hcd \<Rightarrow> hcd \<Rightarrow> bool" where
  "harmless s t \<longleftrightarrow> tds t = tds s \<and> ed_lock t = ed_lock s \<and> urbs t = urbs s \<and> obs t = obs s \<and> (\<forall>e. live_ed s e \<longrightarrow> live_ed t e)"

lemma harmless_trans: "harmless s t \<Longrightarrow> harmless t r \<Longrightarrow> harmless s r"
  by (simp add: harmless_def)

lemma harmless_simps [simp]:
  "harmless s s" "harmless s (upd_ed x (hwNextED_update f) s)" "harmless s (upd_ed x (ed_prev_update g) s)"
  "harmless s (upd_ed x (\<lambda>d. d\<lparr>hwINFO := h d\<rparr>) s)" "harmless s (upd_ed x (state_update (\<lambda>_. ED_UNLINK)) s)"
  "harmless s (writel v r s)" "harmless s (s\<lparr>ed_controltail := c\<rparr>)" "harmless s (s\<lparr>ed_bulktail := c\<rparr>)"
  by (auto simp: harmless_def live_ed_def upd_ed_def writel_def obs_def)

lemma unlink_chain_harmless:
  assumes "unlink_chain r tail e s = (tail', t)"
  shows "harmless s t"
proof -
  define s1 where "s1 = (if ed_prev (eds s e) = 0 then writel (hwNextED (eds s e)) r s
      else upd_ed (ed_prev (eds s e)) (hwNextED_update (\<lambda>_. hwNextED (eds s e))) s)"
  have "harmless s s1" by (simp add: s1_def)
  moreover have "harmless s1 t" using assms by (auto simp: unlink_chain_def Let_def s1_def[symmetric] split: if_splits)
  ultimately show ?thesis by (rule harmless_trans)
qed

lemma ep_unlink_run:
  assumes "ed_type (eds s e) \<in> {CTRL, BULK}"
  obtains t where "ep_unlink e s = Some t" "harmless s t"
proof -
  define s1 where "s1 = upd_ed e (\<lambda>d. d\<lparr>hwINFO := hwINFO d OR OHCI_ED_SKIP\<rparr>) s"
  have h1: "harmless s s1" by (simp add: s1_def)
  have ty: "ed_type (eds s1 e) = ed_type (eds s e)" by (simp add: s1_def upd_ed_def)
  obtain t2 s2 where c: "unlink_chain Ed_controlhead (ed_controltail s1) e s1 = (t2, s2)" by fastforce
  obtain t3 s3 where b: "unlink_chain Ed_bulkhead (ed_bulktail s1) e s1 = (t3, s3)" by fastforce
  have "\<exists>r. ep_unlink e s = Some (upd_ed e (state_update (\<lambda>_. ED_UNLINK)) r) \<and> harmless s1 r"
  proof (cases "ed_type (eds s e) = CTRL")
    case True
    have "harmless s1 (s2\<lparr>ed_controltail := t2\<rparr>)"
      using unlink_chain_harmless[OF c] harmless_simps(7) by (rule harmless_trans)
    then show ?thesis using True c unfolding ep_unlink_def Let_def s1_def[symmetric]
      by (intro exI[of _ "s2\<lparr>ed_controltail := t2\<rparr>"]) (simp add: ty del: ED_UNLINK_def)
  next
    case False
    have "harmless s1 (s3\<lparr>ed_bulktail := t3\<rparr>)"
      using unlink_chain_harmless[OF b] harmless_simps(8) by (rule harmless_trans)
    then show ?thesis using False assms b unfolding ep_unlink_def Let_def s1_def[symmetric]
      by (intro exI[of _ "s3\<lparr>ed_bulktail := t3\<rparr>"]) (simp add: ty del: ED_UNLINK_def)
  qed
  then obtain r where r: "ep_unlink e s = Some (upd_ed e (state_update (\<lambda>_. ED_UNLINK)) r)" "harmless s1 r" by blast
  have "harmless s (upd_ed e (state_update (\<lambda>_. ED_UNLINK)) r)"
    using harmless_trans[OF harmless_trans[OF h1 r(2)] harmless_simps(5)] .
  with r(1) show thesis by (rule that)
qed

lemma count_up:
  assumes "unat (c :: u16) < unat (l :: u16)"
  shows "unat (c + 1) = Suc (unat c)"
proof -
  have "c < l" using assms by (simp add: word_less_nat_alt)
  then have "c \<noteq> - 1" by (metis word_order.extremum_strict)
  then have "1 + c \<noteq> 0" by (metis add.commute add_eq_0_iff)
  then show ?thesis using unatSuc[of c] by (simp add: add.commute)
qed

text \<open>The last step of \<open>done_td\<close>.\<close>

lemma idle_unlink_run:
  assumes "live_ed s e" "\<not> ed_lock s"
  obtains t where "map_option snd (locked (\<lambda>s.
        if state (eds s e) \<noteq> ED_NEW \<and> ptr (hwHeadP (eds s e)) = hwTailP (eds s e) \<and> state (eds s e) = ED_OPER
        then map_option (Pair ()) (ep_unlink e s) else Some ((), s)) s) = Some t" "harmless s t"
proof -
  let ?s = "s\<lparr>ed_lock := True\<rparr>"
  have "ed_type (eds ?s e) \<in> {CTRL, BULK}" using assms(1) by (simp add: live_ed_def)
  then obtain r where r: "ep_unlink e ?s = Some r" "harmless ?s r" by (rule ep_unlink_run)
  have h: "harmless s (r\<lparr>ed_lock := False\<rparr>)" "harmless s (?s\<lparr>ed_lock := False\<rparr>)"
    using r(2) assms(2) by (simp_all add: harmless_def obs_def live_ed_def)
  show thesis
  proof (cases "state (eds s e) \<noteq> ED_NEW \<and> ptr (hwHeadP (eds s e)) = hwTailP (eds s e) \<and> state (eds s e) = ED_OPER")
    case True
    then show thesis using that[OF _ h(1)] r(1) assms(2) by (simp add: locked_def)
  next
    case False
    then show thesis using that[OF _ h(2)] assms(2) by (auto simp: locked_def)
  qed
qed

lemma dl_transfer_length_run:
  assumes "tINFO (tds s x) AND TD_ISO = 0" "hcpriv (urbs s (td_urb (tds s x))) = Some p"
  obtains f where "dl_transfer_length K x s = Some (upd_urb (td_urb (tds s x)) (urb_actual_length_update f) s)"
proof -
  have same: "upd_urb u (urb_actual_length_update (\<lambda>x. x)) s = s" for u
    by (cases "urbs s u") (simp add: upd_urb_def fun_upd_idem)
  have "dl_transfer_length K x s = Some s \<or> (\<exists>f. dl_transfer_length K x s = Some (upd_urb (td_urb (tds s x)) (urb_actual_length_update f) s))"
    using assms by (auto simp: dl_transfer_length_def Let_def)
  then show thesis using that same by metis
qed

lemma done_td_ready:
  assumes r: "ready K s u" and u: "u = td_urb (tds s x)" and e: "live_ed s (td_ed (tds s x))"
    and i: "tINFO (tds s x) AND TD_ISO = 0" and l: "\<not> ed_lock s" and k: "quiet K" "pipes_distinct K"
  obtains t where "done_td K x s = Some t" "keeps u s t"
    "missing s u \<noteq> 1 \<Longrightarrow> ready K t u \<and> missing t u = missing s u - 1 \<and> obs t = obs s"
    "missing s u = 1 \<Longrightarrow> missing t u = 0 \<and> obs t = obs s @ [Dump_return u, Complete u]"
proof -
  obtain p where p: "hcpriv (urbs s u) = Some p" "p_state p \<noteq> URB_DEL" "unat (td_cnt p) < unat (p_length p)"
    using r by (auto simp: ready_def)
  obtain f where f: "dl_transfer_length K x s = Some (upd_urb u (urb_actual_length_update f) s)"
    using dl_transfer_length_run[OF i, of p K] p(1) u by blast
  define s1 where "s1 = upd_urb u (urb_actual_length_update f) s"
  define s2 where "s2 = (if TD_CC_GET (tINFO (tds s x)) = TD_CC_STALL
      then (case urb_dev (urbs s u) of None \<Rightarrow> s1
        | Some dv \<Rightarrow> s1\<lparr>halts := (halts s1)(devnum dv := (halts s1 (devnum dv))
            (usb_pipeendpoint K (urb_pipe (urbs s u)) := (halts s1 (devnum dv) (usb_pipeendpoint K (urb_pipe (urbs s u))))
              (usb_pipeout K (urb_pipe (urbs s u)) := True)))\<rparr>)
      else s1)"
  define s3 where "s3 = upd_priv u (td_cnt_update (\<lambda>c. c + 1)) s2"
  define st where "st = cc_to_error ! (if urb_transfer_flags (urbs s u) AND usb_disable_spd K = 0 \<and>
      TD_CC_GET (tINFO (tds s x)) = TD_DATAUNDERRUN then TD_CC_NOERROR else TD_CC_GET (tINFO (tds s x)))"
  have k2: "keeps u s s2" "obs s2 = obs s" "urbs s2 u = urb_actual_length_update f (urbs s u)"
    by (auto simp: s2_def s1_def keeps_def live_ed_def obs_def upd_urb_def split: option.splits)
  have k3: "keeps u s s3" unfolding s3_def by (rule keeps_trans[OF k2(1) keeps_simps(3)])
  have p3: "hcpriv (urbs s3 u) = Some (p\<lparr>td_cnt := td_cnt p + 1\<rparr>)" and o3: "obs s3 = obs s"
    using p(1) k2(2,3) by (simp_all add: s3_def upd_priv_def upd_urb_def obs_def)
  have cnt: "unat (td_cnt p + 1) = Suc (unat (td_cnt p))" using p(3) by (rule count_up)
  have m: "missing s u = unat (p_length p) - unat (td_cnt p)" by (simp add: missing_def p(1))
  have eq: "td_cnt p + 1 = p_length p \<longleftrightarrow> missing s u = 1"
    using cnt p(3) unfolding m word_unat_eq_iff by auto
  have l3: "\<not> ed_lock s3" "live_ed s3 (td_ed (tds s x))" using k3 l e by (auto simp: keeps_def)
  let ?e = "td_ed (tds s x)"
  define fin where "fin = (\<lambda>s4. map_option snd (locked (\<lambda>s.
        if state (eds s ?e) \<noteq> ED_NEW \<and> ptr (hwHeadP (eds s ?e)) = hwTailP (eds s ?e) \<and> state (eds s ?e) = ED_OPER
        then map_option (Pair ()) (ep_unlink ?e s) else Some ((), s)) s4))"
  have run: "done_td K x s = Option.bind
        (if td_cnt p + 1 = p_length p
         then map_option snd (sohci_return_urb K u (upd_urb u (urb_status_update (\<lambda>_. st)) s3))
         else Some s3) fin"
    using l3(2) p(2) p3 unfolding done_td_def Let_def u[symmetric] f bind.simps s1_def[symmetric] s2_def[symmetric]
      s3_def[symmetric] st_def[symmetric] fin_def[symmetric] live_ed_def
    by simp
  show thesis
  proof (cases "missing s u = 1")
    case False
    obtain t where t: "fin s3 = Some t" "harmless s3 t" using idle_unlink_run[OF l3(2,1)] unfolding fin_def by blast
    have "done_td K x s = Some t" using run eq False t(1) by simp
    moreover have "keeps u s t" using k3 t(2) by (simp add: keeps_def harmless_def)
    moreover have "urbs s3 u = (urb_actual_length_update f (urbs s u))\<lparr>hcpriv := Some (p\<lparr>td_cnt := td_cnt p + 1\<rparr>)\<rparr>"
      by (simp add: s3_def upd_priv_def upd_urb_def k2(3) p(1))
    then have "ready K t u \<and> missing t u = missing s u - 1"
      using r t(2) p cnt False by (auto simp: ready_def missing_def harmless_def)
    moreover have "obs t = obs s" using t(2) o3 by (simp add: harmless_def)
    ultimately show thesis using that[of t] False by blast
  next
    case True
    let ?s = "upd_urb u (urb_status_update (\<lambda>_. st)) s3"
    have us: "urbs ?s u = (urb_actual_length_update f (urbs s u))\<lparr>hcpriv := Some (p\<lparr>td_cnt := td_cnt p + 1\<rparr>), urb_status := st\<rparr>"
      by (simp add: s3_def upd_priv_def upd_urb_def k2(3) p(1))
    obtain t1 where t1: "sohci_return_urb K u ?s = Some (True, t1)" "keeps u ?s t1" "hcpriv (urbs t1 u) = None"
      "obs t1 = obs ?s @ [Dump_return u, Complete u]"
      by (rule return_ready[where s = ?s and u = u and p = "p\<lparr>td_cnt := td_cnt p + 1\<rparr>" and K = K])
        (use r k in \<open>auto simp: us ready_def\<close>)
    have ks: "keeps u s t1" by (rule keeps_trans[OF keeps_trans[OF k3 keeps_simps(2)] t1(2)])
    then have "live_ed t1 ?e" "\<not> ed_lock t1" using e l by (auto simp: keeps_def)
    then obtain t where t: "fin t1 = Some t" "harmless t1 t" using idle_unlink_run unfolding fin_def by blast
    have "done_td K x s = Some t" using run eq True t(1) t1(1) by simp
    moreover have "keeps u s t" using ks t(2) by (simp add: keeps_def harmless_def)
    moreover have "missing t u = 0" using t(2) t1(3) by (simp add: missing_def harmless_def)
    moreover have "obs t = obs s @ [Dump_return u, Complete u]"
      using t(2) t1(4) o3 by (simp add: harmless_def) (simp add: obs_def upd_urb_def)
    ultimately show thesis using that[of t] True by blast
  qed
qed

section \<open>The whole list\<close>

lemma completions_cong: "(\<And>u. u \<in> set us \<Longrightarrow> q u = r u) \<Longrightarrow> completions q us = completions r us"
proof (induction us arbitrary: q r)
  case (Cons u us)
  have "completions (q(u := n)) us = completions (r(u := n)) us" for n
    using Cons.prems by (intro Cons.IH) auto
  then show ?case using Cons.prems by simp
qed simp

lemma done_list_run:
  assumes "dlq (tds s) h xs" "\<not> ed_lock s" "quiet K" "pipes_distinct K"
    and "\<forall>x \<in> set xs. ready K s (td_urb (tds s x)) \<and> live_ed s (td_ed (tds s x)) \<and> tINFO (tds s x) AND TD_ISO = 0"
    and "\<forall>u. count_list (map (\<lambda>x. td_urb (tds s x)) xs) u \<le> missing s u"
  shows "\<exists>t. dl_done_list K h s = Some t \<and> tds t = tds s \<and> \<not> ed_lock t \<and>
    obs t = obs s @ concat (map (\<lambda>u. [Dump_return u, Complete u]) (completions (missing s) (map (\<lambda>x. td_urb (tds s x)) xs))) \<and>
    (\<forall>v. missing t v = missing s v - count_list (map (\<lambda>x. td_urb (tds s x)) xs) v) \<and>
    (\<forall>v. ready K s v \<and> count_list (map (\<lambda>x. td_urb (tds s x)) xs) v < missing s v \<longrightarrow> ready K t v)"
  using assms
proof (induction xs arbitrary: h s)
  case Nil
  then show ?case by (subst dl_done_list.simps) simp
next
  case (Cons x xs)
  let ?u = "td_urb (tds s x)" and ?us = "map (\<lambda>x. td_urb (tds s x)) xs"
  have h: "h = x" "x \<noteq> 0" "dlq (tds s) (next_dl_td (tds s x)) xs" using Cons.prems(1) by auto
  have rx: "ready K s ?u" "live_ed s (td_ed (tds s x))" "tINFO (tds s x) AND TD_ISO = 0" using Cons.prems(5) by auto
  obtain t where t: "done_td K x s = Some t" "keeps ?u s t"
    "missing s ?u \<noteq> 1 \<Longrightarrow> ready K t ?u \<and> missing t ?u = missing s ?u - 1 \<and> obs t = obs s"
    "missing s ?u = 1 \<Longrightarrow> missing t ?u = 0 \<and> obs t = obs s @ [Dump_return ?u, Complete ?u]"
    using done_td_ready[OF rx(1) refl rx(2,3) Cons.prems(2-4)] by blast
  have same: "tds t = tds s" "\<not> ed_lock t" "\<And>v. v \<noteq> ?u \<Longrightarrow> urbs t v = urbs s v" "\<And>e. live_ed s e \<Longrightarrow> live_ed t e"
    using t(2) Cons.prems(2) by (simp_all add: keeps_def)
  have miss: "missing t v = (if v = ?u then missing s ?u - 1 else missing s v)" for v
    using t(3,4) same(3)[of v] by (cases "missing s ?u = 1") (auto simp: missing_def)
  have cnt: "count_list ?us v \<le> missing t v" for v
    using Cons.prems(6)[rule_format, of v] by (auto simp: miss split: if_splits)
  have still: "ready K t (td_urb (tds s y))" if y: "y \<in> set xs" for y
  proof (cases "td_urb (tds s y) = ?u")
    case True
    have "?u \<in> set ?us" using imageI[OF y, of "\<lambda>x. td_urb (tds s x)"] True by simp
    then have "0 < count_list ?us ?u" using count_list_0_iff[of ?us ?u] by linarith
    then have "missing s ?u \<noteq> 1" using cnt[of ?u] by (simp add: miss)
    then show ?thesis using t(3) True by simp
  next
    case False
    then show ?thesis using Cons.prems(5) y same(3)[OF False] by (auto simp: ready_def)
  qed
  have "\<exists>r. dl_done_list K (next_dl_td (tds s x)) t = Some r \<and> tds r = tds t \<and> \<not> ed_lock r \<and>
    obs r = obs t @ concat (map (\<lambda>u. [Dump_return u, Complete u]) (completions (missing t) (map (\<lambda>x. td_urb (tds t x)) xs))) \<and>
    (\<forall>v. missing r v = missing t v - count_list (map (\<lambda>x. td_urb (tds t x)) xs) v) \<and>
    (\<forall>v. ready K t v \<and> count_list (map (\<lambda>x. td_urb (tds t x)) xs) v < missing t v \<longrightarrow> ready K r v)"
  proof (rule Cons.IH)
    show "dlq (tds t) (next_dl_td (tds s x)) xs" using h(3) same(1) by simp
    show "\<forall>y \<in> set xs. ready K t (td_urb (tds t y)) \<and> live_ed t (td_ed (tds t y)) \<and> tINFO (tds t y) AND TD_ISO = 0"
      using still same(1,4) Cons.prems(5) by auto
    show "\<forall>u. count_list (map (\<lambda>x. td_urb (tds t x)) xs) u \<le> missing t u" using cnt same(1) by simp
  qed (use same Cons.prems in auto)
  then obtain r where r: "dl_done_list K (next_dl_td (tds s x)) t = Some r" "tds r = tds s" "\<not> ed_lock r"
    "obs r = obs t @ concat (map (\<lambda>u. [Dump_return u, Complete u]) (completions (missing t) ?us))"
    "\<forall>v. missing r v = missing t v - count_list ?us v"
    "\<forall>v. ready K t v \<and> count_list ?us v < missing t v \<longrightarrow> ready K r v"
    using same(1) by auto
  have "dl_done_list K h s = Some r" using h r(1) t(1) by (subst dl_done_list.simps) (simp add: Let_def)
  moreover have "missing t = (missing s)(?u := missing s ?u - 1)" by (auto simp: miss fun_eq_iff)
  then have "obs r = obs s @ concat (map (\<lambda>u. [Dump_return u, Complete u]) (completions (missing s) (?u # ?us)))"
    using r(4) t(3,4) by (cases "missing s ?u = 1") simp_all
  moreover have "missing r v = missing s v - count_list (?u # ?us) v" for v
    using r(5) by (simp add: miss)
  moreover have "ready K r v" if v: "ready K s v" "count_list (?u # ?us) v < missing s v" for v
  proof -
    have "ready K t v"
    proof (cases "v = ?u")
      case True
      then show ?thesis using v t(3) by auto
    next
      case False
      then show ?thesis using v(1) same(3)[of v] by (simp add: ready_def)
    qed
    moreover have "count_list ?us v < missing t v" using v(2) by (auto simp: miss split: if_splits)
    ultimately show ?thesis using r(6) by blast
  qed
  ultimately show ?case using r(2,3) by auto
qed

text \<open>The done queue of the controller, newest first, from the interrupt to the handlers.\<close>

lemma done_queue_run:
  assumes "\<not> ed_lock s" "tdq (tds s) (ptr (done_head s)) xs 0" "distinct xs" "0 \<notin> set xs"
    and "quiet K" "pipes_distinct K"
    and "\<forall>x \<in> set xs. TD_CC_GET (tINFO (tds s x)) = 0 \<and> tINFO (tds s x) AND TD_ISO = 0 \<and>
      ready K s (td_urb (tds s x)) \<and> live_ed s (td_ed (tds s x))"
    and "\<forall>u. count_list (map (\<lambda>x. td_urb (tds s x)) xs) u \<le> missing s u"
  obtains h t r where "dl_reverse_done_list s = Some (h, t)" "dl_done_list K h t = Some r" "\<not> ed_lock r"
    "obs r = obs s @ concat (map (\<lambda>u. [Dump_return u, Complete u])
      (completions (missing s) (map (\<lambda>x. td_urb (tds s x)) (rev xs))))"
    "\<And>v. missing r v = missing s v - count_list (map (\<lambda>x. td_urb (tds s x)) (rev xs)) v"
    "\<And>v. ready K s v \<Longrightarrow> count_list (map (\<lambda>x. td_urb (tds s x)) (rev xs)) v < missing s v \<Longrightarrow> ready K r v"
proof -
  let ?s = "s\<lparr>ed_lock := True, done_head := 0\<rparr>"
  from reverse_loop_run[of ?s "ptr (done_head s)" xs 0 "[]"] assms(2-4,7)
  obtain h t0 where t0: "reverse_loop (ptr (done_head s)) 0 0 ?s = Some (h, t0)" "dlq (tds t0) h (rev xs)"
    "\<forall>x. (tds t0 x)\<lparr>next_dl_td := 0\<rparr> = (tds s x)\<lparr>next_dl_td := 0\<rparr>" "io t0 = io s" "urbs t0 = urbs s" "eds t0 = eds s" by auto
  define t where "t = t0\<lparr>ed_lock := False\<rparr>"
  have rv: "dl_reverse_done_list s = Some (h, t)" using assms(1) t0(1) by (simp add: dl_reverse_done_list_def locked_def t_def)
  have f: "td_urb (tds t x) = td_urb (tds s x)" "td_ed (tds t x) = td_ed (tds s x)" "tINFO (tds t x) = tINFO (tds s x)" for x
    using t0(3)[rule_format, of x] by (simp_all add: t_def) (metis td.select_convs td.surjective td.update_convs(8))+
  have same: "ready K t u = ready K s u" "live_ed t e = live_ed s e" "missing t = missing s" "obs t = obs s" for u e
    using t0(4-6) by (simp_all add: t_def ready_def live_ed_def missing_def obs_def fun_eq_iff)
  have "\<exists>r. dl_done_list K h t = Some r \<and> tds r = tds t \<and> \<not> ed_lock r \<and> obs r = obs t @
      concat (map (\<lambda>u. [Dump_return u, Complete u]) (completions (missing t) (map (\<lambda>x. td_urb (tds t x)) (rev xs)))) \<and>
      (\<forall>v. missing r v = missing t v - count_list (map (\<lambda>x. td_urb (tds t x)) (rev xs)) v) \<and>
      (\<forall>v. ready K t v \<and> count_list (map (\<lambda>x. td_urb (tds t x)) (rev xs)) v < missing t v \<longrightarrow> ready K r v)"
  proof (rule done_list_run)
    show "dlq (tds t) h (rev xs)" "\<not> ed_lock t" using t0(2) by (simp_all add: t_def)
    show "\<forall>x \<in> set (rev xs). ready K t (td_urb (tds t x)) \<and> live_ed t (td_ed (tds t x)) \<and> tINFO (tds t x) AND TD_ISO = 0"
      using assms(7) by (simp add: same f)
    show "\<forall>u. count_list (map (\<lambda>x. td_urb (tds t x)) (rev xs)) u \<le> missing t u"
      using assms(8) by (simp add: same f rev_map[symmetric])
  qed (use assms in auto)
  then obtain r where "dl_done_list K h t = Some r" "\<not> ed_lock r" "obs r = obs s @
      concat (map (\<lambda>u. [Dump_return u, Complete u]) (completions (missing s) (map (\<lambda>x. td_urb (tds s x)) (rev xs))))"
    "\<And>v. missing r v = missing s v - count_list (map (\<lambda>x. td_urb (tds s x)) (rev xs)) v"
    "\<And>v. ready K s v \<Longrightarrow> count_list (map (\<lambda>x. td_urb (tds s x)) (rev xs)) v < missing s v \<Longrightarrow> ready K r v"
    unfolding same f by blast
  with rv show thesis by (rule that)
qed

text \<open>C4. URBs come back in the order in which the controller finished them, exactly once, and through
  the dumper: let \<open>xs\<close> be the controller's done queue, newest first, of descriptors of bulk and
  control transfers that ended without an error and whose URBs still miss at least that many. Then
  \<open>dl_reverse_done_list\<close> and \<open>dl_done_list\<close> return, and what has been called is, for every URB that
  misses nothing any more and in the order of their last descriptors, \<open>SideDumper_OnReturn\<close> and then
  the completion handler; for all others nothing. (The handlers do not call the driver.)\<close>

theorem done_queue_fifo:
  assumes "\<not> ed_lock s" "tdq (tds s) (ptr (done_head s)) xs 0" "distinct xs" "0 \<notin> set xs"
    and "quiet K" "pipes_distinct K"
    and "\<forall>x \<in> set xs. TD_CC_GET (tINFO (tds s x)) = 0 \<and> tINFO (tds s x) AND TD_ISO = 0 \<and>
      ready K s (td_urb (tds s x)) \<and> live_ed s (td_ed (tds s x))"
    and "\<forall>u. count_list (map (\<lambda>x. td_urb (tds s x)) xs) u \<le> missing s u"
  shows "\<exists>h t r. dl_reverse_done_list s = Some (h, t) \<and> dl_done_list K h t = Some r \<and> \<not> ed_lock r \<and>
    obs r = obs s @ concat (map (\<lambda>u. [Dump_return u, Complete u])
      (completions (missing s) (map (\<lambda>x. td_urb (tds s x)) (rev xs))))"
  by (rule done_queue_run[OF assms]) blast

definition last_hcd :: hcd where
  "last_hcd = done_hcd\<lparr>urbs := (\<lambda>_. bulk_urb\<lparr>hcpriv := map_option (td_cnt_update (\<lambda>_. 1)) (hcpriv bulk_urb)\<rparr>)\<rparr>"

lemma ps2_quiet: "pipes_distinct ps2_henv" "quiet ps2_henv"
proof -
  show "pipes_distinct ps2_henv" by (simp add: pipes_distinct_def bulk_fields)
  have "on_complete ps2_henv v s = s\<lparr>hcd_dma := hcd_dma s\<rparr>" for v s
    by (simp add: ps2_henv_def penv.defs)
  then show "quiet ps2_henv" unfolding quiet_def by blast
qed

theorem done_queue_fifo_witness:
  "\<exists>h t r. dl_reverse_done_list last_hcd = Some (h, t) \<and> dl_done_list ps2_henv h t = Some r \<and>
     obs r = obs last_hcd @ [Dump_return 1, Complete 1]"
proof -
  have q: "\<not> ed_lock last_hcd" "tdq (tds last_hcd) (ptr (done_head last_hcd)) [0x120, 0x110] 0"
    using done_hcd_queue by (simp_all add: last_hcd_def)
  note k = ps2_quiet(2,1)
  have u: "td_urb (tds last_hcd x) = 1" "tINFO (tds last_hcd x) = 0" "td_ed (tds last_hcd x) = 0x10" for x
    by (simp_all add: last_hcd_def done_hcd_def done_tds_def td0_def)
  have m: "missing last_hcd v = 2" for v
    by (simp add: missing_def last_hcd_def) (simp add: bulk_urb_def urb.defs)
  have "urbs last_hcd v = bulk_urb\<lparr>hcpriv := map_option (td_cnt_update (\<lambda>_. 1)) (hcpriv bulk_urb)\<rparr>" for v
    by (simp add: last_hcd_def)
  then have r: "ready ps2_henv last_hcd 1"
    using bulk_fields(1) by (simp add: ready_def) (simp add: bulk_urb_def urb.defs stage_urb_def)
  have l: "live_ed last_hcd 0x10"
    by (simp add: live_ed_def last_hcd_def done_hcd_def bulk_hcd_def ohci_ed.defs idle_hc_def ed0_def)
  have "\<exists>h t r. dl_reverse_done_list last_hcd = Some (h, t) \<and> dl_done_list ps2_henv h t = Some r \<and> \<not> ed_lock r \<and>
    obs r = obs last_hcd @ concat (map (\<lambda>u. [Dump_return u, Complete u])
      (completions (missing last_hcd) (map (\<lambda>x. td_urb (tds last_hcd x)) (rev [0x120, 0x110]))))"
    by (rule done_queue_fifo[OF q _ _ k]) (simp_all add: u m r l TD_CC_GET_def)
  then show ?thesis by (simp add: u m) blast
qed

section \<open>Control transfers of more than one page\<close>

text \<open>The controller's done queue \<open>xs\<close>, newest first, in a state \<open>h\<close> after the descriptors \<open>ds\<close>
  of the state \<open>t\<close> were filled: it has set their condition codes to 0 and linked them.\<close>

definition done_ok :: "hcd \<Rightarrow> desc set \<Rightarrow> hcd \<Rightarrow> desc list \<Rightarrow> bool" where
  "done_ok t ds h xs \<longleftrightarrow> \<not> ed_lock h \<and> tdq (tds h) (ptr (done_head h)) xs 0 \<and> distinct xs \<and> 0 \<notin> set xs \<and> set xs \<subseteq> ds \<and>
     (\<forall>x \<in> set xs. td_urb (tds h x) = td_urb (tds t x) \<and> live_ed h (td_ed (tds h x)) \<and>
        TD_CC_GET (tINFO (tds h x)) = 0 \<and> tINFO (tds h x) AND TD_ISO = tINFO (tds t x) AND TD_ISO)"

text \<open>Descriptors of one URB that are fewer than it misses do not complete it.\<close>

lemma completions_none:
  "\<forall>v \<in> set us. v = u \<Longrightarrow> length us < m u \<Longrightarrow> completions m us = []"
  by (induction us arbitrary: m) auto

lemma too_few_done:
  assumes d: "done_ok t ds h xs" and ds: "\<forall>x \<in> ds. td_urb (tds t x) = u \<and> tINFO (tds t x) AND TD_ISO = 0"
    and r: "ready K h u" "length xs < missing h u" and k: "quiet K" "pipes_distinct K"
  obtains f t' r where "dl_reverse_done_list h = Some (f, t')" "dl_done_list K f t' = Some r" "obs r = obs h"
    "missing r u = missing h u - length xs" "ready K r u"
proof -
  have x: "td_urb (tds h x) = u" "live_ed h (td_ed (tds h x))" "TD_CC_GET (tINFO (tds h x)) = 0"
    "tINFO (tds h x) AND TD_ISO = 0" if "x \<in> set xs" for x
    using d ds that by (auto simp: done_ok_def)
  then have m: "map (\<lambda>x. td_urb (tds h x)) ys = replicate (length ys) u" if "set ys = set xs" for ys
    using that by (intro replicate_eqI) auto
  have c: "count_list (replicate n u) v = (if v = u then n else 0)" for n v by (induction n) auto
  note q = d[unfolded done_ok_def]
  obtain f t' r where "dl_reverse_done_list h = Some (f, t')" "dl_done_list K f t' = Some r"
    "obs r = obs h @ concat (map (\<lambda>u. [Dump_return u, Complete u]) (completions (missing h) (map (\<lambda>x. td_urb (tds h x)) (rev xs))))"
    "missing r u = missing h u - count_list (map (\<lambda>x. td_urb (tds h x)) (rev xs)) u"
    "count_list (map (\<lambda>x. td_urb (tds h x)) (rev xs)) u < missing h u \<Longrightarrow> ready K r u"
    by (rule done_queue_run[of h xs K]) (use q x r k c in \<open>auto simp: m\<close>)
  moreover have "completions (missing h) (replicate (length xs) u) = []"
    using r(2) by (intro completions_none) simp_all
  ultimately show thesis using that r(2) by (simp add: m c)
qed

text \<open>C23. A control transfer of more than 4096 bytes is never done. The URB counts, as
  \<open>sohci_submit_urb\<close> does, a descriptor for every 4096 bytes of data and two more, at least four in all.
  But \<open>td_submit_urb\<close> fills three, the former empty descriptor and the first two prepared ones, and no
  other descriptor belongs to the URB. The URB then waits for as many as it counts; and whenever the
  controller hands back \<open>xs\<close> of the three, finished without an error, after \<open>c\<close> others of them,
  \<open>dl_reverse_done_list\<close> and \<open>dl_done_list\<close> call neither the dumper nor a completion handler, and the
  URB still waits: at best, when all three are back, for the ones that do not exist.\<close>

theorem control_urb_never_done:
  assumes "hcpriv (urbs s u) = Some p" "urb_dev (urbs s u) = Some dev" "urb_complete (urbs s u)" "p_state p \<noteq> URB_DEL"
    and "usb_pipetype K (urb_pipe (urbs s u)) = macro K PIPE_CONTROL" "pipes_distinct K" "quiet K"
    and "4096 < sint (urb_transfer_buffer_length (urbs s u))" "int (unat (p_length p)) = urb_size K (urbs s u)"
    and "take 3 (p_td p) = [a, b, c]" "T = hwTailP (eds s (p_ed p))"
    and "distinct [T, a, b, c]" "\<forall>x \<in> {T, a, b, c}. ptr x = x" "\<forall>x. td_urb (tds s x) \<noteq> u"
  shows "\<exists>t. td_submit_urb K u s = Some (3, t) \<and> {x. td_urb (tds t x) = u} = {T, a, b} \<and>
    ready K t u \<and> missing t u = unat (p_length p) \<and> 3 < unat (p_length p) \<and>
    (\<forall>h xs k. done_ok t {T, a, b} h xs \<and> ready K h u \<and> missing h u = unat (p_length p) - k \<and> k + length xs \<le> 3 \<longrightarrow>
      (\<exists>f t' r. dl_reverse_done_list h = Some (f, t') \<and> dl_done_list K f t' = Some r \<and> obs r = obs h \<and>
         ready K r u \<and> missing r u = unat (p_length p) - (k + length xs)))"
proof -
  let ?w = "urbs s u"
  define js where "js = urb_jobs K ?w p (first_toggle K ?w dev s)"
  have pos: "0 < sint (urb_transfer_buffer_length ?w)" using assms(8) by simp
  note cj = control_jobs[OF assms(5,6) pos]
  have l: "length js = 3" by (simp add: js_def cj(1))
  have "1 \<le> (sint (urb_transfer_buffer_length ?w) - 1) div 4096" using assms(8) by simp
  then have n: "3 < unat (p_length p)" using assms(9) cj(2) by linarith
  have pipe: "usb_pipetype K (urb_pipe ?w) \<in> macro K ` {PIPE_BULK, PIPE_INTERRUPT, PIPE_CONTROL, PIPE_ISOCHRONOUS}"
    using assms(5) by blast
  have ns: "[a, b, c] = take 3 (p_td p)" "length [a, b, c] = 3" "\<forall>x \<in> set [T, a, b, c]. ptr x = x"
    using assms(10,13) by simp_all
  obtain t q where t: "td_submit_urb K u s = Some (3, t)" "same_frame u s (t\<lparr>io := io s\<rparr>)"
    "hcpriv (urbs t u) = Some (p\<lparr>td_cnt := 0, p_td := q\<rparr>)"
    "\<forall>i < 3. tds t ([T, a, b, c] ! i) = job_td K (iso_ed K (eds s (p_ed p))) (p_ed p) u i (js ! i) ([a, b, c] ! i)"
    "\<forall>x. x \<notin> set (take 3 [T, a, b, c]) \<longrightarrow> td_urb (tds t x) = td_urb (tds s x)"
    by (rule td_submit_run[OF assms(1,2) pipe js_def, unfolded l, OF less_imp_le[OF n] ns(1,2) assms(11,12) ns(3)])
  have d: "td_urb (tds t x) = u \<and> tINFO (tds t x) AND TD_ISO = 0" if "x \<in> {T, a, b}" for x
    using that t(4)[rule_format, of 0] t(4)[rule_format, of 1] t(4)[rule_format, of 2] cj(3) by (auto simp: js_def)
  have "td_urb (tds t x) \<noteq> u" if "x \<notin> {T, a, b}" for x
    using t(5)[rule_format, of x] assms(14)[rule_format, of x] that by simp
  then have own: "{x. td_urb (tds t x) = u} = {T, a, b}" using d by blast
  have wait: "ready K t u \<and> missing t u = unat (p_length p)"
  proof -
    have "(urbs t u)\<lparr>hcpriv := None\<rparr> = ?w\<lparr>hcpriv := None\<rparr>" using t(2) by (simp add: same_frame_def)
    from arg_cong[OF this, of urb_complete] arg_cong[OF this, of urb_pipe]
    have "urb_complete (urbs t u) = urb_complete ?w" "urb_pipe (urbs t u) = urb_pipe ?w" by simp_all
    then show ?thesis using assms(3-5) t(3) n by (simp add: ready_def missing_def)
  qed
  have step: "\<exists>f t' r. dl_reverse_done_list h = Some (f, t') \<and> dl_done_list K f t' = Some r \<and> obs r = obs h \<and>
      ready K r u \<and> missing r u = unat (p_length p) - (k + length xs)"
    if h: "done_ok t {T, a, b} h xs" "ready K h u" "missing h u = unat (p_length p) - k" "k + length xs \<le> 3" for h xs k
  proof -
    have "\<forall>x \<in> {T, a, b}. td_urb (tds t x) = u \<and> tINFO (tds t x) AND TD_ISO = 0" using d by blast
    moreover have "length xs < missing h u" using h(3,4) n by linarith
    ultimately show ?thesis by (rule too_few_done[OF h(1) _ h(2) _ assms(7,6)]) (use h(3) in auto)
  qed
  show ?thesis
    by (rule exI[of _ t], intro conjI allI impI; (elim conjE)?)
      (rule t(1) own wait[THEN conjunct1] wait[THEN conjunct2] n step; assumption)+
qed

text \<open>10000 bytes over a control pipe.\<close>

definition ctrl_urb :: hurb where
  "ctrl_urb = bulk_urb\<lparr>urb_pipe := 0x80000000, hcpriv := map_option (\<lambda>p. p\<lparr>p_length := 5, p_td := [0x110, 0x120, 0x130, 0x140, 0x150]\<rparr>)
     (hcpriv bulk_urb)\<rparr>"

definition ctrl_hcd :: hcd where
  "ctrl_hcd = bulk_hcd\<lparr>urbs := (\<lambda>_. ctrl_urb)\<rparr>"

theorem control_urb_never_done_witness:
  "\<exists>t. td_submit_urb ps2_henv 1 ctrl_hcd = Some (3, t) \<and> {x. td_urb (tds t x) = 1} = {0x100, 0x110, 0x120} \<and>
     missing t 1 = 5"
proof -
  let ?p = "the (hcpriv ctrl_urb)"
  have w: "urbs ctrl_hcd 1 = ctrl_urb" by (simp add: ctrl_hcd_def)
  have p: "hcpriv ctrl_urb = Some ?p" "p_ed ?p = 0x10" "p_length ?p = 5" "take 3 (p_td ?p) = [0x110, 0x120, 0x130]"
    "p_state ?p \<noteq> URB_DEL" "urb_complete ctrl_urb" "urb_dev ctrl_urb = Some \<lparr>devnum = 2, dev_bus = True\<rparr>"
    "sint (urb_transfer_buffer_length ctrl_urb) = 10000"
    by (simp_all add: ctrl_urb_def bulk_urb_def urb.defs stage_urb_def)
  have e: "hwTailP (eds ctrl_hcd (p_ed ?p)) = 0x100" "td_urb (tds ctrl_hcd x) \<noteq> 1" for x
    by (simp_all add: p(2) ctrl_hcd_def bulk_hcd_def ohci_ed.defs td0_def)
  have pipe: "usb_pipetype ps2_henv (urb_pipe ctrl_urb) = macro ps2_henv PIPE_CONTROL"
    by (simp add: bulk_fields ctrl_urb_def linux_env_def)
  have k: "pipes_distinct ps2_henv" "quiet ps2_henv" by (rule ps2_quiet)+
  have "urb_size ps2_henv ctrl_urb = 5"
    using control_jobs(2)[OF pipe k(1)] by (simp add: p(8))
  then have n: "int (unat (p_length ?p)) = urb_size ps2_henv (urbs ctrl_hcd 1)" by (simp add: p(3) w)
  have h: "hcpriv (urbs ctrl_hcd 1) = Some ?p" "urb_dev (urbs ctrl_hcd 1) = Some \<lparr>devnum = 2, dev_bus = True\<rparr>"
    "urb_complete (urbs ctrl_hcd 1)" "usb_pipetype ps2_henv (urb_pipe (urbs ctrl_hcd 1)) = macro ps2_henv PIPE_CONTROL"
    "4096 < sint (urb_transfer_buffer_length (urbs ctrl_hcd 1))"
    unfolding w using p(1,6,7,8) pipe by simp_all
  have a: "distinct [0x100, 0x110, 0x120, 0x130 :: desc]" "\<forall>x \<in> {0x100, 0x110, 0x120, 0x130 :: desc}. ptr x = x"
    "\<forall>x. td_urb (tds ctrl_hcd x) \<noteq> 1" using e(2) by (simp_all add: ptr_def)
  have "unat (p_length ?p) = 5" by (simp add: p(3))
  with control_urb_never_done[OF h(1-3) p(5) h(4) k h(5) n p(4) e(1)[symmetric] a] show ?thesis by metis
qed

end
