(* ===== verification/Del_List.thy ===== *)
theory Del_List
  imports Done_List
begin

text \<open>
  Deleting the descriptors of unlinked URBs (\<open>dl_del_list\<close>): on the queue of an endpoint this is a
  \<open>filter\<close>, by in-place changes of the head pointer and the next pointers.
\<close>

section \<open>One descriptor\<close>

text \<open>The URB of a descriptor is being unlinked; what its owner is told.\<close>

definition unlinked :: "hcd \<Rightarrow> addr \<Rightarrow> bool" where
  "unlinked s u \<longleftrightarrow> (\<exists>p. hcpriv (urbs s u) = Some p \<and> p_state p = URB_DEL)"

definition told :: "henv \<Rightarrow> hcd \<Rightarrow> addr \<Rightarrow> io_event" where
  "told K s u = (if urb_transfer_flags (urbs s u) AND usb_async_unlink K \<noteq> 0 then Complete u else Wake_up)"

text \<open>What the deletion leaves alone, besides the pointers it goes through.\<close>

definition same_rest :: "hcd \<Rightarrow> hcd \<Rightarrow> bool" where
  "same_rest s t \<longleftrightarrow> ed_lock t = ed_lock s \<and> ed_rm_list t = ed_rm_list s \<and> hc_control t = hc_control s \<and>
     (\<forall>x. (tds t x)\<lparr>hwNextTD := 0\<rparr> = (tds s x)\<lparr>hwNextTD := 0\<rparr>) \<and>
     (\<forall>e. (eds t e)\<lparr>hwHeadP := 0\<rparr> = (eds s e)\<lparr>hwHeadP := 0\<rparr>)"

lemma same_rest_trans: "same_rest s t \<Longrightarrow> same_rest t r \<Longrightarrow> same_rest s r"
  by (simp add: same_rest_def)

lemma same_rest_refl [simp]: "same_rest s s"
  by (simp add: same_rest_def)

lemma same_rest_fields:
  assumes "same_rest s t"
  shows "td_urb (tds t x) = td_urb (tds s x)" "tINFO (tds t x) = tINFO (tds s x)" "state (eds t e) = state (eds s e)"
    "ed_lock t = ed_lock s" "ed_rm_list t = ed_rm_list s" "hc_control t = hc_control s"
proof -
  have "td_urb (tds t x) = td_urb ((tds t x)\<lparr>hwNextTD := 0\<rparr>)" "tINFO (tds t x) = tINFO ((tds t x)\<lparr>hwNextTD := 0\<rparr>)"
    "state (eds t e) = state ((eds t e)\<lparr>hwHeadP := 0\<rparr>)" by simp_all
  then show "td_urb (tds t x) = td_urb (tds s x)" "tINFO (tds t x) = tINFO (tds s x)" "state (eds t e) = state (eds s e)"
    "ed_lock t = ed_lock s" "ed_rm_list t = ed_rm_list s" "hc_control t = hc_control s"
    using assms by (simp_all only: same_rest_def) simp_all
qed

text \<open>One cell is changed.\<close>

definition same_but :: "td_ptr \<Rightarrow> hcd \<Rightarrow> hcd \<Rightarrow> bool" where
  "same_but p s t \<longleftrightarrow> (\<forall>q. q \<noteq> p \<longrightarrow> read_tdp q t = read_tdp q s)"

lemma ptr_low [simp]: "ptr (a OR (b AND 3)) = ptr a"
  by (simp add: ptr_def bit.conj_disj_distrib2 and.assoc)

lemma low_bits: "a AND 0x3 = 0 \<Longrightarrow> (a OR (b AND 0x3)) AND 0x3 = (b :: u32) AND 0x3"
  by (simp add: bit.conj_disj_distrib2 and.assoc)

lemma write_tdp_read [simp]:
  "read_tdp p (write_tdp p v s) = v" "urbs (write_tdp p v s) = urbs s" "io (write_tdp p v s) = io s"
  by (cases p; simp add: upd_ed_def upd_td_def)+

lemma write_tdp_same: "same_but p s (write_tdp p v s)" "same_rest s (write_tdp p v s)"
proof -
  show "same_rest s (write_tdp p v s)" by (cases p) (auto simp: same_rest_def upd_ed_def upd_td_def)
  have "read_tdp q (write_tdp p v s) = read_tdp q s" if "q \<noteq> p" for q
    using that by (cases p; cases q) (auto simp: upd_ed_def upd_td_def)
  then show "same_but p s (write_tdp p v s)" by (simp add: same_but_def)
qed

text \<open>The steps after the pointer has been changed only concern the URB, the memory and the trace.\<close>

definition core :: "hcd \<Rightarrow> hcd \<Rightarrow> bool" where
  "core s t \<longleftrightarrow> tds t = tds s \<and> eds t = eds s \<and> ed_lock t = ed_lock s \<and> ed_rm_list t = ed_rm_list s \<and> hc_control t = hc_control s"

lemma core_trans: "core s t \<Longrightarrow> core t r \<Longrightarrow> core s r"
  by (simp add: core_def)

lemma core_simps [simp]:
  "core s s" "core s (upd_urb u f s)" "core s (upd_priv u g s)" "core s (s\<lparr>hcd_dma := d\<rparr>)" "core s (event e s)" "core s (dev_use_add n u s)"
  by (auto simp: core_def upd_urb_def upd_priv_def event_def dev_use_add_def split: option.splits)

lemma core_read: "core s t \<Longrightarrow> read_tdp q t = read_tdp q s"
  by (cases q) (simp_all add: core_def)

lemma same_core:
  assumes "core s t"
  shows "same_but p r t = same_but p r s" "same_rest r t = same_rest r s"
  using assms by (auto simp: same_but_def core_read[OF assms] same_rest_def core_def)

lemma rm_priv_core:
  assumes "hcpriv (urbs s u) = Some p"
  shows "core s (urb_rm_priv K u s)" "urbs (urb_rm_priv K u s) = (urbs s)(u := (urbs s u)\<lparr>hcpriv := None\<rparr>)"
    "io (urb_rm_priv K u s) = io s"
proof -
  obtain d where d: "urb_rm_priv K u s = upd_urb u (hcpriv_update (\<lambda>_. None)) (s\<lparr>hcd_dma := d\<rparr>)"
    using urb_rm_priv_run[OF assms] by blast
  show "core s (urb_rm_priv K u s)" unfolding d by (rule core_trans[OF core_simps(4) core_simps(2)])
  show "urbs (urb_rm_priv K u s) = (urbs s)(u := (urbs s u)\<lparr>hcpriv := None\<rparr>)" "io (urb_rm_priv K u s) = io s"
    by (simp_all add: d upd_urb_def)
qed

lemma tell_core:
  assumes "quiet K" "t = (if urb_transfer_flags (urbs s u) AND usb_async_unlink K \<noteq> 0
      then call_complete K u (upd_urb u (urb_status_update (\<lambda>_. ECONNRESET)) (usb_dec_dev_use u s))
      else event Wake_up s)"
  shows "core s t" "io t = io s @ [told K s u]" "v \<noteq> u \<Longrightarrow> urbs t v = urbs s v" "hcpriv (urbs t u) = hcpriv (urbs s u)"
    "urb_transfer_flags (urbs t u) = urb_transfer_flags (urbs s u)"
proof -
  define r where "r = upd_urb u (urb_status_update (\<lambda>_. ECONNRESET)) (usb_dec_dev_use u s)"
  obtain d where d: "on_complete K u (event (Complete u) r) = (event (Complete u) r)\<lparr>hcd_dma := d\<rparr>"
    using assms(1) unfolding quiet_def by blast
  have c: "core s r" unfolding r_def by (rule core_trans[OF core_simps(6) core_simps(2)])
  have i: "io r = io s" "urbs r = (urbs s)(u := (urbs s u)\<lparr>urb_status := ECONNRESET\<rparr>)"
    by (auto simp: r_def upd_urb_def dev_use_add_def split: option.splits)
  have t: "t = (if urb_transfer_flags (urbs s u) AND usb_async_unlink K \<noteq> 0 then (event (Complete u) r)\<lparr>hcd_dma := d\<rparr> else event Wake_up s)"
    using assms(2) by (simp add: r_def[symmetric] call_complete_def d)
  show "core s t" using core_trans[OF core_trans[OF c core_simps(5)] core_simps(4)] by (simp add: t)
  show "io t = io s @ [told K s u]" "v \<noteq> u \<Longrightarrow> urbs t v = urbs s v" "hcpriv (urbs t u) = hcpriv (urbs s u)"
    "urb_transfer_flags (urbs t u) = urb_transfer_flags (urbs s u)"
    using i by (simp_all add: t told_def event_def)
qed

lemma del_td_run:
  assumes p: "hcpriv (urbs s u) = Some p" "p_state p = URB_DEL" "unat (td_cnt p) < unat (p_length p)"
    and u: "u = td_urb (tds s x)" and i: "tINFO (tds s x) AND TD_ISO = 0" and k: "quiet K"
  obtains t where "del_td K x tdp s = Some t" "same_but tdp s t" "same_rest s t"
    "read_tdp tdp t = hwNextTD (tds s x) OR (read_tdp tdp s AND 0x3)"
    "\<forall>v. v \<noteq> u \<longrightarrow> urbs t v = urbs s v" "urb_transfer_flags (urbs t u) = urb_transfer_flags (urbs s u)"
    "missing t u = missing s u - 1" "missing s u \<noteq> 1 \<longrightarrow> unlinked t u"
    "io t = io s @ [told K s u]"
proof -
  obtain f where f: "dl_transfer_length K x s = Some (upd_urb u (urb_actual_length_update f) s)"
    using dl_transfer_length_run[OF i, of p K] p(1) u by blast
  obtain g where g: "(if TD_CC_GET (tINFO (tds s x)) < 0xE then dl_transfer_length K x s else Some s)
      = Some (upd_urb u (urb_actual_length_update g) s)"
  proof (cases "TD_CC_GET (tINFO (tds s x)) < 0xE")
    case False
    have "upd_urb u (urb_actual_length_update (\<lambda>x. x)) s = s" by (cases "urbs s u") (simp add: upd_urb_def fun_upd_idem)
    then show thesis using that[of "\<lambda>x. x"] False by simp
  qed (use that f in simp)
  define s1 where "s1 = upd_urb u (urb_actual_length_update g) s"
  define s2 where "s2 = write_tdp tdp (hwNextTD (tds s1 x) OR (read_tdp tdp s1 AND 0x3)) s1"
  define s3 where "s3 = upd_priv u (td_cnt_update (\<lambda>c. c + 1)) s2"
  have rd: "read_tdp q s1 = read_tdp q s" for q by (cases q) (simp_all add: s1_def upd_urb_def)
  have u3: "urbs s3 u = (urb_actual_length_update g (urbs s u))\<lparr>hcpriv := Some (p\<lparr>td_cnt := td_cnt p + 1\<rparr>)\<rparr>"
    "\<And>v. v \<noteq> u \<Longrightarrow> urbs s3 v = urbs s v"
    by (simp_all add: s3_def s2_def s1_def upd_priv_def upd_urb_def p(1))
  have c3: "core s2 s3" by (simp add: s3_def)
  define s4 where "s4 = (if td_cnt p + 1 = p_length p then urb_rm_priv K u s3 else s3)"
  define t where "t = (if urb_transfer_flags (urbs s4 u) AND usb_async_unlink K \<noteq> 0
      then call_complete K u (upd_urb u (urb_status_update (\<lambda>_. ECONNRESET)) (usb_dec_dev_use u s4))
      else event Wake_up s4)"
  note h3 = arg_cong[OF u3(1), of hcpriv, simplified]
  have s4: "core s3 s4" "io s4 = io s3" "\<And>v. v \<noteq> u \<Longrightarrow> urbs s4 v = urbs s3 v"
    "hcpriv (urbs s4 u) = (if td_cnt p + 1 = p_length p then None else Some (p\<lparr>td_cnt := td_cnt p + 1\<rparr>))"
    "urb_transfer_flags (urbs s4 u) = urb_transfer_flags (urbs s u)"
    using rm_priv_core[OF h3] u3(1) by (auto simp: s4_def)
  have t: "core s4 t" "io t = io s4 @ [told K s4 u]" "\<And>v. v \<noteq> u \<Longrightarrow> urbs t v = urbs s4 v" "hcpriv (urbs t u) = hcpriv (urbs s4 u)"
    "urb_transfer_flags (urbs t u) = urb_transfer_flags (urbs s4 u)"
    using tell_core[OF k t_def] by auto
  have c: "core s2 t" using core_trans[OF core_trans[OF c3 s4(1)] t(1)] .
  have cnt: "unat (td_cnt p + 1) = Suc (unat (td_cnt p))" using p(3) by (rule count_up)
  have m: "missing s u = unat (p_length p) - unat (td_cnt p)" by (simp add: missing_def p(1))
  have eq: "td_cnt p + 1 = p_length p \<longleftrightarrow> missing s u = 1"
    using cnt p(3) unfolding m word_unat_eq_iff by auto
  show thesis
  proof (rule that)
    show "del_td K x tdp s = Some t"
      using h3 unfolding del_td_def Let_def u[symmetric] g bind.simps s1_def[symmetric] s2_def[symmetric] s3_def[symmetric]
      by (simp add: s4_def[symmetric]) (simp add: t_def)
    show "same_but tdp s t" "same_rest s t"
      unfolding same_core[OF c] s2_def using write_tdp_same[where p = tdp and s = s1 and v = "hwNextTD (tds s1 x) OR (read_tdp tdp s1 AND 3)"] rd
      by (auto simp: same_but_def same_rest_def s1_def upd_urb_def)
    show "read_tdp tdp t = hwNextTD (tds s x) OR (read_tdp tdp s AND 0x3)"
      unfolding core_read[OF c] s2_def write_tdp_read rd by (simp add: s1_def upd_urb_def)
    show "\<forall>v. v \<noteq> u \<longrightarrow> urbs t v = urbs s v" using t(3) s4(3) u3(2) by simp
    show "urb_transfer_flags (urbs t u) = urb_transfer_flags (urbs s u)" using t(5) s4(5) by simp
    show "missing t u = missing s u - 1" using cnt p(1) s4(4) t(4) eq by (auto simp: missing_def)
    show "missing s u \<noteq> 1 \<longrightarrow> unlinked t u" using p(2) s4(4) t(4) eq by (simp add: unlinked_def)
    have "io s3 = io s" by (simp add: s3_def s2_def s1_def upd_priv_def upd_urb_def)
    then show "io t = io s @ [told K s u]" using t(2) s4(2,5) by (simp add: told_def)
  qed
qed

section \<open>A queue\<close>

text \<open>What is known of an URB of the queue: it has a private part; if it is being unlinked, it misses
  at least the descriptors \<open>us\<close> that are still there.\<close>

definition queued :: "hcd \<Rightarrow> addr list \<Rightarrow> bool" where
  "queued s us \<longleftrightarrow> (\<forall>u \<in> set us. hcpriv (urbs s u) \<noteq> None \<and> (unlinked s u \<longrightarrow> count_list us u \<le> missing s u))"

lemma unlinkedE:
  assumes "unlinked s u" "0 < missing s u"
  obtains p where "hcpriv (urbs s u) = Some p" "p_state p = URB_DEL" "unat (td_cnt p) < unat (p_length p)"
  using assms by (auto simp: unlinked_def missing_def)

lemma queued_tail: "queued s (u # us) \<Longrightarrow> \<not> unlinked s u \<Longrightarrow> queued s us"
  unfolding queued_def
proof (intro ballI)
  fix v assume a: "\<forall>v \<in> set (u # us). hcpriv (urbs s v) \<noteq> None \<and> (unlinked s v \<longrightarrow> count_list (u # us) v \<le> missing s v)"
    and n: "\<not> unlinked s u" and v: "v \<in> set us"
  then show "hcpriv (urbs s v) \<noteq> None \<and> (unlinked s v \<longrightarrow> count_list us v \<le> missing s v)"
    by (cases "v = u") auto
qed

lemma tdq_next: "(\<And>x. x \<in> set xs \<Longrightarrow> hwNextTD (f x) = hwNextTD (g x)) \<Longrightarrow> tdq f h xs t = tdq g h xs t"
  by (induction xs arbitrary: h) auto

text \<open>What the loop over a queue asks for: the descriptors \<open>xs\<close> between \<open>tdp\<close> and \<open>T\<close>.\<close>

definition deletable :: "td_ptr \<Rightarrow> desc list \<Rightarrow> desc \<Rightarrow> hcd \<Rightarrow> bool" where
  "deletable tdp xs T s \<longleftrightarrow> tdq (tds s) (ptr (read_tdp tdp s)) xs T \<and> distinct xs \<and> T \<notin> set xs \<and> (\<forall>x \<in> set xs. tdp \<noteq> After x) \<and>
     (\<forall>x \<in> set xs. hwNextTD (tds s x) AND 0x3 = 0 \<and> tINFO (tds s x) AND TD_ISO = 0) \<and>
     queued s (map (\<lambda>x. td_urb (tds s x)) xs)"

text \<open>And what it leaves.\<close>

definition deleted :: "henv \<Rightarrow> td_ptr \<Rightarrow> desc list \<Rightarrow> desc \<Rightarrow> hcd \<Rightarrow> hcd \<Rightarrow> bool" where
  "deleted K tdp xs T s t \<longleftrightarrow> same_rest s t \<and>
     tdq (tds t) (ptr (read_tdp tdp t)) (filter (\<lambda>x. \<not> unlinked s (td_urb (tds s x))) xs) T \<and>
     read_tdp tdp t AND 0x3 = read_tdp tdp s AND 0x3 \<and>
     (\<forall>q. q \<noteq> tdp \<and> q \<notin> After ` set xs \<longrightarrow> read_tdp q t = read_tdp q s) \<and>
     (\<forall>u. u \<notin> (\<lambda>x. td_urb (tds s x)) ` set xs \<or> \<not> unlinked s u \<longrightarrow> urbs t u = urbs s u) \<and>
     io t = io s @ map (told K s) (filter (unlinked s) (map (\<lambda>x. td_urb (tds s x)) xs))"

text \<open>A descriptor that stays.\<close>

lemma deletable_keep:
  assumes "deletable tdp (x # xs) T s" "\<not> unlinked s (td_urb (tds s x))"
  shows "deletable (After x) xs T s" "deleted K (After x) xs T s t \<Longrightarrow> deleted K tdp (x # xs) T s t"
proof -
  note d = assms(1)[unfolded deletable_def]
  have "queued s (map (\<lambda>x. td_urb (tds s x)) xs)" using d assms(2) by (auto intro: queued_tail)
  then show "deletable (After x) xs T s" using d by (auto simp: deletable_def)
  show "deleted K tdp (x # xs) T s t" if del: "deleted K (After x) xs T s t"
  proof -
    have "read_tdp tdp t = read_tdp tdp s" using del d by (auto simp: deleted_def)
    then show ?thesis using del d assms(2) by (auto simp: deleted_def)
  qed
qed

text \<open>A descriptor that goes: \<open>r\<close> is the state after its deletion.\<close>

definition dropped :: "henv \<Rightarrow> td_ptr \<Rightarrow> desc \<Rightarrow> hcd \<Rightarrow> hcd \<Rightarrow> bool" where
  "dropped K tdp x s r \<longleftrightarrow> same_but tdp s r \<and> same_rest s r \<and> read_tdp tdp r = hwNextTD (tds s x) OR (read_tdp tdp s AND 0x3) \<and>
     (let u = td_urb (tds s x) in (\<forall>v. v \<noteq> u \<longrightarrow> urbs r v = urbs s v) \<and> urb_transfer_flags (urbs r u) = urb_transfer_flags (urbs s u) \<and>
       missing r u = missing s u - 1 \<and> (missing s u \<noteq> 1 \<longrightarrow> unlinked r u) \<and> io r = io s @ [told K s u])"

lemma dropped_fields:
  assumes "dropped K tdp x s r" "unlinked s (td_urb (tds s x))" "queued s (map (\<lambda>x. td_urb (tds s x)) (x # xs))"
  shows "td_urb (tds r y) = td_urb (tds s y)" "tINFO (tds r y) = tINFO (tds s y)"
    "tdp \<noteq> After y \<Longrightarrow> hwNextTD (tds r y) = hwNextTD (tds s y)" "told K r v = told K s v"
    "v \<in> set (map (\<lambda>x. td_urb (tds s x)) xs) \<Longrightarrow> unlinked r v = unlinked s v" "queued r (map (\<lambda>x. td_urb (tds s x)) xs)"
proof -
  let ?u = "td_urb (tds s x)" and ?us = "map (\<lambda>x. td_urb (tds s x)) xs"
  have r: "same_rest s r" "\<And>v. v \<noteq> ?u \<Longrightarrow> urbs r v = urbs s v" "urb_transfer_flags (urbs r ?u) = urb_transfer_flags (urbs s ?u)"
    "missing r ?u = missing s ?u - 1" "missing s ?u \<noteq> 1 \<longrightarrow> unlinked r ?u"
    using assms(1) by (simp_all add: dropped_def Let_def)
  show "td_urb (tds r y) = td_urb (tds s y)" "tINFO (tds r y) = tINFO (tds s y)" using same_rest_fields[OF r(1)] by auto
  show "hwNextTD (tds r y) = hwNextTD (tds s y)" if "tdp \<noteq> After y"
    using assms(1) that by (metis read_tdp.simps(2) same_but_def dropped_def)
  show "told K r v = told K s v" using r(2,3) by (cases "v = ?u") (auto simp: told_def)
  have m: "count_list (?u # ?us) ?u \<le> missing s ?u" using assms(2,3) by (simp add: queued_def)
  have more: "missing s ?u \<noteq> 1" if "?u \<in> set ?us"
  proof -
    have "count_list ?us ?u \<noteq> 0" using that by (simp add: count_list_0_iff)
    then show ?thesis using m by simp
  qed
  show "unlinked r v = unlinked s v" if "v \<in> set ?us"
    using that more r(2,5) assms(2) by (cases "v = ?u") (auto simp: unlinked_def)
  show "queued r ?us"
    unfolding queued_def
  proof (intro ballI)
    fix v assume v: "v \<in> set ?us"
    show "hcpriv (urbs r v) \<noteq> None \<and> (unlinked r v \<longrightarrow> count_list ?us v \<le> missing r v)"
    proof (cases "v = ?u")
      case True
      then show ?thesis using r(4,5) more v m by (auto simp: unlinked_def)
    next
      case False
      then have "missing r v = missing s v" "unlinked r v = unlinked s v" "hcpriv (urbs r v) = hcpriv (urbs s v)"
        using r(2) by (auto simp: missing_def unlinked_def)
      then show ?thesis using assms(3) False v by (auto simp: queued_def)
    qed
  qed
qed

lemma deletable_drop:
  assumes "deletable tdp (x # xs) T s" "unlinked s (td_urb (tds s x))" "dropped K tdp x s r"
  shows "deletable tdp xs T r" "deleted K tdp xs T r t \<Longrightarrow> deleted K tdp (x # xs) T s t"
proof -
  let ?u = "td_urb (tds s x)" and ?us = "map (\<lambda>x. td_urb (tds s x)) xs"
  note d = assms(1)[unfolded deletable_def] and f = dropped_fields[OF assms(3,2)]
  have qd: "queued s (map (\<lambda>x. td_urb (tds s x)) (x # xs))" using d by simp
  note un = f(5)[OF qd] and r = assms(3)[unfolded dropped_def Let_def]
  have nx: "hwNextTD (tds r y) = hwNextTD (tds s y)" if "y \<in> set xs" for y using f(3)[OF qd] d that by simp
  have rd: "ptr (read_tdp tdp r) = ptr (hwNextTD (tds s x))" using r by simp
  have "tdq (tds r) (ptr (hwNextTD (tds s x))) xs T" using d nx by (simp cong: tdq_next)
  then show "deletable tdp xs T r" unfolding deletable_def rd using d nx f(1,2,6)[OF qd] by simp
  show "deleted K tdp (x # xs) T s t" if del: "deleted K tdp xs T r t"
  proof -
    note t = del[unfolded deleted_def f(1)[OF qd]]
    have f1: "filter (\<lambda>x. \<not> unlinked r (td_urb (tds s x))) xs = filter (\<lambda>x. \<not> unlinked s (td_urb (tds s x))) xs"
      by (rule filter_cong) (use un in auto)
    have f2: "filter (unlinked r) ?us = filter (unlinked s) ?us" by (rule filter_cong) (use un in auto)
    have "urbs t v = urbs s v" if "v \<notin> insert ?u (set ?us) \<or> \<not> unlinked s v" for v
    proof -
      have "v \<noteq> ?u" "v \<notin> set ?us \<or> \<not> unlinked r v" using that assms(2) un by auto
      then show ?thesis using t r by auto
    qed
    moreover have "read_tdp tdp t AND 0x3 = read_tdp tdp s AND 0x3" using t low_bits d r by simp
    moreover have "\<forall>q. q \<noteq> tdp \<and> q \<notin> After ` set (x # xs) \<longrightarrow> read_tdp q t = read_tdp q s" using t r by (auto simp: same_but_def)
    moreover have "io t = io s @ map (told K s) (filter (unlinked s) (?u # ?us))" using t r assms(2) by (simp add: f2 f(4)[OF qd])
    ultimately show ?thesis using t f1 r assms(2) same_rest_trans by (auto simp: deleted_def)
  qed
qed

lemma del_tds_run:
  assumes "deletable tdp xs T s" "state (eds s e) AND ED_DEL = 0" "quiet K"
  shows "\<exists>t. del_tds K e T (ptr (read_tdp tdp s)) tdp s = Some t \<and> deleted K tdp xs T s t"
  using assms
proof (induction xs arbitrary: tdp s)
  case Nil
  then show ?case by (subst del_tds.simps) (auto simp: deletable_def deleted_def)
next
  case (Cons x xs)
  let ?u = "td_urb (tds s x)"
  note d = Cons.prems(1)[unfolded deletable_def]
  have h: "ptr (read_tdp tdp s) = x" "x \<noteq> T" using d by auto
  obtain p where p: "hcpriv (urbs s ?u) = Some p" using d by (auto simp: queued_def)
  show ?case
  proof (cases "unlinked s ?u")
    case False
    then have "del_tds K e T (ptr (read_tdp tdp s)) tdp s = del_tds K e T (ptr (read_tdp (After x) s)) (After x) s"
      using h p Cons.prems(2) by (subst del_tds.simps) (simp add: unlinked_def Let_def)
    then show ?thesis
      using Cons.IH[OF deletable_keep(1)[OF Cons.prems(1) False] Cons.prems(2,3)] deletable_keep(2)[OF Cons.prems(1) False] by auto
  next
    case True
    have "count_list (map (\<lambda>x. td_urb (tds s x)) (x # xs)) ?u \<le> missing s ?u" using d True by (simp add: queued_def)
    then obtain p where p: "hcpriv (urbs s ?u) = Some p" "p_state p = URB_DEL" "unat (td_cnt p) < unat (p_length p)"
      using unlinkedE[OF True] by auto
    obtain r where r: "del_td K x tdp s = Some r" "dropped K tdp x s r"
      using del_td_run[OF p refl _ Cons.prems(3), of tdp thesis] d by (auto simp: dropped_def Let_def)
    have "ptr (read_tdp tdp r) = ptr (hwNextTD (tds s x))" using r(2) by (simp add: dropped_def)
    then have "del_tds K e T (ptr (read_tdp tdp s)) tdp s = del_tds K e T (ptr (read_tdp tdp r)) tdp r"
      using h p r(1) by (subst del_tds.simps) (simp add: Let_def)
    moreover have "state (eds r e) AND ED_DEL = 0" using r(2) Cons.prems(2) same_rest_fields(3)[of s r e] by (simp add: dropped_def)
    ultimately show ?thesis
      using Cons.IH[OF deletable_drop(1)[OF Cons.prems(1) True r(2)] _ Cons.prems(3)] deletable_drop(2)[OF Cons.prems(1) True r(2)] by auto
  qed
qed

section \<open>An endpoint\<close>

lemma del_eds_one:
  assumes "e \<noteq> 0" "rm_next (eds s1 e) = 0" "state (eds s1 e) AND ED_DEL = 0"
    "del_tds K e (ptr (hwTailP (eds s e))) (ptr (hwHeadP (eds s e))) (Head e) s = Some s1"
  shows "del_eds K e False False s =
    Some ((ed_type (eds s1 e) AND 3 = CTRL, ed_type (eds s1 e) AND 3 = BULK),
      upd_ed e (\<lambda>d. d\<lparr>state := state d AND NOT ED_URB_DEL, hwINFO := hwINFO d AND NOT OHCI_ED_SKIP\<rparr>) s1)"
proof -
  have "del_ed K (hwINFO (eds s e)) (ptr (hwTailP (eds s e))) e s1 =
      upd_ed e (\<lambda>d. d\<lparr>state := state d AND NOT ED_URB_DEL, hwINFO := hwINFO d AND NOT OHCI_ED_SKIP\<rparr>) s1"
    using assms(3) by (simp add: del_ed_def)
  then show ?thesis using assms by (subst del_eds.simps) (simp add: Let_def del_eds.simps upd_ed_def)
qed

text \<open>The end of \<open>dl_del_list\<close>: the lists that were stopped start again.\<close>

definition resume :: "bool \<Rightarrow> bool \<Rightarrow> nat \<Rightarrow> hcd \<Rightarrow> hcd" where
  "resume c b i r = (let s1 = (if c then writel 0 Ed_controlcurrent r else r);
             s2 = (if b then writel 0 Ed_bulkcurrent s1 else s1) in
        if ed_rm_list s2 ! (1 - i) = 0
        then let c = hc_control s2 OR OHCI_CTRL_CLE OR OHCI_CTRL_BLE in writel c Control (s2\<lparr>hc_control := c\<rparr>)
        else s2)"

lemma resume_run:
  "(\<exists>ws. io (resume c b i r) = io r @ map (\<lambda>(v, r). Wr r v) ws) \<and> tds (resume c b i r) = tds r \<and> eds (resume c b i r) = eds r \<and>
     urbs (resume c b i r) = urbs r \<and> ed_rm_list (resume c b i r) = ed_rm_list r"
proof -
  define c3 where "c3 = hc_control r OR OHCI_CTRL_CLE OR OHCI_CTRL_BLE"
  have "io (resume c b i r) = io r @ map (\<lambda>(v, r). Wr r v) ((if c then [(0, Ed_controlcurrent)] else []) @
        (if b then [(0, Ed_bulkcurrent)] else []) @ (if ed_rm_list r ! (1 - i) = 0 then [(c3, Control)] else []))"
    by (simp add: resume_def Let_def writel_def c3_def)
  then show ?thesis by (intro conjI exI) (assumption, simp_all add: resume_def Let_def writel_def)
qed

text \<open>C7. When the frame has come to take the descriptors of unlinked URBs off an endpoint,
  \<open>dl_del_list\<close> returns and has filtered its queue: exactly the descriptors of unlinked URBs are gone,
  the others are still there in their order, the bits for toggle and halt of the head pointer are
  kept, no other URB has changed, and the endpoint is served again. The owner of an unlinked URB is
  told for each of its descriptors, not once: a waiting process is woken, and an asynchronously
  unlinked URB is completed, as often as the URB had descriptors left.\<close>

theorem dl_del_list_filters:
  assumes "\<not> ed_lock s" "ed_rm_list s = [e, f] \<and> i = 0 \<or> ed_rm_list s = [f, e] \<and> i = 1" "e \<noteq> 0" "rm_next (eds s e) = 0"
    and "state (eds s e) AND ED_DEL = 0" "tdq (tds s) (ptr (hwHeadP (eds s e))) xs (ptr (hwTailP (eds s e)))"
    and "distinct xs" "ptr (hwTailP (eds s e)) \<notin> set xs"
    and "\<forall>x \<in> set xs. hwNextTD (tds s x) AND 0x3 = 0 \<and> tINFO (tds s x) AND TD_ISO = 0"
    and "queued s (map (\<lambda>x. td_urb (tds s x)) xs)" "quiet K"
  shows "\<exists>t ws. dl_del_list K i s = Some t \<and> \<not> ed_lock t \<and> ed_rm_list t ! i = 0 \<and>
    tdq (tds t) (ptr (hwHeadP (eds t e))) (filter (\<lambda>x. \<not> unlinked s (td_urb (tds s x))) xs) (ptr (hwTailP (eds t e))) \<and>
    hwHeadP (eds t e) AND 0x3 = hwHeadP (eds s e) AND 0x3 \<and>
    state (eds t e) AND ED_URB_DEL = 0 \<and> hwINFO (eds t e) AND OHCI_ED_SKIP = 0 \<and>
    (\<forall>u. \<not> unlinked s u \<longrightarrow> urbs t u = urbs s u) \<and>
    io t = io s @ map (told K s) (filter (unlinked s) (map (\<lambda>x. td_urb (tds s x)) xs)) @ map (\<lambda>(v, r). Wr r v) ws"
proof -
  let ?T = "ptr (hwTailP (eds s e))" and ?s = "s\<lparr>ed_lock := True\<rparr>"
  have same: "unlinked ?s = unlinked s" "told K ?s = told K s" "queued ?s us = queued s us" for us
    by (simp_all add: fun_eq_iff unlinked_def told_def queued_def missing_def)
  have "deletable (Head e) xs ?T ?s" using assms(6-10) by (simp add: deletable_def same)
  from del_tds_run[OF this _ assms(11), of e] assms(5)
  obtain r where r: "del_tds K e ?T (ptr (hwHeadP (eds s e))) (Head e) ?s = Some r" "same_rest ?s r"
    "tdq (tds r) (ptr (hwHeadP (eds r e))) (filter (\<lambda>x. \<not> unlinked s (td_urb (tds s x))) xs) ?T"
    "hwHeadP (eds r e) AND 0x3 = hwHeadP (eds s e) AND 0x3" "\<forall>u. \<not> unlinked s u \<longrightarrow> urbs r u = urbs s u"
    "io r = io s @ map (told K s) (filter (unlinked s) (map (\<lambda>x. td_urb (tds s x)) xs))"
    by (auto simp: same deleted_def)
  have ed: "(eds r e)\<lparr>hwHeadP := 0\<rparr> = (eds s e)\<lparr>hwHeadP := 0\<rparr>" using r(2) by (simp add: same_rest_def)
  have eq: "rm_next (eds r e) = rm_next (eds s e)" "state (eds r e) = state (eds s e)" "hwTailP (eds r e) = hwTailP (eds s e)"
    using arg_cong[OF ed, of rm_next] arg_cong[OF ed, of state] arg_cong[OF ed, of hwTailP] by simp_all
  define r1 where "r1 = upd_ed e (\<lambda>d. d\<lparr>state := state d AND NOT ED_URB_DEL, hwINFO := hwINFO d AND NOT OHCI_ED_SKIP\<rparr>) r"
  obtain c b where del: "del_eds K e False False ?s = Some ((c, b), r1)"
    using del_eds_one[of e r K ?s] r(1) assms(3-5) eq by (simp add: r1_def)
  have l: "ed_rm_list r1 = ed_rm_list s" "urbs r1 = urbs r" "io r1 = io r" "tds r1 = tds r"
    using same_rest_fields(5)[OF r(2)] by (simp_all add: r1_def upd_ed_def)
  define r2 where "r2 = resume c b i r1"
  obtain ws where r2: "io r2 = io r @ map (\<lambda>(v, r). Wr r v) ws" "tds r2 = tds r" "eds r2 = eds r1" "urbs r2 = urbs r"
    "ed_rm_list r2 = ed_rm_list s"
    using resume_run[of c b i r1] l by (auto simp: r2_def)
  let ?t = "r2\<lparr>ed_rm_list := (ed_rm_list r2)[i := 0], ed_lock := False\<rparr>"
  have h: "ed_rm_list ?s ! i = e" using assms(2) by auto
  have run: "dl_del_list K i s = Some ?t"
    by (simp only: dl_del_list_def locked_def r2_def resume_def Let_def if_not_P[OF assms(1)] h del Option.bind.simps prod.case option.map snd_conv)
  have e1: "state (eds r1 e) AND ED_URB_DEL = 0" "hwINFO (eds r1 e) AND OHCI_ED_SKIP = 0" "hwHeadP (eds r1 e) = hwHeadP (eds r e)"
    "hwTailP (eds r1 e) = hwTailP (eds s e)"
    using eq(3) by (simp_all add: r1_def upd_ed_def and.assoc)
  show ?thesis
  proof (intro exI[of _ ?t] exI[of _ ws] conjI)
    show "dl_del_list K i s = Some ?t" by (rule run)
    show "ed_rm_list ?t ! i = 0" using assms(2) r2(5) by auto
  qed (use r r2 e1 in simp_all)
qed

text \<open>An endpoint with two descriptors of an URB that is unlinked asynchronously, and one of another.\<close>

definition gone_tds :: "desc \<Rightarrow> td" where
  "gone_tds x = (if x = 0x100 then td0\<lparr>hwNextTD := 0x110, td_urb := 1\<rparr>
     else if x = 0x110 then td0\<lparr>hwNextTD := 0x120, td_urb := 1\<rparr> else td0\<lparr>hwNextTD := 0x130, td_urb := 2\<rparr>)"

definition gone_urbs :: "addr \<Rightarrow> hurb" where
  "gone_urbs u = (if u = 1 then bulk_urb\<lparr>urb_transfer_flags := 8,
       hcpriv := map_option (\<lambda>p. p\<lparr>p_state := URB_DEL, p_length := 2\<rparr>) (hcpriv bulk_urb)\<rparr> else bulk_urb)"

definition gone_hcd :: hcd where
  "gone_hcd = bulk_hcd\<lparr>tds := gone_tds, urbs := gone_urbs, ed_rm_list := [0x10, 0],
     eds := (\<lambda>_. ed0\<lparr>hwHeadP := 0x100, hwTailP := 0x130, state := ED_URB_DEL\<rparr>)\<rparr>"

lemma gone_fields:
  "tds gone_hcd = gone_tds" "urbs gone_hcd = gone_urbs" "ed_rm_list gone_hcd = [0x10, 0]" "\<not> ed_lock gone_hcd"
  "eds gone_hcd e = ed0\<lparr>hwHeadP := 0x100, hwTailP := 0x130, state := ED_URB_DEL\<rparr>"
  by (simp_all add: gone_hcd_def) (simp_all add: bulk_hcd_def ohci_ed.defs idle_hc_def ohci.defs)

lemma gone_urb:
  "unlinked gone_hcd u = (u = 1)" "\<exists>p. hcpriv (gone_urbs u) = Some p" "missing gone_hcd 1 = 2" "told ps2_henv gone_hcd 1 = Complete 1"
proof -
  show "unlinked gone_hcd u = (u = 1)" "\<exists>p. hcpriv (gone_urbs u) = Some p" "missing gone_hcd 1 = 2"
    by (auto simp: unlinked_def missing_def gone_fields gone_urbs_def bulk_urb_def urb.defs)
  show "told ps2_henv gone_hcd 1 = Complete 1"
    by (simp add: told_def gone_fields gone_urbs_def ps2_henv_def penv.defs)
qed

theorem dl_del_list_filters_witness:
  "\<exists>t ws. dl_del_list ps2_henv 0 gone_hcd = Some t \<and> tdq (tds t) (ptr (hwHeadP (eds t 0x10))) [0x120] (ptr (hwTailP (eds t 0x10))) \<and>
     io t = io gone_hcd @ [Complete 1, Complete 1] @ map (\<lambda>(v, r). Wr r v) ws"
proof -
  have "on_complete ps2_henv v s = s\<lparr>hcd_dma := hcd_dma s\<rparr>" for v s
    by (simp add: ps2_henv_def penv.defs)
  then have k: "quiet ps2_henv" unfolding quiet_def by blast
  have "\<exists>t ws. dl_del_list ps2_henv 0 gone_hcd = Some t \<and> \<not> ed_lock t \<and> ed_rm_list t ! 0 = 0 \<and>
    tdq (tds t) (ptr (hwHeadP (eds t 0x10))) (filter (\<lambda>x. \<not> unlinked gone_hcd (td_urb (tds gone_hcd x))) [0x100, 0x110, 0x120])
      (ptr (hwTailP (eds t 0x10))) \<and>
    hwHeadP (eds t 0x10) AND 0x3 = hwHeadP (eds gone_hcd 0x10) AND 0x3 \<and>
    state (eds t 0x10) AND ED_URB_DEL = 0 \<and> hwINFO (eds t 0x10) AND OHCI_ED_SKIP = 0 \<and>
    (\<forall>u. \<not> unlinked gone_hcd u \<longrightarrow> urbs t u = urbs gone_hcd u) \<and>
    io t = io gone_hcd @ map (told ps2_henv gone_hcd) (filter (unlinked gone_hcd) (map (\<lambda>x. td_urb (tds gone_hcd x)) [0x100, 0x110, 0x120])) @
      map (\<lambda>(v, r). Wr r v) ws"
    by (rule dl_del_list_filters[where f = 0]) (use k in
      \<open>simp_all add: gone_fields gone_tds_def td0_def ed0_def ptr_def queued_def gone_urb\<close>)
  then show ?thesis by (simp add: gone_urb gone_fields gone_tds_def td0_def) blast
qed

end
