(* ===== verification/Int_Tree.thy ===== *)
theory Int_Tree
  imports Ed_Chains
begin

text \<open>
  The interrupt table as the controller sees it. The 32 slots are the heads of 32 chains that share
  their tails: a tree. All of it stands for one list of endpoints, sorted by interval, of which
  every slot sees those of its own residue classes; linking an endpoint is insertion into that list.
\<close>

section \<open>Slots in reversed order\<close>

lemma rev_mod:
  assumes "m \<le> 5" "i < 32" "k < 32"
  shows "ep_rev 5 i mod 2 ^ m = ep_rev 5 k mod 2 ^ m \<longleftrightarrow> i div 2 ^ (5 - m) = k div 2 ^ (5 - m)"
proof -
  have hi: "\<not> bit i n" "\<not> bit k n" if "5 \<le> n" for n
    using bit_below[of i 5 n] bit_below[of k 5 n] assms(2,3) that by simp_all
  have lo: "bit (ep_rev 5 x mod 2 ^ m) j \<longleftrightarrow> j < m \<and> bit x (4 - j)" for x j
    using assms(1) by (auto simp: take_bit_eq_mod[symmetric] bit_take_bit_iff bit_ep_rev)
  have up: "bit (x div 2 ^ (5 - m)) j \<longleftrightarrow> bit x (5 - m + j)" for x :: nat and j
    by (simp add: drop_bit_eq_div[symmetric] bit_drop_bit_eq add.commute)
  have "ep_rev 5 i mod 2 ^ m = ep_rev 5 k mod 2 ^ m \<longleftrightarrow> (\<forall>j < m. bit i (4 - j) = bit k (4 - j))"
    by (simp only: bit_eq_iff lo possible_bit_nat) blast
  also have "\<dots> \<longleftrightarrow> (\<forall>n. bit i (5 - m + n) = bit k (5 - m + n))"
  proof
    assume l: "\<forall>j < m. bit i (4 - j) = bit k (4 - j)"
    show "\<forall>n. bit i (5 - m + n) = bit k (5 - m + n)"
    proof
      fix n
      show "bit i (5 - m + n) = bit k (5 - m + n)"
      proof (cases "n < m")
        case True
        then have "4 - (m - 1 - n) = 5 - m + n" using assms(1) by linarith
        moreover have "m - 1 - n < m" using True by simp
        ultimately show ?thesis using l by metis
      qed (use hi in simp)
    qed
  next
    assume r: "\<forall>n. bit i (5 - m + n) = bit k (5 - m + n)"
    show "\<forall>j < m. bit i (4 - j) = bit k (4 - j)"
    proof (intro allI impI)
      fix j assume j: "j < m"
      then have "5 - m + (m - 1 - j) = 4 - j" using assms(1) by linarith
      then show "bit i (4 - j) = bit k (4 - j)" using r by metis
    qed
  qed
  also have "\<dots> \<longleftrightarrow> i div 2 ^ (5 - m) = k div 2 ^ (5 - m)"
    by (simp add: bit_eq_iff up)
  finally show ?thesis .
qed

definition slot :: "nat \<Rightarrow> nat \<Rightarrow> nat" where
  "slot b i = ep_rev 5 i + b"

lemma rev_dvd:
  assumes "m \<le> 5" "i < 2 ^ (5 - m)"
  shows "2 ^ m dvd ep_rev 5 i"
  unfolding dvd_bits using bit_below[OF assms(2)] by (auto simp: bit_ep_rev)

lemma add_low:
  assumes "2 ^ m dvd a" "b < (2::nat) ^ m" "m \<le> n"
  shows "(a + b) mod 2 ^ n = a mod 2 ^ n + b"
proof -
  obtain q where q: "a = 2 ^ m * q" using assms(1) ..
  have n: "(2::nat) ^ n = 2 ^ m * 2 ^ (n - m)" using assms(3) by (simp flip: power_add)
  have "(a + b) mod 2 ^ n = 2 ^ m * ((a + b) div 2 ^ m mod 2 ^ (n - m)) + (a + b) mod 2 ^ m"
    unfolding n by (simp add: mod_mult2_eq)
  moreover have "a mod 2 ^ n = 2 ^ m * (a div 2 ^ m mod 2 ^ (n - m)) + a mod 2 ^ m"
    unfolding n by (simp add: mod_mult2_eq)
  ultimately show ?thesis using assms(2) by (simp add: q)
qed

lemma slot_class:
  assumes "m \<le> 5" "b < 2 ^ m" "i < 2 ^ (5 - m)"
  shows "slot b i < 32" "m' \<le> m \<Longrightarrow> slot b i mod 2 ^ m' = b mod 2 ^ m'"
proof -
  show "slot b i < 32"
    using link_slots_class[OF assms(1,2)] assms(3) ep_rev_power[OF assms(1)] by (auto simp: link_slots_def slot_def N_INTS_def)
  show "slot b i mod 2 ^ m' = b mod 2 ^ m'" if "m' \<le> m"
  proof -
    have "2 ^ m' dvd ep_rev 5 i" using rev_dvd[OF assms(1,3)] that by (meson dvd_trans le_imp_power_dvd)
    then show ?thesis by (auto simp: slot_def)
  qed
qed

lemma slot_block:
  assumes "m \<le> n" "n \<le> 5" "b < 2 ^ m" "i < 2 ^ (5 - m)" "k < 2 ^ (5 - m)"
  shows "slot b i mod 2 ^ n = slot b k mod 2 ^ n \<longleftrightarrow> i div 2 ^ (5 - n) = k div 2 ^ (5 - n)"
proof -
  have m: "m \<le> 5" "i < 32" "k < 32"
  proof -
    have "(2::nat) ^ (5 - m) \<le> 2 ^ 5" by (rule power_increasing) simp_all
    then show "m \<le> 5" "i < 32" "k < 32" using assms by simp_all
  qed
  have "slot b j mod 2 ^ n = ep_rev 5 j mod 2 ^ n + b" if "j < 2 ^ (5 - m)" for j
    unfolding slot_def by (rule add_low[OF rev_dvd[OF m(1) that] assms(3,1)])
  then show ?thesis using rev_mod[OF assms(2) m(2,3)] assms(4,5) by simp
qed

section \<open>The list behind the table\<close>

abbreviation iv :: "'a ohci_ed_scheme \<Rightarrow> desc \<Rightarrow> nat" where "iv s e \<equiv> unat (int_interval (eds s e))"
abbreviation br :: "'a ohci_ed_scheme \<Rightarrow> desc \<Rightarrow> nat" where "br s e \<equiv> unat (int_branch (eds s e))"

definition serves :: "'a ohci_ed_scheme \<Rightarrow> nat \<Rightarrow> desc \<Rightarrow> bool" where
  "serves s j e \<longleftrightarrow> j mod iv s e = br s e"

definition first :: "desc list \<Rightarrow> desc" where
  "first xs = (case xs of [] \<Rightarrow> 0 | x # _ \<Rightarrow> x)"

lemma first_simps [simp]: "first [] = 0" "first (x # xs) = x" "first (xs @ ys) = (if xs = [] then first ys else hd xs)"
  by (cases xs; simp add: first_def)+

text \<open>The table stands for the list \<open>L\<close> when every slot is the head of its part of the list and every
  endpoint points to the next one that serves its slots.\<close>

definition tree :: "'a ohci_ed_scheme \<Rightarrow> desc list \<Rightarrow> bool" where
  "tree s L \<longleftrightarrow> distinct L \<and> 0 \<notin> set L \<and> length (int_table s) = 32 \<and>
     (\<forall>e \<in> set L. (\<exists>m \<le> 5. iv s e = 2 ^ m) \<and> br s e < iv s e) \<and>
     sorted_wrt (\<lambda>x y. iv s y \<le> iv s x) L \<and>
     (\<forall>j < 32. int_table s ! j = first (filter (serves s j) L)) \<and>
     (\<forall>xs e ys. L = xs @ e # ys \<longrightarrow> hwNextED (eds s e) = first (filter (serves s (br s e)) ys))"

text \<open>What comes behind an endpoint serves all its slots alike.\<close>

lemma later_serves:
  assumes "tree s L" "L = xs @ e # ys" "f \<in> set ys" "serves s j e"
  shows "serves s j f = serves s (br s e) f"
proof -
  have "sorted_wrt (\<lambda>x y. iv s y \<le> iv s x) (xs @ e # ys)" "e \<in> set L" "f \<in> set L"
    using assms(1-3) unfolding tree_def by auto
  then have "iv s f \<le> iv s e" using assms(3) by (simp add: sorted_wrt_append)
  moreover obtain m n where "iv s e = 2 ^ m" "iv s f = 2 ^ n"
    using assms(1) \<open>e \<in> set L\<close> \<open>f \<in> set L\<close> unfolding tree_def by blast
  ultimately have "iv s f dvd iv s e" by (simp add: le_imp_power_dvd)
  then have "j mod iv s f = br s e mod iv s f"
    using assms(4) unfolding serves_def by (metis mod_mod_cancel)
  then show ?thesis by (simp add: serves_def)
qed

lemma later_filter:
  assumes "tree s L" "L = xs @ e # ys" "serves s j e" "set zs \<subseteq> set ys"
  shows "filter (serves s j) zs = filter (serves s (br s e)) zs"
  by (rule filter_cong) (use later_serves[OF assms(1,2) _ assms(3)] assms(4) in auto)

section \<open>The inner loop\<close>

lemma link_walk_run:
  assumes "read_ptr c t = first (as @ bs)" "\<forall>xs x ys. as = xs @ x # ys \<longrightarrow> hwNextED (eds t x) = first (ys @ bs)"
    and "\<forall>x \<in> set as. x \<noteq> 0 \<and> I \<le> iv t x" "bs \<noteq> [] \<Longrightarrow> iv t (hd bs) < I"
  shows "link_walk t I c n = Some (if as = [] then c else Next (last as), if as = [] then n else ep_rev 6 (iv t (last as)))"
  using assms
proof (induction "as" arbitrary: c n)
  case Nil
  then show ?case by (subst link_walk.simps) (cases bs; auto simp: Let_def)
next
  case (Cons a "as")
  have "read_ptr (Next a) t = first (as @ bs)" using Cons.prems(2) by auto
  moreover have "\<forall>xs x ys. as = xs @ x # ys \<longrightarrow> hwNextED (eds t x) = first (ys @ bs)"
    using Cons.prems(2) by (metis append_Cons)
  ultimately have "link_walk t I (Next a) (ep_rev 6 (iv t a)) =
      Some (if as = [] then Next a else Next (last as), if as = [] then ep_rev 6 (iv t a) else ep_rev 6 (iv t (last as)))"
    using Cons.IH[of "Next a" "ep_rev 6 (iv t a)"] Cons.prems(3,4) by auto
  then show ?case using Cons.prems(1,3) by (subst link_walk.simps) (simp add: Let_def)
qed

section \<open>Where an endpoint goes in\<close>

text \<open>A new endpoint \<open>e\<close> of interval \<open>2 ^ m\<close> and branch \<open>b\<close>, and the endpoints it goes behind.\<close>

definition new_ed :: "'a ohci_ed_scheme \<Rightarrow> desc list \<Rightarrow> desc \<Rightarrow> nat \<Rightarrow> nat \<Rightarrow> bool" where
  "new_ed s L e m b \<longleftrightarrow> tree s L \<and> e \<notin> set L \<and> e \<noteq> 0 \<and> m \<le> 5 \<and> iv s e = 2 ^ m \<and> br s e = b \<and> b < 2 ^ m"

abbreviation before :: "'a ohci_ed_scheme \<Rightarrow> nat \<Rightarrow> desc list \<Rightarrow> desc list" where
  "before s m L \<equiv> takeWhile (\<lambda>x. 2 ^ m \<le> iv s x) L"

abbreviation behind :: "'a ohci_ed_scheme \<Rightarrow> nat \<Rightarrow> desc list \<Rightarrow> desc list" where
  "behind s m L \<equiv> dropWhile (\<lambda>x. 2 ^ m \<le> iv s x) L"

definition entry :: "'a ohci_ed_scheme \<Rightarrow> nat \<Rightarrow> desc list \<Rightarrow> nat \<Rightarrow> link_ptr" where
  "entry s m L j = (let as = filter (serves s j) (before s m L) in if as = [] then Slot j else Next (last as))"

lemma behind_less:
  assumes "tree s L" "f \<in> set (behind s m L)"
  shows "iv s f < 2 ^ m"
proof -
  let ?bs = "behind s m L"
  have "sorted_wrt (\<lambda>x y. iv s y \<le> iv s x) (before s m L @ ?bs)" using assms(1) by (simp add: tree_def)
  then have "sorted_wrt (\<lambda>x y. iv s y \<le> iv s x) ?bs" by (simp only: sorted_wrt_append)
  moreover obtain y ys where b: "?bs = y # ys" using assms(2) by (cases ?bs) auto
  moreover have "iv s y < 2 ^ m" using b by (simp add: dropWhile_eq_Cons_conv)
  ultimately show ?thesis using assms(2) by auto
qed

text \<open>All slots of the new endpoint see the same endpoints behind it.\<close>

lemma behind_serves:
  assumes "new_ed s L e m b" "f \<in> set (behind s m L)" "i < 2 ^ (5 - m)"
  shows "serves s (slot b i) f = serves s b f"
proof -
  have t: "tree s L" "m \<le> 5" "b < 2 ^ m" using assms(1) by (simp_all add: new_ed_def)
  have "f \<in> set L" using assms(2) by (rule set_dropWhileD)
  then obtain n where n: "iv s f = 2 ^ n" using t(1) unfolding tree_def by blast
  then have "(2::nat) ^ n < 2 ^ m" using behind_less[OF t(1) assms(2)] by simp
  then have "n \<le> m" by simp
  then show ?thesis using slot_class(2)[OF t(2,3) assms(3)] by (simp add: serves_def n)
qed

text \<open>The slots with one entry point are consecutive in reversed order.\<close>

lemma split_last:
  assumes "filter P L \<noteq> []"
  obtains xs ys where "L = xs @ last (filter P L) # ys" "P (last (filter P L))" "\<forall>y \<in> set ys. \<not> P y"
proof -
  obtain xs x ys where x: "L = xs @ x # ys" "P x" "\<forall>y \<in> set ys. \<not> P y"
    using assms split_list_last_prop[of L P] by (auto simp: filter_empty_conv)
  then have "last (filter P L) = x" by (simp add: filter_empty_conv)
  with x that show thesis by simp
qed

lemma last_filter: "filter P xs \<noteq> [] \<Longrightarrow> last (filter P xs) \<in> set xs \<and> P (last (filter P xs))"
  using last_in_set[of "filter P xs"] by simp

lemma last_serves:
  assumes "tree s L" "filter (serves s j) (before s m L) \<noteq> []" "serves s k (last (filter (serves s j) (before s m L)))"
  shows "filter (serves s k) (before s m L) \<noteq> [] \<and>
    last (filter (serves s k) (before s m L)) = last (filter (serves s j) (before s m L))"
proof -
  define as where "as = before s m L"
  define g where "g = last (filter (serves s j) as)"
  obtain xs ys where g: "as = xs @ g # ys" "serves s j g" "\<forall>y \<in> set ys. \<not> serves s j y"
    using split_last[of "serves s j" as] assms(2) unfolding g_def as_def by blast
  have k: "serves s k g" using assms(3) by (simp add: g_def as_def)
  have L: "L = xs @ g # (ys @ behind s m L)"
    using takeWhile_dropWhile_id[of "\<lambda>x. 2 ^ m \<le> iv s x" L] g(1) unfolding as_def[symmetric] by simp
  have "serves s k y = serves s j y" if "y \<in> set ys" for y
    using later_serves[OF assms(1) L _ g(2)] later_serves[OF assms(1) L _ k] that by simp
  then have "filter (serves s k) ys = []" using g(3) by (simp add: filter_empty_conv)
  then have "filter (serves s k) as = filter (serves s k) xs @ [g]"
    unfolding g(1) using k by simp
  then show ?thesis by (simp add: as_def[symmetric] g_def[symmetric])
qed

lemma entry_Next:
  assumes "tree s L" "entry s m L j = Next g"
  shows "entry s m L k = Next g \<longleftrightarrow> serves s k g"
proof -
  have g: "filter (serves s j) (before s m L) \<noteq> []" "g = last (filter (serves s j) (before s m L))"
    using assms(2) by (auto simp: entry_def Let_def split: if_splits)
  show ?thesis
  proof
    assume "entry s m L k = Next g"
    then have "filter (serves s k) (before s m L) \<noteq> []" "g = last (filter (serves s k) (before s m L))"
      by (auto simp: entry_def Let_def split: if_splits)
    then show "serves s k g" using last_filter by metis
  next
    assume "serves s k g"
    then show "entry s m L k = Next g" using last_serves[OF assms(1) g(1)] by (simp add: entry_def Let_def g(2))
  qed
qed

lemma entry_Slot: "entry s m L j = Slot k \<Longrightarrow> k = j \<and> filter (serves s j) (before s m L) = []"
  by (auto simp: entry_def Let_def split: if_splits)

text \<open>The number of slots that share an entry point: \<open>inter\<close>.\<close>

definition width :: "'a ohci_ed_scheme \<Rightarrow> link_ptr \<Rightarrow> nat" where
  "width s p = (case p of Slot j \<Rightarrow> 1 | Next g \<Rightarrow> ep_rev 6 (iv s g))"

lemma entry_block:
  assumes "new_ed s L e m b" "i < 2 ^ (5 - m)" "k < 2 ^ (5 - m)"
  shows "entry s m L (slot b k) = entry s m L (slot b i) \<longleftrightarrow>
    k div width s (entry s m L (slot b i)) = i div width s (entry s m L (slot b i))"
    "width s (entry s m L (slot b i)) dvd 2 ^ (5 - m)" "0 < width s (entry s m L (slot b i))"
proof -
  have t: "tree s L" "m \<le> 5" "b < 2 ^ m" using assms(1) by (simp_all add: new_ed_def)
  have "\<exists>n \<le> 5. m \<le> n \<and> width s (entry s m L (slot b i)) = 2 ^ (5 - n) \<and>
    (entry s m L (slot b k) = entry s m L (slot b i) \<longleftrightarrow> slot b k mod 2 ^ n = slot b i mod 2 ^ n)"
  proof (cases "entry s m L (slot b i)")
    case (Slot j)
    then have j: "j = slot b i" "filter (serves s (slot b i)) (before s m L) = []" using entry_Slot[OF Slot] by auto
    have "entry s m L (slot b k) = Slot j \<longleftrightarrow> slot b k = slot b i"
      using entry_Slot[of s m L "slot b k" j] j Slot by auto
    moreover have "slot b k < 2 ^ 5" "slot b i < 2 ^ 5"
      using slot_class(1)[OF t(2,3) assms(3)] slot_class(1)[OF t(2,3) assms(2)] by simp_all
    ultimately show ?thesis using t(2) Slot by (intro exI[of _ 5]) (simp add: width_def)
  next
    case (Next g)
    then have g: "serves s (slot b i) g" using entry_Next[OF t(1) Next, of "slot b i"] by simp
    have "filter (serves s (slot b i)) (before s m L) \<noteq> []" "g = last (filter (serves s (slot b i)) (before s m L))"
      using Next by (auto simp: entry_def Let_def split: if_splits)
    then have "g \<in> set (before s m L)" using last_filter by metis
    then have gi: "g \<in> set L" "2 ^ m \<le> iv s g" using set_takeWhileD[of g] by (metis, metis)
    then obtain n where n: "iv s g = 2 ^ n" "n \<le> 5" using t(1) unfolding tree_def by blast
    then have "m \<le> n" using gi(2) by simp
    moreover have "entry s m L (slot b k) = Next g \<longleftrightarrow> slot b k mod 2 ^ n = slot b i mod 2 ^ n"
      using entry_Next[OF t(1) Next, of "slot b k"] g n(1) by (simp add: serves_def)
    ultimately show ?thesis using n Next by (intro exI[of _ n]) (simp add: width_def ep_rev_power)
  qed
  then obtain n where n: "n \<le> 5" "m \<le> n" "width s (entry s m L (slot b i)) = 2 ^ (5 - n)"
    "entry s m L (slot b k) = entry s m L (slot b i) \<longleftrightarrow> slot b k mod 2 ^ n = slot b i mod 2 ^ n" by blast
  show "entry s m L (slot b k) = entry s m L (slot b i) \<longleftrightarrow>
    k div width s (entry s m L (slot b i)) = i div width s (entry s m L (slot b i))"
    unfolding n(3,4) using slot_block[OF n(2,1) t(3) assms(3,2)] .
  show "width s (entry s m L (slot b i)) dvd 2 ^ (5 - m)" "0 < width s (entry s m L (slot b i))"
    unfolding n(3) using n(2) by (auto intro: le_imp_power_dvd)
qed

section \<open>The outer loop\<close>

text \<open>The first \<open>i\<close> entry points are done.\<close>

abbreviation entries :: "'a ohci_ed_scheme \<Rightarrow> desc list \<Rightarrow> nat \<Rightarrow> nat \<Rightarrow> nat \<Rightarrow> link_ptr set" where
  "entries s L m b i \<equiv> (\<lambda>k. entry s m L (slot b k)) ` {..<i}"

definition partly :: "'a ohci_ed_scheme \<Rightarrow> desc list \<Rightarrow> desc \<Rightarrow> nat \<Rightarrow> nat \<Rightarrow> nat \<Rightarrow> 'a ohci_ed_scheme \<Rightarrow> bool" where
  "partly s L e m b i t \<longleftrightarrow> length (int_table t) = 32 \<and>
     (\<forall>j < 32. int_table t ! j = (if Slot j \<in> entries s L m b i then e else int_table s ! j)) \<and>
     (\<forall>x. x \<noteq> e \<longrightarrow> hwNextED (eds t x) = (if Next x \<in> entries s L m b i then e else hwNextED (eds s x))) \<and>
     (0 < i \<longrightarrow> hwNextED (eds t e) = first (filter (serves s b) (behind s m L))) \<and>
     (\<forall>x. (eds t x)\<lparr>hwNextED := 0\<rparr> = (eds s x)\<lparr>hwNextED := 0\<rparr>)"

definition closed_at :: "'a ohci_ed_scheme \<Rightarrow> desc list \<Rightarrow> nat \<Rightarrow> nat \<Rightarrow> nat \<Rightarrow> bool" where
  "closed_at s L m b i \<longleftrightarrow> i \<le> 2 ^ (5 - m) \<and>
     (\<forall>k < i. \<forall>k' < 2 ^ (5 - m). entry s m L (slot b k') = entry s m L (slot b k) \<longrightarrow> k' < i)"

lemma filter_split:
  "filter P A = xs @ x # ys \<Longrightarrow> \<exists>u v. A = u @ x # v \<and> filter P v = ys \<and> P x"
proof (induction A arbitrary: xs)
  case (Cons a A)
  show ?case
  proof (cases "P a \<and> xs = []")
    case True
    then show ?thesis using Cons.prems by (intro exI[of _ "[]"] exI[of _ A]) auto
  next
    case False
    then obtain xs' where "filter P A = xs' @ x # ys" using Cons.prems by (cases xs) (auto split: if_splits)
    then obtain u v where "A = u @ x # v" "filter P v = ys" "P x" using Cons.IH by blast
    then show ?thesis by (intro exI[of _ "a # u"] exI[of _ v]) simp
  qed
qed simp

lemma partly_iv: "partly s L e m b i t \<Longrightarrow> iv t x = iv s x \<and> br t x = br s x"
  unfolding partly_def by (metis ed.select_convs(9,7) ed.surjective ed.update_convs(4))

lemma outer_step:
  assumes n: "new_ed s L e m b" and p: "partly s L e m b i t" and c: "closed_at s L m b i" and i: "i < 2 ^ (5 - m)"
  defines "P \<equiv> entry s m L (slot b i)"
  shows "link_walk t (2 ^ m) (Slot (slot b i)) 1 = Some (P, width s P)"
    "read_ptr P t = first (filter (serves s b) (behind s m L))" "P \<notin> entries s L m b i"
proof -
  have T: "tree s L" "e \<notin> set L" "m \<le> 5" "b < 2 ^ m" using n by (simp_all add: new_ed_def)
  have j: "slot b i < 32" by (rule slot_class(1)[OF T(3,4) i])
  define as where "as = filter (serves s (slot b i)) (before s m L)"
  define bs where "bs = filter (serves s (slot b i)) (behind s m L)"
  have fr: "entry s m L (slot b k) \<noteq> P" if "k < i" for k
    using c that i unfolding closed_at_def P_def by (metis less_irrefl)
  then show new: "P \<notin> entries s L m b i" by auto
  have L: "filter (serves s (slot b i)) L = as @ bs"
    unfolding as_def bs_def filter_append[symmetric] takeWhile_dropWhile_id ..
  have bs: "bs = filter (serves s b) (behind s m L)"
    unfolding bs_def by (rule filter_cong[OF refl behind_serves[OF n _ i]])
  have slot: "read_ptr (Slot (slot b i)) t = first (as @ bs)"
  proof -
    have "Slot (slot b i) \<notin> entries s L m b i"
    proof
      assume "Slot (slot b i) \<in> entries s L m b i"
      then obtain k where k: "k < i" "entry s m L (slot b k) = Slot (slot b i)" by auto
      then have "as = []" using entry_Slot[OF k(2)] by (simp add: as_def)
      then show False using fr[OF k(1)] k(2) by (simp add: P_def entry_def as_def)
    qed
    then show ?thesis using p T(1) j L by (simp add: partly_def tree_def)
  qed
  have next_: "hwNextED (eds t x) = first (ys @ bs)" if x: "as = xs @ x # ys" for xs x ys
  proof -
    obtain u v where u: "before s m L = u @ x # v" "filter (serves s (slot b i)) v = ys" "serves s (slot b i) x"
      using filter_split[OF x[unfolded as_def]] by blast
    have Lx: "L = u @ x # (v @ behind s m L)"
      using takeWhile_dropWhile_id[of "\<lambda>x. 2 ^ m \<le> iv s x" L] unfolding u(1) by simp
    have "Next x \<notin> entries s L m b i"
    proof
      assume "Next x \<in> entries s L m b i"
      then obtain k where k: "k < i" "entry s m L (slot b k) = Next x" by auto
      then show False using entry_Next[OF T(1) k(2), of "slot b i"] u(3) fr[OF k(1)] by (simp add: P_def)
    qed
    moreover have "x \<in> set L" by (subst Lx) simp
    then have "x \<noteq> e" using T(2) by auto
    ultimately have "hwNextED (eds t x) = hwNextED (eds s x)" using p by (simp add: partly_def)
    also have "\<dots> = first (filter (serves s (br s x)) (v @ behind s m L))" using T(1) Lx unfolding tree_def by blast
    also have "\<dots> = first (ys @ bs)"
      using later_filter[OF T(1) Lx u(3), of "v @ behind s m L"] u(2) by (simp add: bs_def)
    finally show ?thesis .
  qed
  have "link_walk t (2 ^ m) (Slot (slot b i)) 1 =
      Some (if as = [] then Slot (slot b i) else Next (last as), if as = [] then 1 else ep_rev 6 (iv t (last as)))"
  proof (rule link_walk_run[OF slot])
    show "\<forall>xs x ys. as = xs @ x # ys \<longrightarrow> hwNextED (eds t x) = first (ys @ bs)" using next_ by blast
    show "\<forall>x \<in> set as. x \<noteq> 0 \<and> 2 ^ m \<le> iv t x"
      using T(1) partly_iv[OF p] by (auto simp: as_def tree_def dest: set_takeWhileD)
    show "iv t (hd bs) < 2 ^ m" if "bs \<noteq> []"
    proof -
      have "hd bs \<in> set (behind s m L)" using hd_in_set[OF that] by (simp add: bs_def)
      then show ?thesis using behind_less[OF T(1)] partly_iv[OF p] by simp
    qed
  qed
  then show "link_walk t (2 ^ m) (Slot (slot b i)) 1 = Some (P, width s P)"
    using partly_iv[OF p] by (simp add: P_def entry_def as_def[symmetric] Let_def width_def)
  show "read_ptr P t = first (filter (serves s b) (behind s m L))"
  proof (cases "as = []")
    case True
    then show ?thesis using slot bs by (simp add: P_def entry_def as_def[symmetric])
  next
    case False
    then have "as = butlast as @ last as # []" by simp
    from next_[OF this] show ?thesis using False bs by (simp add: P_def entry_def as_def[symmetric])
  qed
qed

text \<open>One turn takes all slots of its entry point at once.\<close>

lemma outer_next:
  assumes n: "new_ed s L e m b" and c: "closed_at s L m b i" and i: "i < 2 ^ (5 - m)"
  defines "P \<equiv> entry s m L (slot b i)"
  shows "closed_at s L m b (i + width s P)" "entries s L m b (i + width s P) = insert P (entries s L m b i)" "0 < width s P"
proof -
  define w where "w = width s P"
  note blk = entry_block[OF n i, folded P_def, folded w_def]
  have w: "w dvd 2 ^ (5 - m)" "0 < w" using blk(2,3)[OF i] by auto
  have "i mod w = 0"
  proof (rule ccontr)
    assume r: "i mod w \<noteq> 0"
    let ?k = "i - i mod w"
    have k: "?k < i" "?k < 2 ^ (5 - m)" using r i mod_less_eq_dividend[of i w] by linarith+
    have "?k div w = i div w" using w(2) by (simp add: minus_mod_eq_mult_div)
    then have "entry s m L (slot b ?k) = P" using blk(1)[OF k(2)] by simp
    then have "\<forall>k' < 2 ^ (5 - m). entry s m L (slot b k') = P \<longrightarrow> k' < i" using c k(1) unfolding closed_at_def by metis
    then show False using i by (auto simp: P_def)
  qed
  then obtain q where q: "i = w * q" by (auto simp: mod_eq_0_iff_dvd)
  obtain r where r: "2 ^ (5 - m) = w * r" using w(1) ..
  have "w * q < w * r" using i q r by simp
  then have "q < r" using w(2) by simp
  then have "w * Suc q \<le> w * r" by (intro mult_le_mono2) simp
  then have le: "i + w \<le> 2 ^ (5 - m)" using q r by simp
  have same: "entry s m L (slot b k) = P \<longleftrightarrow> i \<le> k \<and> k < i + w" if "k < 2 ^ (5 - m)" for k
  proof -
    have "k div w = q \<longleftrightarrow> w * q \<le> k \<and> k < w * q + w"
      using w(2) by (metis add.commute div_less_iff_less_mult less_Suc_eq_le less_eq_div_iff_mult_less_eq mult.commute mult_Suc
          nat_less_le not_less order_antisym_conv)
    then show ?thesis using blk(1)[OF that] q w(2) by simp
  qed
  show "entries s L m b (i + width s P) = insert P (entries s L m b i)"
    unfolding w_def[symmetric]
  proof (intro equalityI subsetI)
    fix p assume "p \<in> entries s L m b (i + w)"
    then obtain k where "k < i + w" "p = entry s m L (slot b k)" by auto
    then show "p \<in> insert P (entries s L m b i)" using same[of k] le by (cases "k < i") auto
  next
    fix p assume "p \<in> insert P (entries s L m b i)"
    then show "p \<in> entries s L m b (i + w)" using w(2) by (auto simp: P_def)
  qed
  show "closed_at s L m b (i + width s P)"
    unfolding w_def[symmetric] closed_at_def
  proof (intro conjI allI impI)
    fix k k' assume k: "k < i + w" "k' < 2 ^ (5 - m)" "entry s m L (slot b k') = entry s m L (slot b k)"
    show "k' < i + w"
    proof (cases "k < i")
      case True
      then have "k' < i" using c k(2,3) unfolding closed_at_def by blast
      then show ?thesis by simp
    next
      case False
      then have "entry s m L (slot b k) = P" using same[of k] k(1) le by simp
      then show ?thesis using same[OF k(2)] k(3) by simp
    qed
  qed (rule le)
  show "0 < width s P" using w(2) by (simp add: w_def)
qed

lemma partly_next:
  assumes n: "new_ed s L e m b" and p: "partly s L e m b i t" and c: "closed_at s L m b i" and i: "i < 2 ^ (5 - m)"
  defines "P \<equiv> entry s m L (slot b i)"
  shows "partly s L e m b (i + width s P) (write_ptr P e (upd_ed e (hwNextED_update (\<lambda>_. read_ptr P t)) t))"
proof -
  define C where "C = entries s L m b i"
  note pt = p[unfolded partly_def, folded C_def]
  have C': "entries s L m b (i + width s P) = insert P C" and w: "0 < i + width s P"
    using outer_next(2,3)[OF n c i] by (simp_all add: C_def P_def)
  have v: "read_ptr P t = first (filter (serves s b) (behind s m L))" using outer_step(2)[OF n p c i] by (simp add: P_def)
  have T: "tree s L" "e \<notin> set L" "m \<le> 5" "b < 2 ^ m" using n by (simp_all add: new_ed_def)
  have pe: "P \<noteq> Next e"
  proof
    assume "P = Next e"
    then have "filter (serves s (slot b i)) (before s m L) \<noteq> []" "e = last (filter (serves s (slot b i)) (before s m L))"
      by (auto simp: P_def entry_def Let_def split: if_splits)
    then have "e \<in> set (before s m L)" using last_filter by metis
    then show False using T(2) by (auto dest: set_takeWhileD)
  qed
  show ?thesis
  proof (cases P)
    case (Slot j)
    then have "j < 32" using entry_Slot[of s m L "slot b i" j] slot_class(1)[OF T(3,4) i] by (simp add: P_def)
    then show ?thesis using pt v w Slot unfolding partly_def C'
      by (auto simp: upd_ed_def nth_list_update)
  next
    case (Next g)
    then have "g \<noteq> e" using pe by simp
    then show ?thesis using pt v w Next unfolding partly_def C' by (auto simp: upd_ed_def)
  qed
qed

lemma link_int_run:
  assumes n: "new_ed s L e m b" and p: "partly s L e m b i t" and c: "closed_at s L m b i"
  shows "\<exists>r. link_int e (2 ^ m) b i t = Some r \<and> partly s L e m b (2 ^ (5 - m)) r"
  using p c
proof (induction "2 ^ (5 - m) - i" arbitrary: i t rule: less_induct)
  case less
  have m: "ep_rev 6 (2 ^ m) = 2 ^ (5 - m)" using n by (simp add: new_ed_def ep_rev_power)
  show ?case
  proof (cases "i < 2 ^ (5 - m)")
    case False
    then have "i = 2 ^ (5 - m)" using less.prems(2) by (simp add: closed_at_def)
    then show ?thesis using less.prems(1) m by (subst link_int.simps) simp
  next
    case True
    let ?P = "entry s m L (slot b i)"
    let ?t = "write_ptr ?P e (upd_ed e (hwNextED_update (\<lambda>_. read_ptr ?P t)) t)"
    note nxt = outer_next[OF n less.prems(2) True]
    have "\<exists>r. link_int e (2 ^ m) b (i + width s ?P) ?t = Some r \<and> partly s L e m b (2 ^ (5 - m)) r"
      using nxt(1,3) True partly_next[OF n less.prems True] by (intro less.hyps) auto
    moreover have "link_int e (2 ^ m) b i t = link_int e (2 ^ m) b (i + width s ?P) ?t"
      using outer_step(1)[OF n less.prems True] m True by (subst link_int.simps) (simp add: slot_def)
    ultimately show ?thesis by simp
  qed
qed

section \<open>The result\<close>

text \<open>The endpoint among the others, behind all with at least its interval.\<close>

definition insert_ed :: "'a ohci_ed_scheme \<Rightarrow> nat \<Rightarrow> desc \<Rightarrow> desc list \<Rightarrow> desc list" where
  "insert_ed s m e L = before s m L @ e # behind s m L"

lemma class_slots: "m \<le> 5 \<Longrightarrow> b < 2 ^ m \<Longrightarrow> j < 32 \<Longrightarrow> j mod 2 ^ m = b \<Longrightarrow> \<exists>k < 2 ^ (5 - m). j = slot b k"
  using link_slots_class[of m b] by (auto simp: link_slots_def slot_def N_INTS_def ep_rev_power)

lemma entries_Slot:
  assumes "new_ed s L e m b" "j < 32"
  shows "Slot j \<in> entries s L m b (2 ^ (5 - m)) \<longleftrightarrow> serves s j e \<and> filter (serves s j) (before s m L) = []"
proof -
  have T: "m \<le> 5" "b < 2 ^ m" "iv s e = 2 ^ m" "br s e = b" using assms(1) by (simp_all add: new_ed_def)
  show ?thesis
  proof
    assume "Slot j \<in> entries s L m b (2 ^ (5 - m))"
    then obtain k where k: "k < 2 ^ (5 - m)" "entry s m L (slot b k) = Slot j" by auto
    then have "j = slot b k" "filter (serves s j) (before s m L) = []" using entry_Slot[OF k(2)] by auto
    then show "serves s j e \<and> filter (serves s j) (before s m L) = []"
      using slot_class(2)[OF T(1,2) k(1), of m] T by (simp add: serves_def)
  next
    assume a: "serves s j e \<and> filter (serves s j) (before s m L) = []"
    then obtain k where "k < 2 ^ (5 - m)" "j = slot b k" using class_slots[OF T(1,2) assms(2)] T by (auto simp: serves_def)
    then show "Slot j \<in> entries s L m b (2 ^ (5 - m))" using a by (auto simp: entry_def intro: rev_image_eqI)
  qed
qed

lemma entries_Next:
  assumes "new_ed s L e m b" "before s m L = xs @ x # ys"
  shows "Next x \<in> entries s L m b (2 ^ (5 - m)) \<longleftrightarrow> serves s (br s x) e \<and> filter (serves s (br s x)) ys = []"
proof -
  have T: "m \<le> 5" "b < 2 ^ m" "iv s e = 2 ^ m" "br s e = b" "tree s L" using assms(1) by (simp_all add: new_ed_def)
  have L: "L = xs @ x # (ys @ behind s m L)"
    using takeWhile_dropWhile_id[of "\<lambda>x. 2 ^ m \<le> iv s x" L] unfolding assms(2) by simp
  have x: "x \<in> set L" by (subst L) simp
  have "distinct L" using T(5) by (simp add: tree_def)
  then have d: "x \<notin> set ys" using L by (metis UnI1 distinct.simps(2) distinct_append set_append)
  obtain n where n: "n \<le> 5" "iv s x = 2 ^ n" "br s x < 2 ^ n" using T(5) x unfolding tree_def by metis
  have "x \<in> set (before s m L)" unfolding assms(2) by simp
  then have "(2::nat) ^ m \<le> 2 ^ n" using n(2) by (metis set_takeWhileD)
  then have mn: "m \<le> n" by simp
  have self: "serves s (br s x) x" using n by (simp add: serves_def)
  have ys: "filter (serves s j) ys = filter (serves s (br s x)) ys" if "serves s j x" for j
    using later_filter[OF T(5) L that, of ys] by simp
  have entry: "entry s m L j = Next x \<longleftrightarrow> serves s j x \<and> filter (serves s (br s x)) ys = []" for j
  proof
    assume "entry s m L j = Next x"
    then have a: "filter (serves s j) (before s m L) \<noteq> []" "x = last (filter (serves s j) (before s m L))"
      by (auto simp: entry_def Let_def split: if_splits)
    then have sx: "serves s j x" using last_filter by metis
    have "filter (serves s j) ys = []"
    proof (rule ccontr)
      assume f: "filter (serves s j) ys \<noteq> []"
      then have "last (filter (serves s j) (before s m L)) = last (filter (serves s j) ys)" unfolding assms(2) by simp
      then have "x \<in> set ys" using a(2) last_filter[OF f] by simp
      then show False using d by simp
    qed
    then show "serves s j x \<and> filter (serves s (br s x)) ys = []" using sx ys by simp
  next
    assume "serves s j x \<and> filter (serves s (br s x)) ys = []"
    then show "entry s m L j = Next x" using ys[of j] by (simp add: entry_def Let_def assms(2))
  qed
  show ?thesis
  proof
    assume "Next x \<in> entries s L m b (2 ^ (5 - m))"
    then obtain k where k: "k < 2 ^ (5 - m)" "entry s m L (slot b k) = Next x" by auto
    then have sv: "serves s (slot b k) x" "filter (serves s (br s x)) ys = []" using entry by auto
    have "br s x mod 2 ^ m = slot b k mod 2 ^ n mod 2 ^ m" using sv(1) n(2) by (simp add: serves_def)
    also have "\<dots> = slot b k mod 2 ^ m" using mn by (simp add: mod_mod_cancel le_imp_power_dvd)
    also have "\<dots> = b" using slot_class(2)[OF T(1,2) k(1), of m] T(2) by simp
    finally show "serves s (br s x) e \<and> filter (serves s (br s x)) ys = []" using sv(2) T by (simp add: serves_def)
  next
    assume a: "serves s (br s x) e \<and> filter (serves s (br s x)) ys = []"
    have "(2::nat) ^ n \<le> 2 ^ 5" using n(1) by (rule power_increasing) simp
    then have "br s x < 32" using n(3) by simp
    then obtain k where "k < 2 ^ (5 - m)" "br s x = slot b k" using class_slots[OF T(1,2)] a T by (auto simp: serves_def)
    then show "Next x \<in> entries s L m b (2 ^ (5 - m))" using entry[of "br s x"] self a by (auto intro: rev_image_eqI)
  qed
qed

lemma entries_behind:
  assumes "new_ed s L e m b" "x \<notin> set (before s m L)"
  shows "Next x \<notin> entries s L m b i"
proof
  assume "Next x \<in> entries s L m b i"
  then obtain k where "entry s m L (slot b k) = Next x" by auto
  then have "filter (serves s (slot b k)) (before s m L) \<noteq> []" "x = last (filter (serves s (slot b k)) (before s m L))"
    by (auto simp: entry_def Let_def split: if_splits)
  then show False using assms(2) last_filter by metis
qed

lemma three_places:
  "A @ e # B = xs @ x # ys \<Longrightarrow> (\<exists>us. A = xs @ x # us \<and> ys = us @ e # B) \<or> (xs = A \<and> x = e \<and> ys = B) \<or>
     (\<exists>us. B = us @ x # ys \<and> xs = A @ e # us)"
  by (auto simp: append_eq_append_conv2 append_eq_Cons_conv Cons_eq_append_conv)

lemma tree_done:
  assumes n: "new_ed s L e m b" and p: "partly s L e m b (2 ^ (5 - m)) r"
  shows "tree r (insert_ed s m e L)"
proof -
  define A where "A = before s m L"
  define B where "B = behind s m L"
  define C where "C = entries s L m b (2 ^ (5 - m))"
  have T: "tree s L" "e \<notin> set L" "e \<noteq> 0" "m \<le> 5" "iv s e = 2 ^ m" "br s e = b" "b < 2 ^ m" using n by (simp_all add: new_ed_def)
  have L: "L = A @ B" by (simp add: A_def B_def)
  have iv: "iv r x = iv s x" "br r x = br s x" for x using partly_iv[OF p] by simp_all
  have sv: "serves r = serves s" by (simp add: serves_def fun_eq_iff iv)
  note tr = T(1)[unfolded tree_def L]
  note pt = p[unfolded partly_def, folded C_def]
  have A: "2 ^ m \<le> iv s x" if "x \<in> set A" for x using that by (auto simp: A_def dest: set_takeWhileD)
  have B: "iv s x < 2 ^ m" if "x \<in> set B" for x using behind_less[OF T(1)] that by (simp add: B_def)
  have "sorted_wrt (\<lambda>x y. iv s y \<le> iv s x) (A @ e # B)"
    using tr A B T(5) by (auto simp: sorted_wrt_append intro: less_imp_le)
  moreover have "int_table r ! j = first (filter (serves s j) (A @ e # B))" if j: "j < 32" for j
  proof -
    have "Slot j \<in> C \<longleftrightarrow> serves s j e \<and> filter (serves s j) A = []" using entries_Slot[OF n j] by (simp add: C_def A_def)
    moreover have "int_table s ! j = first (filter (serves s j) (A @ B))" using tr j by blast
    ultimately show ?thesis using pt j by (cases "filter (serves s j) A = []") simp_all
  qed
  moreover have "hwNextED (eds r x) = first (filter (serves s (br s x)) ys)" if q: "A @ e # B = xs @ x # ys" for xs x ys
    using three_places[OF q]
  proof (elim disjE exE conjE)
    fix us assume u: "A = xs @ x # us" "ys = us @ e # B"
    have "x \<noteq> e" using T(2) L u(1) by auto
    moreover have "hwNextED (eds s x) = first (filter (serves s (br s x)) (us @ B))"
    proof -
      have "A @ B = xs @ x # (us @ B)" using u(1) by simp
      then show ?thesis using tr by blast
    qed
    moreover have "Next x \<in> C \<longleftrightarrow> serves s (br s x) e \<and> filter (serves s (br s x)) us = []"
      using entries_Next[OF n u(1)[unfolded A_def]] by (simp add: C_def)
    ultimately show ?thesis using pt u(2) by (cases "filter (serves s (br s x)) us = []") simp_all
  next
    assume "xs = A" "x = e" "ys = B"
    then show ?thesis using pt T(6) by (simp add: B_def)
  next
    fix us assume u: "B = us @ x # ys" "xs = A @ e # us"
    have x: "x \<in> set L" "x \<notin> set A" using u(1) tr by (auto simp: L)
    then have "x \<noteq> e" "Next x \<notin> C" using T(2) entries_behind[OF n] by (auto simp: C_def A_def)
    moreover have "hwNextED (eds s x) = first (filter (serves s (br s x)) ys)"
    proof -
      have "A @ B = (A @ us) @ x # ys" using u(1) by simp
      then show ?thesis using tr by blast
    qed
    ultimately show ?thesis using pt by simp
  qed
  moreover have "insert_ed s m e L = A @ e # B" by (simp add: insert_ed_def A_def B_def)
  moreover have "e \<notin> set A" "e \<notin> set B" using T(2) by (auto simp: L)
  moreover have "\<exists>n \<le> 5. iv s e = 2 ^ n" "br s e < iv s e" using T(4,5,6,7) by auto
  moreover have "distinct (A @ B)" "0 \<notin> set (A @ B)"
    "\<forall>x \<in> set (A @ B). (\<exists>n \<le> 5. iv s x = 2 ^ n) \<and> br s x < iv s x"
    using tr by blast+
  moreover have "length (int_table r) = 32" using pt by simp
  ultimately show ?thesis
    using T(3) by (simp add: tree_def sv iv)
qed

lemma tree_cong:
  assumes eq: "\<And>x. x \<in> set L \<Longrightarrow> eds s1 x = eds s x"
  shows "tree s L \<Longrightarrow> int_table s1 = int_table s \<Longrightarrow> tree s1 L" "insert_ed s1 m e L = insert_ed s m e L"
proof -
  have sv: "serves s1 j x = serves s j x" if "x \<in> set L" for x j using eq[OF that] by (simp add: serves_def)
  have f: "filter (serves s1 j) xs = filter (serves s j) xs" if "set xs \<subseteq> set L" for j xs
    by (rule filter_cong) (use sv that in auto)
  show "tree s1 L" if tr: "tree s L" and tab: "int_table s1 = int_table s"
    unfolding tree_def
  proof (intro conjI allI impI)
    show "\<forall>e \<in> set L. (\<exists>m \<le> 5. iv s1 e = 2 ^ m) \<and> br s1 e < iv s1 e" using tr eq by (simp add: tree_def)
    show "sorted_wrt (\<lambda>x y. iv s1 y \<le> iv s1 x) L"
      using tr eq unfolding tree_def by (auto elim!: sorted_wrt_mono_rel[rotated])
    show "int_table s1 ! j = first (filter (serves s1 j) L)" if "j < 32" for j
      using tr that f[of L j] by (simp add: tree_def tab)
    show "hwNextED (eds s1 x) = first (filter (serves s1 (br s1 x)) ys)" if L: "L = xs @ x # ys" for xs x ys
    proof -
      have x: "x \<in> set L" "set ys \<subseteq> set L" using L by auto
      then show ?thesis using tr L eq[OF x(1)] f[OF x(2)] unfolding tree_def by metis
    qed
  qed (use tr in \<open>simp_all add: tree_def tab\<close>)
  have "takeWhile (\<lambda>x. 2 ^ m \<le> iv s1 x) L = before s m L" by (rule takeWhile_cong) (use eq in auto)
  moreover have "dropWhile (\<lambda>x. 2 ^ m \<le> iv s1 x) L = behind s m L" by (rule dropWhile_cong) (use eq in auto)
  ultimately show "insert_ed s1 m e L = insert_ed s m e L" by (simp add: insert_ed_def)
qed

text \<open>C18. Linking an interrupt endpoint is insertion into a sorted list: when the table of 32 slots and the
  shared chains behind it stand for the list \<open>L\<close>, sorted by falling interval, then \<open>ep_link\<close>
  returns, and table and chains stand for \<open>L\<close> with the endpoint put behind all of at least its
  interval, which is its period rounded down to a power of two, in the branch that \<open>ep_int_ballance\<close>
  has chosen. So every slot of that branch, and no other, gets the endpoint into its chain, once,
  and no other endpoint is lost from any chain.\<close>

theorem ep_link_int_inserts:
  fixes s :: "'a ohci_ed_scheme"
  assumes "tree s L" "e \<notin> set L" "e \<noteq> 0" "ed_type (eds s e) = INT_ep"
    and "ep_2_n_interval (unat (int_period (eds s e))) = 2 ^ m" "m \<le> 5"
  shows "\<exists>t. ep_link e s = Some t \<and> tree t (insert_ed s m e L) \<and> iv t e = 2 ^ m \<and>
    br t e = fst (ep_int_ballance (2 ^ m) (int (unat (int_load (eds s e)))) (ohci_int_load s)) \<and>
    (\<forall>x. x \<noteq> e \<longrightarrow> (eds t x)\<lparr>hwNextED := 0\<rparr> = (eds s x)\<lparr>hwNextED := 0\<rparr>)"
proof -
  obtain b loads where b: "ep_int_ballance (2 ^ m) (int (unat (int_load (eds s e)))) (ohci_int_load s) = (b, loads)" by fastforce
  have pos: "(0::nat) < 2 ^ m" "(2::nat) ^ m \<le> 32" using power_increasing[of m 5 "2::nat"] assms(6) by simp_all
  have bm: "b < 2 ^ m" using b pos by (auto simp: ep_int_ballance_def Let_def)
  define s1 where "s1 = upd_ed e (\<lambda>d. d\<lparr>int_interval := of_nat (2 ^ m), int_branch := of_nat b\<rparr>)
      ((upd_ed e (\<lambda>d. d\<lparr>state := ED_OPER, hwNextED := 0\<rparr>) s)\<lparr>ohci_int_load := loads\<rparr>)"
  have small: "unat (of_nat k :: u8) = k" if "k \<le> 32" for k
    using that by (simp add: unat_of_nat)
  have e1: "iv s1 e = 2 ^ m" "br s1 e = b"
    using small[of "2 ^ m"] small[of b] pos bm by (simp_all add: s1_def upd_ed_def)
  have x1: "eds s1 x = eds s x" if "x \<noteq> e" for x using that by (simp add: s1_def upd_ed_def)
  have ne: "x \<noteq> e" if "x \<in> set L" for x using that assms(2) by auto
  have eq: "eds s1 x = eds s x" if "x \<in> set L" for x by (rule x1[OF ne[OF that]])
  have tab: "int_table s1 = int_table s" by (simp add: s1_def upd_ed_def)
  have "tree s1 L" by (rule tree_cong(1)[OF eq assms(1) tab])
  then have n: "new_ed s1 L e m b" using assms(2,3,6) e1 bm by (simp add: new_ed_def)
  have "partly s1 L e m b 0 s1" using \<open>tree s1 L\<close> by (simp add: partly_def tree_def)
  moreover have "closed_at s1 L m b 0" by (simp add: closed_at_def)
  ultimately obtain r where r: "link_int e (2 ^ m) b 0 s1 = Some r" "partly s1 L e m b (2 ^ (5 - m)) r"
    using link_int_run[OF n] by blast
  have run: "ep_link e s = Some r"
    using r(1) assms(4,5) b unfolding s1_def by (simp add: ep_link_def Let_def upd_ed_def)
  show ?thesis
    using run tree_done[OF n r(2)] partly_iv[OF r(2)] e1 x1 b r(2) by (intro exI[of _ r]) (simp add: tree_cong(2)[OF eq] partly_def)
qed

definition polled_hc :: ohci_ed where
  "polled_hc = idle_hc\<lparr>eds := (\<lambda>e. ed0\<lparr>ed_type := INT_ep, int_period := (if e = 0x20 then 10 else 4), int_load := 50\<rparr>)\<rparr>"

theorem ep_link_int_inserts_witness:
  "\<exists>t u. ep_link 0x20 polled_hc = Some t \<and> ep_link 0x10 t = Some u \<and> tree u [0x20, 0x10] \<and>
     iv u 0x20 = 8 \<and> iv u 0x10 = 4"
proof -
  have t: "tree polled_hc []"
    by (simp add: tree_def polled_hc_def idle_hc_def ohci.defs ohci_zero_def N_INTS_def)
  have p: "ed_type (eds polled_hc 0x20) = INT_ep" "ep_2_n_interval (unat (int_period (eds polled_hc 0x20))) = 2 ^ 3"
    unfolding ep_2_n_interval_cases by (simp_all add: polled_hc_def)
  from ep_link_int_inserts[OF t _ _ p] obtain t where t: "ep_link 0x20 polled_hc = Some t" "tree t [0x20]" "iv t 0x20 = 8"
    and x: "\<forall>x. x \<noteq> 0x20 \<longrightarrow> (eds t x)\<lparr>hwNextED := 0\<rparr> = (eds polled_hc x)\<lparr>hwNextED := 0\<rparr>"
    by (auto simp: insert_ed_def)
  have "ed.truncate ((eds t 0x10)\<lparr>hwNextED := 0\<rparr>) = ed.truncate ((eds polled_hc 0x10)\<lparr>hwNextED := 0\<rparr>)" using x by simp
  then have f: "ed_type (eds t 0x10) = INT_ep" "int_period (eds t 0x10) = 4"
    by (simp_all add: polled_hc_def ed.defs)
  then have "ep_2_n_interval (unat (int_period (eds t 0x10))) = 2 ^ 2"
    unfolding ep_2_n_interval_cases by simp
  from ep_link_int_inserts[OF t(2) _ _ f(1) this] obtain u where
    u: "ep_link 0x10 t = Some u" "tree u (insert_ed t 2 0x10 [0x20])" "iv u 0x10 = 4"
    and y: "\<forall>x. x \<noteq> 0x10 \<longrightarrow> (eds u x)\<lparr>hwNextED := 0\<rparr> = (eds t x)\<lparr>hwNextED := 0\<rparr>" by auto
  have "ed.truncate ((eds u 0x20)\<lparr>hwNextED := 0\<rparr>) = ed.truncate ((eds t 0x20)\<lparr>hwNextED := 0\<rparr>)" using y by simp
  then have "iv u 0x20 = 8" using t(3) by (simp add: ed.defs)
  then show ?thesis using t u by (auto simp: insert_ed_def)
qed

end
