(* ===== verification/Debug_Print.thy ===== *)
theory Debug_Print
  imports Int_Tree Ohci_Td
begin

text \<open>
  The printing of \<open>portable-ohci-core.c\<close> that is compiled when \<open>DEBUG\<close> is defined (the file undefines
  it): \<open>urb_print\<close>, \<open>ep_print_int_eds\<close>, \<open>ohci_dump\<close> and their helpers. \<open>dbg\<close> is \<open>printk\<close> at level
  \<open>KERN_DEBUG\<close>; a line that the code prints in several pieces is one entry of the log. \<open>%p\<close> of the
  registers' address and the numbers of the error codes are parameters.
\<close>

section \<open>Formats and masks\<close>

definition spad :: "nat \<Rightarrow> string \<Rightarrow> string" where
  "spad w t = replicate (w - length t) CHR '' '' @ t"

definition dbg :: "string \<Rightarrow> 'a ohci_scheme \<Rightarrow> 'a ohci_scheme" where
  "dbg t s = s\<lparr>olog := olog s @ [Printk KERN_DEBUG t]\<rparr>"

definition flags_text :: "u32 \<Rightarrow> (u32 \<times> string) list \<Rightarrow> string" where
  "flags_text v ms = concat (map (\<lambda>(m, t). if v AND m \<noteq> 0 then t else []) ms)"

definition OHCI_CTRL_RWC :: u32 where [simp]: "OHCI_CTRL_RWC = 0x200"
definition OHCI_CTRL_RWE :: u32 where [simp]: "OHCI_CTRL_RWE = 0x400"
definition OHCI_SOC :: u32 where [simp]: "OHCI_SOC = 0x30000"
definition OHCI_INTR_RD :: u32 where [simp]: "OHCI_INTR_RD = 0x8"
definition OHCI_INTR_FNO :: u32 where [simp]: "OHCI_INTR_FNO = 0x20"
definition OHCI_INTR_RHSC :: u32 where [simp]: "OHCI_INTR_RHSC = 0x40"
definition OHCI_INTR_OC :: u32 where [simp]: "OHCI_INTR_OC = 0x40000000"
definition RH_HS_LPS :: u32 where [simp]: "RH_HS_LPS = 0x1"
definition RH_HS_OCI :: u32 where [simp]: "RH_HS_OCI = 0x2"
definition RH_B_PPCM :: u32 where [simp]: "RH_B_PPCM = 0xffff0000"
definition RH_A_DT :: u32 where [simp]: "RH_A_DT = 0x400"

section \<open>URBs\<close>

definition urb_print_line :: "penv \<Rightarrow> (status \<Rightarrow> u32) \<Rightarrow> string \<Rightarrow> u16 \<Rightarrow> hurb \<Rightarrow> string" where
  "urb_print_line K number str frame w =
     (let pipe = urb_pipe w in
      str @ '' URB:['' @ spad 4 (fmt_x (ucast frame)) @ ''] dev:'' @ spad 2 (fmt_d (usb_pipedevice K pipe)) @
      '',ep:'' @ spad 2 (fmt_d (usb_pipeendpoint K pipe)) @ ''-'' @ (if usb_pipeout K pipe \<noteq> 0 then ''O'' else ''I'') @
      '',type:'' @ (if usb_pipetype K pipe < 2 then (if usb_pipeint K pipe \<noteq> 0 then ''INTR'' else ''ISOC'')
                    else (if usb_pipecontrol K pipe \<noteq> 0 then ''CTRL'' else ''BULK'')) @
      '',flags:'' @ spad 4 (fmt_x (urb_transfer_flags w)) @ '',len:'' @ fmt_d (urb_actual_length w) @ ''/'' @
      fmt_d (urb_transfer_buffer_length w) @ '',stat:'' @ fmt_d (number (urb_status w)) @ ''('' @ fmt_x (number (urb_status w)) @ '')'')"

definition hex_text :: "memory \<Rightarrow> addr \<Rightarrow> nat \<Rightarrow> string" where
  "hex_text m a n = concat (map (\<lambda>b. '' '' @ fmt_0x 2 (ucast b)) (bytes_at m a n))"

text \<open>\<open>None\<close>: the setup packet is read through \<open>NULL\<close>.\<close>

definition urb_print :: "penv \<Rightarrow> (status \<Rightarrow> u32) \<Rightarrow> memory \<Rightarrow> hurb \<Rightarrow> string \<Rightarrow> bool \<Rightarrow> 'a ohci_scheme \<Rightarrow> 'a ohci_scheme option" where
  "urb_print K number m w str small s =
     (if (case urb_dev w of None \<Rightarrow> True | Some dv \<Rightarrow> \<not> dev_bus dv) then Some (dbg (str @ '' URB: no dev'') s)
      else let pipe = urb_pipe w; s1 = dbg (urb_print_line K number str (frame_no s) w) s in
      if small then Some s1
      else if usb_pipecontrol K pipe \<noteq> 0 \<and> urb_setup_packet w = 0 then None
      else let s2 = (if usb_pipecontrol K pipe \<noteq> 0 then dbg ('': cmd(8):'' @ hex_text m (urb_setup_packet w) 8) s1 else s1) in
        Some (if 0 < sint (urb_transfer_buffer_length w) \<and> urb_transfer_buffer w \<noteq> 0
          then let len = sint (if usb_pipeout K pipe \<noteq> 0 then urb_transfer_buffer_length w else urb_actual_length w);
                   n = nat (min 16 len) in
            dbg ('': data('' @ fmt_d (urb_actual_length w) @ ''/'' @ fmt_d (urb_transfer_buffer_length w) @ ''):'' @
              hex_text m (urb_transfer_buffer w) n @ (if int n < len then ''...'' else []) @ '' stat:'' @ fmt_d (number (urb_status w))) s2
          else s2))"

section \<open>The interrupt tree\<close>

definition ed_text :: "'a ohci_ed_scheme \<Rightarrow> desc \<Rightarrow> string" where
  "ed_text s e = '' ed: '' @ spad 4 (fmt_x (hwINFO (eds s e))) @ '';''"

text \<open>The \<open>while\<close> loop, with its counter \<open>j\<close>.\<close>

fun branch_text :: "nat \<Rightarrow> desc \<Rightarrow> 'a ohci_ed_scheme \<Rightarrow> string" where
  "branch_text 0 e s = []"
| "branch_text (Suc j) e s = (if e = 0 then [] else ed_text s e @ branch_text j (hwNextED (eds s e)) s)"

definition branch_line :: "string \<Rightarrow> nat \<Rightarrow> string \<Rightarrow> string" where
  "branch_line str i t = '': '' @ str @ '' branch int '' @ spad 2 (fmt_nat i) @ ''('' @ spad 2 (fmt_x (of_nat i)) @ ''):'' @ t"

definition ep_print_int_eds :: "string \<Rightarrow> 'a ohci_ed_scheme \<Rightarrow> 'a ohci_ed_scheme" where
  "ep_print_int_eds str s =
     fold (\<lambda>i s. if int_table s ! i = 0 then s else dbg (branch_line str i (branch_text 5 (int_table s ! i) s)) s) [0..<32] s"

section \<open>The registers\<close>

definition ohci_dump_intr_mask :: "string \<Rightarrow> u32 \<Rightarrow> 'a ohci_scheme \<Rightarrow> 'a ohci_scheme" where
  "ohci_dump_intr_mask label v s = dbg (label @ '': 0x'' @ fmt_0x 8 v @ flags_text v
     [(OHCI_INTR_MIE, '' MIE''), (OHCI_INTR_OC, '' OC''), (OHCI_INTR_RHSC, '' RHSC''), (OHCI_INTR_FNO, '' FNO''),
      (OHCI_INTR_UE, '' UE''), (OHCI_INTR_RD, '' RD''), (OHCI_INTR_SF, '' SF''), (OHCI_INTR_WDH, '' WDH''),
      (OHCI_INTR_SO, '' SO'')]) s"

definition maybe_print_eds :: "string \<Rightarrow> u32 \<Rightarrow> 'a ohci_scheme \<Rightarrow> 'a ohci_scheme" where
  "maybe_print_eds label v s = (if v \<noteq> 0 then dbg (label @ '' '' @ fmt_0x 8 v) s else s)"

definition hcfs2string :: "u32 \<Rightarrow> string" where
  "hcfs2string v = (if v = OHCI_USB_RESET then ''reset'' else if v = OHCI_USB_RESUME then ''resume''
     else if v = OHCI_USB_OPER then ''operational'' else if v = OHCI_USB_SUSPEND then ''suspend'' else ''?'')"

text \<open>Read a register and print it.\<close>

definition show_reg :: "hw \<Rightarrow> ohci_reg \<Rightarrow> (u32 \<Rightarrow> 'a ohci_scheme \<Rightarrow> 'a ohci_scheme) \<Rightarrow> 'a ohci_scheme \<Rightarrow> 'a ohci_scheme" where
  "show_reg hw r f s = (let (v, t) = readl hw r s in f v t)"

definition ohci_dump_status :: "hw \<Rightarrow> 'a ohci_scheme \<Rightarrow> 'a ohci_scheme" where
  "ohci_dump_status hw s =
     (let s1 = show_reg hw Revision (\<lambda>v. let v = v AND 0xff in
                if v \<noteq> 0x10 then dbg (''spec '' @ fmt_d (drop_bit 4 v) @ ''.'' @ fmt_d (v AND 0x0f)) else id) s;
          s2 = show_reg hw Control (\<lambda>v. dbg (''control: 0x'' @ fmt_0x 8 v @
                flags_text v [(OHCI_CTRL_RWE, '' RWE''), (OHCI_CTRL_RWC, '' RWC''), (OHCI_CTRL_IR, '' IR'')] @
                '' HCFS='' @ hcfs2string (v AND OHCI_CTRL_HCFS) @
                flags_text v [(OHCI_CTRL_BLE, '' BLE''), (OHCI_CTRL_CLE, '' CLE''), (OHCI_CTRL_IE, '' IE''), (OHCI_CTRL_PLE, '' PLE'')] @
                '' CBSR='' @ fmt_d (v AND OHCI_CTRL_CBSR))) s1;
          s3 = show_reg hw Cmdstatus (\<lambda>v. dbg (''cmdstatus: 0x'' @ fmt_0x 8 v @ '' SOC='' @ fmt_d (drop_bit 16 (v AND OHCI_SOC)) @
                flags_text v [(OHCI_OCR, '' OCR''), (OHCI_BLF, '' BLF''), (OHCI_CLF, '' CLF''), (OHCI_HCR, '' HCR'')])) s2;
          s4 = show_reg hw Intrstatus (ohci_dump_intr_mask ''intrstatus'') s3;
          s5 = show_reg hw Intrenable (ohci_dump_intr_mask ''intrenable'') s4;
          s6 = show_reg hw Ed_periodcurrent (maybe_print_eds ''ed_periodcurrent'') s5;
          s7 = show_reg hw Ed_controlhead (maybe_print_eds ''ed_controlhead'') s6;
          s8 = show_reg hw Ed_controlcurrent (maybe_print_eds ''ed_controlcurrent'') s7;
          s9 = show_reg hw Ed_bulkhead (maybe_print_eds ''ed_bulkhead'') s8;
          s10 = show_reg hw Ed_bulkcurrent (maybe_print_eds ''ed_bulkcurrent'') s9 in
      show_reg hw Donehead (maybe_print_eds ''donehead'') s10)"

definition dump_port :: "hw \<Rightarrow> nat \<Rightarrow> 'a ohci_scheme \<Rightarrow> 'a ohci_scheme" where
  "dump_port hw i = show_reg hw (Rh_portstatus (int i)) (\<lambda>v. dbg (''roothub.portstatus ['' @ fmt_nat i @ ''] = 0x'' @ fmt_0x 8 v @
     flags_text v [(RH_PS_PRSC, '' PRSC''), (RH_PS_OCIC, '' OCIC''), (RH_PS_PSSC, '' PSSC''), (RH_PS_PESC, '' PESC''),
       (RH_PS_CSC, '' CSC''), (RH_PS_LSDA, '' LSDA''), (RH_PS_PPS, '' PPS''), (RH_PS_PRS, '' PRS''), (RH_PS_POCI, '' POCI''),
       (RH_PS_PSS, '' PSS''), (RH_PS_PES, '' PES''), (RH_PS_CCS, '' CCS'')]))"

definition dump_hub :: "hw \<Rightarrow> u32 \<Rightarrow> 'a ohci_scheme \<Rightarrow> 'a ohci_scheme" where
  "dump_hub hw a s =
     (let s1 = dbg (''roothub.a: '' @ fmt_0x 8 a @ '' POTPGT='' @ fmt_d (drop_bit 24 (a AND RH_A_POTPGT) AND 0xff) @
                flags_text a [(RH_A_NOCP, '' NOCP''), (RH_A_OCPM, '' OCPM''), (RH_A_DT, '' DT''), (RH_A_NPS, '' NPS''), (RH_A_PSM, '' PSM'')] @
                '' NDP='' @ fmt_d (a AND RH_A_NDP)) s;
          s2 = show_reg hw Rh_b (\<lambda>v. dbg (''roothub.b: '' @ fmt_0x 8 v @ '' PPCM='' @ fmt_0x 4 (drop_bit 16 (v AND RH_B_PPCM)) @
                '' DR='' @ fmt_0x 4 (v AND RH_B_DR))) s1 in
      show_reg hw Rh_status (\<lambda>v. dbg (''roothub.status: '' @ fmt_0x 8 v @
        flags_text v [(RH_HS_CRWE, '' CRWE''), (RH_HS_OCIC, '' OCIC''), (RH_HS_LPSC, '' LPSC''), (RH_HS_DRWE, '' DRWE''),
          (RH_HS_OCI, '' OCI''), (RH_HS_LPS, '' LPS'')])) s2)"

definition ohci_dump_roothub :: "hw \<Rightarrow> bool \<Rightarrow> 'a ohci_scheme \<Rightarrow> 'a ohci_scheme" where
  "ohci_dump_roothub hw verbose s =
     (let (a, s1) = readl hw Rh_a s; ndp = a AND RH_A_NDP in
      fold (dump_port hw) [0..<unat ndp] (if verbose then dump_hub hw a s1 else s1))"

definition ohci_dump :: "hw \<Rightarrow> string \<Rightarrow> bool \<Rightarrow> 'a ohci_ed_scheme \<Rightarrow> 'a ohci_ed_scheme" where
  "ohci_dump hw regs verbose s =
     (let s1 = ohci_dump_status hw (dbg (''OHCI controller '' @ regs @ '' state'') s);
          s2 = (if verbose then ep_print_int_eds ''hcca'' s1 else s1) in
      ohci_dump_roothub hw True (dbg (''hcca frame #'' @ fmt_0x 4 (ucast (frame_no s2))) s2))"


section \<open>Printing changes nothing\<close>

text \<open>The registers \<open>rs\<close> are read, in this order, and lines are printed.\<close>

definition prints :: "ohci_reg list \<Rightarrow> 'a ohci_scheme \<Rightarrow> 'a ohci_scheme \<Rightarrow> bool" where
  "prints rs s t \<longleftrightarrow> (\<exists>vs l. map fst vs = rs \<and> t = s\<lparr>io := io s @ map (\<lambda>(r, v). Rd r v) vs, olog := olog s @ l\<rparr>)"

lemma prints_refl [simp]: "prints [] s s"
  by (auto simp: prints_def intro!: exI[of _ "[]"])

lemma prints_dbg [simp]: "prints [] s (dbg t s)"
  by (auto simp: prints_def dbg_def)

lemma prints_trans: "prints as s t \<Longrightarrow> prints bs t r \<Longrightarrow> prints (as @ bs) s r"
  unfolding prints_def
proof (elim exE conjE)
  fix vs l ws k
  assume "map fst vs = as" "t = s\<lparr>io := io s @ map (\<lambda>(r, v). Rd r v) vs, olog := olog s @ l\<rparr>"
    "map fst ws = bs" "r = t\<lparr>io := io t @ map (\<lambda>(r, v). Rd r v) ws, olog := olog t @ k\<rparr>"
  then show "\<exists>vs l. map fst vs = as @ bs \<and> r = s\<lparr>io := io s @ map (\<lambda>(r, v). Rd r v) vs, olog := olog s @ l\<rparr>"
    by (intro exI[of _ "vs @ ws"] exI[of _ "l @ k"]) simp
qed

lemma prints_readl: "readl hw r s = (v, t) \<Longrightarrow> prints [r] s t"
  unfolding prints_def by (rule exI[of _ "[(r, v)]"], rule exI[of _ "[]"]) (auto simp: readl_def Let_def)

lemma prints_show: "(\<And>v t. prints [] t (f v t)) \<Longrightarrow> prints [r] s (show_reg hw r f s)"
  using prints_trans[OF prints_readl, of hw r s _ _ "[]"] by (auto simp: show_reg_def split: prod.splits)

lemma prints_fold: "(\<And>x s. x \<in> set xs \<Longrightarrow> prints (g x) s (f x s)) \<Longrightarrow> prints (concat (map g xs)) s (fold f xs s)"
  by (induction xs arbitrary: s) (auto intro: prints_trans)

lemma prints_helpers [simp]:
  "prints [] s (ohci_dump_intr_mask label v s)" "prints [] s (maybe_print_eds label v s)"
  by (simp_all add: ohci_dump_intr_mask_def maybe_print_eds_def)

definition status_regs :: "ohci_reg list" where
  "status_regs = [Revision, Control, Cmdstatus, Intrstatus, Intrenable, Ed_periodcurrent, Ed_controlhead, Ed_controlcurrent,
     Ed_bulkhead, Ed_bulkcurrent, Donehead]"

lemma prints_snoc: "prints rs s t \<Longrightarrow> (\<And>v t. prints [] t (f v t)) \<Longrightarrow> prints (rs @ [r]) s (show_reg hw r f t)"
  using prints_trans prints_show by blast

lemma prints_status: "prints status_regs s (ohci_dump_status hw s)"
proof -
  have "status_regs = (((((((((([] @ [Revision]) @ [Control]) @ [Cmdstatus]) @ [Intrstatus]) @ [Intrenable]) @ [Ed_periodcurrent]) @
      [Ed_controlhead]) @ [Ed_controlcurrent]) @ [Ed_bulkhead]) @ [Ed_bulkcurrent]) @ [Donehead]"
    by (simp add: status_regs_def)
  note eq = this
  show ?thesis unfolding ohci_dump_status_def Let_def eq by (rule prints_snoc | simp)+
qed

lemma prints_int_eds: "prints [] s (ep_print_int_eds str s)"
proof -
  have "prints (concat (map (\<lambda>i. []) [0..<32])) s (ep_print_int_eds str s)"
    unfolding ep_print_int_eds_def by (rule prints_fold) simp
  moreover have "concat (map (\<lambda>i. []) is) = []" for "is" :: "nat list" by simp
  ultimately show ?thesis by metis
qed

lemma prints_hub: "prints [Rh_b, Rh_status] s (dump_hub hw a s)"
proof -
  have "prints (([] @ [Rh_b]) @ [Rh_status]) s (dump_hub hw a s)"
    unfolding dump_hub_def Let_def by (rule prints_snoc | rule prints_dbg)+
  then show ?thesis by simp
qed

lemma prints_ports: "prints (map (\<lambda>i. Rh_portstatus (int i)) is) s (fold (dump_port hw) is s)"
proof -
  have "prints (concat (map (\<lambda>i. [Rh_portstatus (int i)]) is)) s (fold (dump_port hw) is s)"
    by (rule prints_fold) (simp add: dump_port_def prints_show)
  moreover have "concat (map (\<lambda>i. [Rh_portstatus (int i)]) is) = map (\<lambda>i. Rh_portstatus (int i)) is" by (induction "is") simp_all
  ultimately show ?thesis by simp
qed

lemma prints_roothub:
  obtains a where "prints ([Rh_a] @ (if verbose then [Rh_b, Rh_status] else []) @ map (\<lambda>i. Rh_portstatus (int i)) [0..<unat (a AND RH_A_NDP)])
     s (ohci_dump_roothub hw verbose s)"
proof -
  obtain a s1 where a: "readl hw Rh_a s = (a, s1)" by fastforce
  have "prints (if verbose then [Rh_b, Rh_status] else []) s1 (if verbose then dump_hub hw a s1 else s1)" by (simp add: prints_hub)
  from prints_trans[OF prints_readl[OF a] prints_trans[OF this prints_ports]] show thesis
    by (intro that[of a]) (simp only: ohci_dump_roothub_def a Let_def prod.case)
qed

text \<open>\<open>ohci_dump\<close> prints and does nothing else but read registers: the driver's state, its lists and the
  registers that it has written stay as they are. It reads as many port registers as the controller
  claims to have ports, up to 255, so beyond the array \<open>portstatus\<close> when it claims more than 15.\<close>

theorem ohci_dump_reads:
  "\<exists>vs l a. ohci_dump hw regs verbose s = s\<lparr>io := io s @ map (\<lambda>(r, v). Rd r v) vs, olog := olog s @ l\<rparr> \<and>
     map fst vs = status_regs @ [Rh_a, Rh_b, Rh_status] @ map (\<lambda>i. Rh_portstatus (int i)) [0..<unat (a AND RH_A_NDP)] \<and>
     ((\<exists>i. Rh_portstatus i \<in> fst ` set vs \<and> int MAX_ROOT_PORTS \<le> i) \<longleftrightarrow> MAX_ROOT_PORTS < unat (a AND RH_A_NDP))"
proof -
  let ?s1 = "ohci_dump_status hw (dbg (''OHCI controller '' @ regs @ '' state'') s)"
  let ?s2 = "if verbose then ep_print_int_eds ''hcca'' ?s1 else ?s1"
  let ?s3 = "dbg (''hcca frame #'' @ fmt_0x 4 (ucast (frame_no ?s2))) ?s2"
  let ?regs = "\<lambda>a. status_regs @ [Rh_a, Rh_b, Rh_status] @ map (\<lambda>i. Rh_portstatus (int i)) [0..<unat (a AND RH_A_NDP)]"
  have e: "ohci_dump hw regs verbose s = ohci_dump_roothub hw True ?s3" unfolding ohci_dump_def Let_def ..
  have "prints status_regs s ?s1" using prints_trans[OF prints_dbg prints_status] by (simp only: append_Nil)
  moreover have "prints [] ?s1 ?s2" by (simp add: prints_int_eds)
  ultimately have s3: "prints status_regs s ?s3"
    using prints_trans[OF prints_trans prints_dbg, of status_regs s ?s1 "[]" ?s2] by (simp only: append_Nil2)
  obtain a where a: "prints ([Rh_a] @ (if True then [Rh_b, Rh_status] else []) @
      map (\<lambda>i. Rh_portstatus (int i)) [0..<unat (a AND RH_A_NDP)]) ?s3 (ohci_dump_roothub hw True ?s3)" by (rule prints_roothub)
  have "prints (?regs a) s (ohci_dump hw regs verbose s)"
    unfolding e using prints_trans[OF s3 a] by (simp only: if_True append_Cons append_Nil)
  then obtain vs l where v: "ohci_dump hw regs verbose s = s\<lparr>io := io s @ map (\<lambda>(r, v). Rd r v) vs, olog := olog s @ l\<rparr>" "map fst vs = ?regs a"
    unfolding prints_def by blast
  have "fst ` set vs = set (?regs a)" using v(2) by (metis set_map)
  then have "Rh_portstatus i \<in> fst ` set vs \<longleftrightarrow> i \<in> int ` {..<unat (a AND RH_A_NDP)}" for i by (auto simp: status_regs_def)
  then have "(\<exists>i. Rh_portstatus i \<in> fst ` set vs \<and> int MAX_ROOT_PORTS \<le> i) \<longleftrightarrow> MAX_ROOT_PORTS < unat (a AND RH_A_NDP)" by auto
  then show ?thesis using v by blast
qed

section \<open>What is printed of the tree\<close>

lemma branch_text_tree:
  assumes "tree s L" "L = xs @ ys"
  shows "branch_text n (first (filter (serves s j) ys)) s = concat (map (ed_text s) (take n (filter (serves s j) ys)))"
  using assms(2)
proof (induction n arbitrary: xs ys)
  case (Suc n)
  show ?case
  proof (cases "filter (serves s j) ys")
    case (Cons e es)
    then obtain us vs where y: "ys = us @ e # vs" "\<forall>u \<in> set us. \<not> serves s j u" "serves s j e" "es = filter (serves s j) vs"
      by (auto simp: filter_eq_Cons_iff)
    have L: "L = (xs @ us) @ e # vs" using Suc.prems y(1) by simp
    have "hwNextED (eds s e) = first (filter (serves s (br s e)) vs)" using assms(1) L by (simp add: tree_def)
    also have "\<dots> = first (filter (serves s j) vs)" using later_filter[OF assms(1) L y(3), of vs] by simp
    finally have "hwNextED (eds s e) = first es" using y(4) by simp
    moreover have "e \<noteq> 0" using assms(1) L by (auto simp: tree_def)
    moreover have "branch_text n (first es) s = concat (map (ed_text s) (take n es))"
      using Suc.IH[of "xs @ us @ [e]" vs] L y(4) by simp
    ultimately show ?thesis using Cons by simp
  qed simp
qed simp

text \<open>\<open>ep_print_int_eds\<close> prints, for every slot of the table that is not empty, the first five endpoints
  that are served in it, in the order in which the controller reaches them.\<close>

theorem ep_print_int_eds_lists:
  assumes "tree s L"
  shows "ep_print_int_eds str s = s\<lparr>olog := olog s @
    map (\<lambda>i. Printk KERN_DEBUG (branch_line str i (concat (map (ed_text s) (take 5 (filter (serves s i) L))))))
      (filter (\<lambda>i. filter (serves s i) L \<noteq> []) [0..<32])\<rparr>"
proof -
  let ?line = "\<lambda>i. Printk KERN_DEBUG (branch_line str i (concat (map (ed_text s) (take 5 (filter (serves s i) L)))))"
  let ?f = "\<lambda>i s. if int_table s ! i = 0 then s else dbg (branch_line str i (branch_text 5 (int_table s ! i) s)) s"
  have tx: "branch_text n e (s\<lparr>olog := l\<rparr>) = branch_text n e s" for n e l
    by (induction n arbitrary: e) (simp_all add: ed_text_def)
  have run: "fold ?f js (s\<lparr>olog := l\<rparr>) = s\<lparr>olog := l @ map ?line (filter (\<lambda>i. filter (serves s i) L \<noteq> []) js)\<rparr>"
    if "set js \<subseteq> {..<32}" for js l
    using that
  proof (induction js arbitrary: l)
    case (Cons i js)
    have t: "int_table s ! i = first (filter (serves s i) L)" using assms Cons.prems by (simp add: tree_def)
    have "first (filter (serves s i) L) = 0 \<longleftrightarrow> filter (serves s i) L = []"
    proof (cases "filter (serves s i) L")
      case (Cons e es)
      then have "e \<in> set L" by (metis filter_is_subset list.set_intros(1) subsetD)
      then show ?thesis using Cons assms by (auto simp: tree_def)
    qed simp
    then have "?f i (s\<lparr>olog := l\<rparr>) = s\<lparr>olog := l @ map ?line (filter (\<lambda>i. filter (serves s i) L \<noteq> []) [i])\<rparr>"
      using branch_text_tree[OF assms, of "[]" L 5 i] by (simp add: t tx dbg_def)
    then show ?case using Cons.IH Cons.prems by simp
  qed simp
  have "set [0..<32] \<subseteq> {..<32::nat}" by auto
  from run[OF this, of "olog s"] show ?thesis unfolding ep_print_int_eds_def by simp
qed

end
