(* ===== verification/Submit.thy ===== *)
theory Submit
  imports Ohci_Urb Td_Queue
begin

text \<open>
  The failures of \<open>sohci_submit_urb\<close>: what is undone before an error is returned, and what is not.
\<close>

section \<open>Use counts and private parts\<close>

text \<open>The steps of a submission that change neither.\<close>

definition same_acct :: "hcd \<Rightarrow> hcd \<Rightarrow> bool" where
  "same_acct s t \<longleftrightarrow> urbs t = urbs s \<and> dev_use t = dev_use s"

lemma alloc_local_acct: "alloc_local K e sz s = Some (d, t) \<Longrightarrow> same_acct s t"
  by (auto simp: alloc_local_def same_acct_def split: sum.splits)

lemma same_acct_trans: "same_acct s t \<Longrightarrow> same_acct t r \<Longrightarrow> same_acct s r"
  by (simp add: same_acct_def)

lemma same_acct_simps [simp]:
  "same_acct s s" "same_acct s (upd_ed e f s)" "same_acct s (s\<lparr>ed_lock := b\<rparr>)" "same_acct s (s\<lparr>dev_table := d\<rparr>)"
  by (simp_all add: same_acct_def upd_ed_def)

text \<open>The state that \<open>ep_add_ed\<close> leaves, step by step.\<close>

definition add_ed_state :: "penv \<Rightarrow> desc \<Rightarrow> addr \<Rightarrow> u32 \<Rightarrow> u32 \<Rightarrow> u8 \<Rightarrow> desc \<Rightarrow> hcd \<Rightarrow> hcd" where
  "add_ed_state K td up pipe interval ld e s =
     (let s1 = (if state (eds s e) = ED_NEW
                       then upd_ed e (\<lambda>d. d\<lparr>hwINFO := OHCI_ED_SKIP, hwTailP := td, hwHeadP := td, state := ED_UNLINK,
                              ed_type := ucast (usb_pipetype K pipe)\<rparr>) s
                       else s);
          s3 = upd_ed e (hwINFO_update (\<lambda>_. ed_info K pipe)) (s1\<lparr>dev_table := (dev_table s1)(usb_pipedevice K pipe := up)\<rparr>) in
      (if ed_type (eds s3 e) = INT_ep \<and> state (eds s3 e) = ED_UNLINK
                       then upd_ed e (\<lambda>d. d\<lparr>int_period := ucast interval, int_load := ld\<rparr>) s3 else s3)\<lparr>ed_lock := False\<rparr>)"

lemma add_ed_state_acct: "same_acct s (add_ed_state K td up pipe interval ld e s)"
proof -
  have c: "same_acct r (if b then upd_ed e f r else r)" for b f and r :: hcd by simp
  define s1 where "s1 = (if state (eds s e) = ED_NEW
      then upd_ed e (\<lambda>d. d\<lparr>hwINFO := OHCI_ED_SKIP, hwTailP := td, hwHeadP := td, state := ED_UNLINK,
             ed_type := ucast (usb_pipetype K pipe)\<rparr>) s else s)"
  define s2 where "s2 = s1\<lparr>dev_table := (dev_table s1)(usb_pipedevice K pipe := up)\<rparr>"
  define s3 where "s3 = upd_ed e (hwINFO_update (\<lambda>_. ed_info K pipe)) s2"
  define s4 where "s4 = (if ed_type (eds s3 e) = INT_ep \<and> state (eds s3 e) = ED_UNLINK
      then upd_ed e (\<lambda>d. d\<lparr>int_period := ucast interval, int_load := ld\<rparr>) s3 else s3)"
  have "same_acct s s1" "same_acct s1 s2" "same_acct s2 s3" "same_acct s3 s4"
    unfolding s1_def s2_def s3_def s4_def by (rule c same_acct_simps)+
  moreover have "add_ed_state K td up pipe interval ld e s = s4\<lparr>ed_lock := False\<rparr>"
    by (simp only: add_ed_state_def Let_def s1_def s2_def s3_def s4_def)
  ultimately show ?thesis by (simp add: same_acct_def)
qed

lemma ep_add_ed_cases:
  "ep_add_ed K td up pipe interval ld dev s =
     (let z = s\<lparr>ed_lock := True\<rparr>; e = dev_eds dev ! ed_index K pipe in
      if ed_lock s then None
      else if state (eds z e) AND ED_DEL \<noteq> 0 \<or> state (eds z e) AND ED_URB_DEL \<noteq> 0 then Some (0, dev, z)
      else if state (eds z e) = ED_NEW \<and> td = 0 then Some (0, dev, upd_ed e (hwINFO_update (\<lambda>_. OHCI_ED_SKIP)) z)
      else Some (e, if state (eds z e) = ED_NEW then dev\<lparr>ed_cnt := ed_cnt dev + 1\<rparr> else dev, add_ed_state K td up pipe interval ld e z))"
  by (simp only: ep_add_ed_def add_ed_state_def Let_def)

lemma ep_add_ed_acct:
  assumes "ep_add_ed K td up pipe interval ld dev s = Some (e, dev', t)"
  shows "same_acct s t"
  using assms same_acct_trans[OF same_acct_simps(3) add_ed_state_acct] same_acct_trans[OF same_acct_simps(3) same_acct_simps(2)]
  by (auto simp: ep_add_ed_cases Let_def split: if_splits)

lemma add_ed_acct:
  assumes "add_ed K a u s = Some (e, t)"
  shows "same_acct s t"
proof -
  obtain td s1 e1 dev t1 where "same_acct s s1" "ep_add_ed (penv.truncate K) td (urb_devp (urbs s u)) (urb_pipe (urbs s u))
      (urb_interval (urbs s u)) 1 (devs s1 (urb_devp (urbs s u))) s1 = Some (e1, dev, t1)"
    "t = t1\<lparr>devs := (devs t1)(urb_devp (urbs s u) := dev)\<rparr>"
    using assms alloc_local_acct
    by (fastforce simp: add_ed_def Let_def Option.bind_eq_Some_conv same_acct_def split: if_splits)
  then show ?thesis using ep_add_ed_acct by (fastforce simp: same_acct_def)
qed

text \<open>The URB has a private part exactly while it is being set up.\<close>

lemma alloc_tds_acct:
  assumes "alloc_tds K es u is s = Some (al, t)"
  shows "dev_use t = dev_use s \<and> (hcpriv (urbs t u) = None) = (hcpriv (urbs s u) = None) \<and> urb_dev (urbs t u) = urb_dev (urbs s u)"
  using assms
proof (induction K es u "is" s rule: alloc_tds.induct)
  case (2 K es u i "is" s)
  obtain d s1 where a: "alloc_local K (es i) sizeof_td s = Some (d, s1)"
    using "2.prems" by (auto simp: Option.bind_eq_Some_conv)
  let ?s = "upd_priv u (p_td_update (\<lambda>l. l[i := d])) s1"
  have s: "dev_use ?s = dev_use s" "(hcpriv (urbs ?s u) = None) = (hcpriv (urbs s u) = None)" "urb_dev (urbs ?s u) = urb_dev (urbs s u)"
    using alloc_local_acct[OF a] by (simp_all add: same_acct_def upd_priv_def upd_urb_def)
  show ?case
  proof (cases "d = 0")
    case True
    then show ?thesis using "2.prems" a s by simp
  next
    case False
    then have "alloc_tds K es u is ?s = Some (al, t)" using "2.prems" a by simp
    from "2.IH"[OF a refl refl False this] s show ?thesis by simp
  qed
qed simp

section \<open>Failing\<close>

lemma rm_priv_acct:
  "dev_use (urb_rm_priv K u s) = dev_use s" "hcpriv (urbs (urb_rm_priv K u s) u) = None"
  "urb_dev (urbs (urb_rm_priv K u s) u) = urb_dev (urbs s u)"
proof -
  have "dev_use (fold (\<lambda>t s. if t \<noteq> 0 then free_local (bus_to_virt K t) s else s) ts s) = dev_use s \<and>
    urbs (fold (\<lambda>t s. if t \<noteq> 0 then free_local (bus_to_virt K t) s else s) ts s) = urbs s" for ts
    by (induction ts arbitrary: s) (simp_all add: free_local_def)
  then show "dev_use (urb_rm_priv K u s) = dev_use s" "hcpriv (urbs (urb_rm_priv K u s) u) = None"
    "urb_dev (urbs (urb_rm_priv K u s) u) = urb_dev (urbs s u)"
    by (auto simp: urb_rm_priv_def upd_urb_def Let_def split: option.splits)
qed

lemma dev_use_add_acct [simp]:
  "urbs (dev_use_add n u s) = urbs s"
  "urb_dev (urbs s u) = Some dv \<Longrightarrow> dev_use (dev_use_add n u s) = (dev_use s)(devnum dv := dev_use s (devnum dv) + n)"
  by (auto simp: dev_use_add_def split: option.splits)

lemma submit_locked_fails:
  assumes "submit_locked K a u e s = Some (r, t)" "r \<noteq> Sub_ok" "urb_dev (urbs s u) = Some dv"
  shows "hcpriv (urbs t u) = None \<and> dev_use t = (dev_use s)(devnum dv := dev_use s (devnum dv) - 1) \<and> r \<noteq> Sub_shutdown"
proof -
  define s1 where "s1 = (if urb_transfer_flags (urbs s u) AND usb_iso_asap K \<noteq> 0
                     then upd_urb u (urb_start_frame_update (\<lambda>_.
                       (if state (eds s e) = ED_OPER then ucast (last_iso (eds s e)) + 1 else ucast (frame_no s) + 10) AND 0xffff)) s
                     else s)"
  have s1: "dev_use s1 = dev_use s" "urb_dev (urbs s1 u) = Some dv" using assms(3) by (simp_all add: s1_def upd_urb_def)
  show ?thesis
  proof (cases "state (eds s e) = ED_NEW \<or> state (eds s e) AND ED_DEL \<noteq> 0")
    case True
    then show ?thesis using assms by (auto simp: submit_locked_def Let_def rm_priv_acct)
  next
    case False
    have e: "submit_locked K a u e s = (case hcpriv (urbs s1 u) of
        None \<Rightarrow> None
      | Some p \<Rightarrow>
      case Portable_PrepareUrbOnSubmit (bus_to_virt K) (si_data a) (si_setup a) (urb.truncate (urbs s1 u)) (portable p) (hcd_dma s1) of
        Inl _ \<Rightarrow> None
      | Inr (ret, px, dm) \<Rightarrow>
          let s2 = upd_priv u (portable_update (\<lambda>_. px)) (s1\<lparr>hcd_dma := dm\<rparr>) in
          case ret of
            Some err \<Rightarrow> Some (Sub_err err, urb_rm_priv K u (usb_dec_dev_use u s2))
          | None \<Rightarrow>
              let s3 = upd_urb u (\<lambda>w. w\<lparr>urb_actual_length := 0, urb_status := EINPROGRESS\<rparr>) s2 in
              Option.bind (if state (eds s3 e) \<noteq> ED_OPER then ep_link e s3 else Some s3) (\<lambda>s4.
                map_option (\<lambda>(_, t). (Sub_ok, t))
                  (td_submit_urb K u (upd_urb u (urb_status_update (\<lambda>_. EINPROGRESS)) s4))))"
      unfolding submit_locked_def Let_def s1_def[symmetric] if_not_P[OF False] ..
    obtain p err px dm where t: "t = urb_rm_priv K u (usb_dec_dev_use u (upd_priv u (portable_update (\<lambda>_. px)) (s1\<lparr>hcd_dma := dm\<rparr>)))"
      and r: "r = Sub_err err"
      using assms(1)[unfolded e] assms(2) by (auto simp: Let_def Option.bind_eq_Some_conv split: option.splits sum.splits)
    have "urb_dev (urbs (upd_priv u (portable_update (\<lambda>_. px)) (s1\<lparr>hcd_dma := dm\<rparr>)) u) = Some dv"
      using s1(2) by (simp add: upd_priv_def upd_urb_def)
    then show ?thesis using r s1(1) by (simp add: t rm_priv_acct) (simp add: upd_priv_def upd_urb_def)
  qed
qed

text \<open>How a submission ends.\<close>

lemma if_someE: "(if b then x else y) = Some t \<Longrightarrow> (b \<Longrightarrow> x = Some t \<Longrightarrow> R) \<Longrightarrow> (\<not> b \<Longrightarrow> y = Some t \<Longrightarrow> R) \<Longrightarrow> R"
  by (cases b) auto

definition iso_reset :: "henv \<Rightarrow> addr \<Rightarrow> u32 \<Rightarrow> hcd \<Rightarrow> hcd" where
  "iso_reset K u pipe s =
     (if usb_pipetype K pipe = macro K PIPE_ISOCHRONOUS then upd_urb u (\<lambda>w. w\<lparr>iso_frame_desc := reset_packets w\<rparr>) s else s)"

definition fresh_priv :: "desc \<Rightarrow> int \<Rightarrow> urb_priv" where
  "fresh_priv e n = \<lparr>p_ed = e, p_length = word_of_int n, td_cnt = 0, p_state = 0,
     portable = \<lparr>px_transfer_buffer = 0, px_setup_packet = 0\<rparr>, p_td = replicate (nat n) 0\<rparr>"

lemma submit_cases:
  assumes "sohci_submit_urb K a u s = Some (r, t)"
  obtains (reject) "r = Sub_err EINVAL" "t = s"
  | (hub) "hcpriv (urbs s u) = None" "submit_to_hub K a u (usb_inc_dev_use u s) = Some (r, t)"
  | (hung) "hcpriv (urbs s u) = None" "r = Sub_shutdown" "t = usb_inc_dev_use u s" "disabled s \<noteq> 0"
  | (no_ed) s2 where "hcpriv (urbs s u) = None" "add_ed K (si_dummy a) u (usb_inc_dev_use u s) = Some (0, s2)"
      "r = Sub_err ENOMEM" "t = usb_dec_dev_use u s2"
  | (no_priv) e s2 where "hcpriv (urbs s u) = None" "add_ed K (si_dummy a) u (usb_inc_dev_use u s) = Some (e, s2)" "e \<noteq> 0"
      "r = Sub_err ENOMEM" "t = usb_dec_dev_use u (iso_reset K u (urb_pipe (urbs s u)) s2)"
  | (no_td) e s2 s5 where "hcpriv (urbs s u) = None" "add_ed K (si_dummy a) u (usb_inc_dev_use u s) = Some (e, s2)" "e \<noteq> 0"
      "alloc_tds K (si_tds a) u [0..<nat (urb_size K (urbs s u))] (upd_urb u (hcpriv_update (\<lambda>_. Some (fresh_priv e (urb_size K (urbs s u)))))
         (iso_reset K u (urb_pipe (urbs s u)) s2)) = Some (False, s5)"
      "r = Sub_err ENOMEM" "t = urb_rm_priv K u (usb_dec_dev_use u s5)"
  | (queued) e s2 s5 where "hcpriv (urbs s u) = None" "add_ed K (si_dummy a) u (usb_inc_dev_use u s) = Some (e, s2)" "e \<noteq> 0"
      "alloc_tds K (si_tds a) u [0..<nat (urb_size K (urbs s u))] (upd_urb u (hcpriv_update (\<lambda>_. Some (fresh_priv e (urb_size K (urbs s u)))))
         (iso_reset K u (urb_pipe (urbs s u)) s2)) = Some (True, s5)"
      "locked (submit_locked K a u e) (event (Dump_submit u) s5) = Some (r, t)"
proof (cases "urb_dev (urbs s u)")
  case None
  then show ?thesis using assms reject by (simp add: sohci_submit_urb_def Let_def)
next
  case (Some dv)
  let ?s1 = "usb_inc_dev_use u s" and ?w = "urbs s u"
  have s1: "rh_devnum ?s1 = rh_devnum s" "disabled ?s1 = disabled s" using Some by (auto simp: dev_use_add_def)
  show ?thesis
  proof (cases "\<not> dev_bus dv \<or> hcpriv ?w \<noteq> None \<or> usb_pipedevice K (urb_pipe ?w) = rh_devnum s \<or> disabled s \<noteq> 0")
    case True
    then consider "r = Sub_err EINVAL \<and> t = s" | "hcpriv ?w = None \<and> submit_to_hub K a u ?s1 = Some (r, t)"
      | "hcpriv ?w = None \<and> r = Sub_shutdown \<and> t = ?s1 \<and> disabled s \<noteq> 0"
      using assms unfolding sohci_submit_urb_def Let_def Some option.case s1
      by (cases "hcpriv ?w") (auto elim!: if_someE)
    then show ?thesis
    proof cases
      case 1
      then show ?thesis using reject by simp
    next
      case 2
      then show ?thesis using hub by simp
    next
      case 3
      then show ?thesis using hung by simp
    qed
  next
    case False
    obtain e s2 where a: "add_ed K (si_dummy a) u ?s1 = Some (e, s2)"
      using assms(1) False Some s1 by (auto simp: sohci_submit_urb_def Let_def Option.bind_eq_Some_conv)
    define n where "n = urb_size K ?w"
    define s3 where "s3 = iso_reset K u (urb_pipe ?w) s2"
    define s4 where "s4 = upd_urb u (hcpriv_update (\<lambda>_. Some (fresh_priv e n))) s3"
    have run: "sohci_submit_urb K a u s =
       (if e = 0 then Some (Sub_err ENOMEM, usb_dec_dev_use u s2)
        else if \<not> si_kmalloc a then Some (Sub_err ENOMEM, usb_dec_dev_use u s3)
        else Option.bind (alloc_tds K (si_tds a) u [0..<nat n] s4) (\<lambda>(allocated, s5).
          if \<not> allocated then Some (Sub_err ENOMEM, urb_rm_priv K u (usb_dec_dev_use u s5))
          else locked (submit_locked K a u e) (event (Dump_submit u) s5)))"
      using False Some a s1
      by (simp add: sohci_submit_urb_def Let_def iso_reset_def[symmetric] fresh_priv_def[symmetric] s3_def[symmetric]
          s4_def[symmetric] n_def[symmetric])
    have p: "hcpriv ?w = None" using False by simp
    consider "e = 0" | "e \<noteq> 0" "\<not> si_kmalloc a"
      | al s5 where "e \<noteq> 0" "si_kmalloc a" "alloc_tds K (si_tds a) u [0..<nat n] s4 = Some (al, s5)"
      using assms run by (auto simp: Option.bind_eq_Some_conv split: if_splits)
    then show ?thesis
    proof cases
      case 1
      then show ?thesis using assms run no_ed[OF p] a by simp
    next
      case 2
      then show ?thesis using assms run no_priv[OF p a] by (simp add: s3_def)
    next
      case 3
      note al = 3(3)[unfolded s4_def s3_def n_def]
      show ?thesis
      proof (cases al)
        case True
        then show ?thesis using assms run 3 queued[OF p a 3(1)] al by simp
      next
        case False
        then show ?thesis using assms run 3 no_td[OF p a 3(1)] al by simp
      qed
    qed
  qed
qed

text \<open>C20. A failed submission leaves no trace in the accounts: whatever error \<open>sohci_submit_urb\<close>
  returns, and wherever it gives up, the URB has a private part afterwards only if it had one before
  the call, and the use count of the device is what it was. The exception is a disabled controller:
  the URB is refused with \<open>-ESHUTDOWN\<close>, but the use count stays raised.\<close>

theorem submit_failure_restores:
  assumes "sohci_submit_urb K a u s = Some (r, t)" "r \<noteq> Sub_ok" "urb_dev (urbs s u) = Some dv"
  shows "(hcpriv (urbs t u) = None \<longleftrightarrow> hcpriv (urbs s u) = None) \<and>
    dev_use t = (if r = Sub_shutdown then (dev_use s)(devnum dv := dev_use s (devnum dv) + 1) else dev_use s) \<and>
    (r = Sub_shutdown \<longrightarrow> disabled s \<noteq> 0)"
proof -
  let ?s1 = "usb_inc_dev_use u s"
  have s1: "urbs ?s1 = urbs s" "dev_use ?s1 = (dev_use s)(devnum dv := dev_use s (devnum dv) + 1)" using assms(3) by simp_all
  have dec: "dev_use (usb_dec_dev_use u q) = dev_use s" if "dev_use q = dev_use ?s1" "urb_dev (urbs q u) = Some dv" for q
    using that s1(2) by (simp add: fun_upd_idem)
  have add: "urbs s2 = urbs s" "dev_use s2 = dev_use ?s1" if "add_ed K (si_dummy a) u ?s1 = Some (e, s2)" for e s2
    using add_ed_acct[OF that] s1 by (simp_all add: same_acct_def)
  have iso: "dev_use (iso_reset K u p q) = dev_use q" "hcpriv (urbs (iso_reset K u p q) v) = hcpriv (urbs q v)"
    "urb_dev (urbs (iso_reset K u p q) v) = urb_dev (urbs q v)" for p q v
    by (simp_all add: iso_reset_def upd_urb_def)
  show ?thesis using assms(1)
  proof (cases rule: submit_cases)
    case hub
    then show ?thesis using assms(2) by (auto simp: submit_to_hub_def Let_def split: sum.splits)
  next
    case (no_ed s2)
    then show ?thesis using add[OF no_ed(2)] dec[of s2] assms(3) by simp
  next
    case (no_priv e s2)
    then show ?thesis using add[OF no_priv(2)] dec[of "iso_reset K u (urb_pipe (urbs s u)) s2"] assms(3) by (simp add: iso)
  next
    case (no_td e s2 s5)
    then have "dev_use s5 = dev_use ?s1" "urb_dev (urbs s5 u) = Some dv"
      using alloc_tds_acct[OF no_td(4)] add[OF no_td(2)] assms(3) by (simp_all add: upd_urb_def iso)
    then show ?thesis using no_td dec[of s5] by (simp add: rm_priv_acct)
  next
    case (queued e s2 s5)
    let ?s6 = "event (Dump_submit u) s5\<lparr>ed_lock := True\<rparr>"
    have s6: "dev_use ?s6 = dev_use ?s1" "urb_dev (urbs ?s6 u) = Some dv"
      using alloc_tds_acct[OF queued(4)] add[OF queued(2)] assms(3) by (simp_all add: event_def upd_urb_def iso)
    obtain t' where t': "submit_locked K a u e ?s6 = Some (r, t')" "t = t'\<lparr>ed_lock := False\<rparr>"
      using queued(5) by (auto simp: locked_def event_def split: if_splits)
    from submit_locked_fails[OF t'(1) assms(2) s6(2)] show ?thesis
      using t'(2) s6(1) s1(2) queued(1) by (simp add: fun_upd_idem)
  qed (use assms s1 in auto)
qed

definition plain_in :: submit_in where
  "plain_in = \<lparr>si_dummy = ok_alloc, si_kmalloc = True, si_tds = (\<lambda>_. ok_alloc), si_data = ok_alloc, si_setup = ok_alloc,
     si_hw = (\<lambda>_ _. 0), si_HZ = 100, si_jiffies = 0, si_string = (\<lambda>_ _. (0, [])), si_datab = replicate 16 0, si_request = None\<rparr>"

definition hung_hcd :: hcd where
  "hung_hcd = bulk_hcd\<lparr>disabled := 1, rh_devnum := 1, urbs := (\<lambda>_. bulk_urb\<lparr>hcpriv := None\<rparr>)\<rparr>"

lemma hung_fields:
  "urb_dev (urbs hung_hcd 1) = Some \<lparr>devnum = 2, dev_bus = True\<rparr>" "hcpriv (urbs hung_hcd 1) = None"
  "dev_use hung_hcd 2 = 1" "disabled hung_hcd = 1" "rh_devnum hung_hcd = 1" "urb_pipe (urbs hung_hcd 1) = 0xC0000000"
  "usb_pipedevice ps2_henv 0xC0000000 = 0"
  by (simp_all add: hung_hcd_def bulk_fields) (simp_all add: bulk_urb_def bulk_hcd_def ohci_ed.defs urb.defs
      ps2_henv_def penv.defs kenv.defs linux_env_def)

theorem submit_failure_restores_witness:
  "\<exists>t. sohci_submit_urb ps2_henv plain_in 1 hung_hcd = Some (Sub_shutdown, t) \<and> hcpriv (urbs t 1) = None \<and> dev_use t 2 = 2"
proof -
  have "sohci_submit_urb ps2_henv plain_in 1 hung_hcd = Some (Sub_shutdown, usb_inc_dev_use 1 hung_hcd)"
    by (simp add: sohci_submit_urb_def Let_def hung_fields) (simp add: dev_use_add_def hung_fields)
  from submit_failure_restores[OF this _ hung_fields(1)] show ?thesis
    using \<open>sohci_submit_urb _ _ _ _ = _\<close> hung_fields by simp
qed

section \<open>A lock that stays held\<close>

lemma submit_needs_lock:
  assumes "ed_lock s" "urb_dev (urbs s u) = Some dv" "dev_bus dv" "hcpriv (urbs s u) = None"
    "usb_pipedevice K (urb_pipe (urbs s u)) \<noteq> rh_devnum s" "disabled s = 0"
  shows "sohci_submit_urb K a u s = None"
  using assms by (simp add: sohci_submit_urb_def Let_def dev_use_add_def add_ed_def)

text \<open>C21. An URB for an endpoint whose removal is pending is refused with \<open>-ENOMEM\<close>, but
  \<open>ep_add_ed\<close> returns without releasing the lock of the endpoint lists. Afterwards no submission
  to any device but the root hub returns.\<close>

theorem submit_pending_deadlock:
  assumes "sohci_submit_urb K a u s = Some (r, t)" "disabled s = 0"
    "urb_dev (urbs s u) = Some dv" "dev_bus dv" "hcpriv (urbs s u) = None"
    "usb_pipedevice K (urb_pipe (urbs s u)) \<noteq> rh_devnum s"
    "state (eds s (dev_eds (devs s (urb_devp (urbs s u))) ! ed_index (penv.truncate K) (urb_pipe (urbs s u)))) AND (ED_DEL OR ED_URB_DEL) \<noteq> 0"
    "urb_dev (urbs t v) = Some dw" "dev_bus dw" "hcpriv (urbs t v) = None"
    "usb_pipedevice K' (urb_pipe (urbs t v)) \<noteq> rh_devnum t"
  shows "r = Sub_err ENOMEM \<and> sohci_submit_urb K' b v t = None"
proof -
  let ?w = "urbs s u" and ?s1 = "usb_inc_dev_use u s"
  let ?e = "dev_eds (devs s (urb_devp ?w)) ! ed_index (penv.truncate K) (urb_pipe ?w)"
  have d: "state (eds s ?e) AND ED_DEL \<noteq> 0 \<or> state (eds s ?e) AND ED_URB_DEL \<noteq> 0"
    using assms(7) unfolding bit.conj_disj_distrib or_eq_0_iff by blast
  then have n: "state (eds s ?e) \<noteq> ED_NEW" by auto
  have s1: "eds ?s1 = eds s" "devs ?s1 = devs s" "urbs ?s1 = urbs s" "ed_lock ?s1 = ed_lock s" "disabled ?s1 = disabled s"
    "rh_devnum ?s1 = rh_devnum s"
    using assms(3) by (simp_all add: dev_use_add_def)
  have l: "\<not> ed_lock s"
    using assms(1) submit_needs_lock[OF _ assms(3,4,5,6,2)] by auto
  have a: "add_ed K (si_dummy a) u ?s1 = Some (0, ?s1\<lparr>ed_lock := True\<rparr>)"
    using n d l by (auto simp: add_ed_def Let_def ep_add_ed_cases s1)
  have t: "r = Sub_err ENOMEM" "t = usb_dec_dev_use u (?s1\<lparr>ed_lock := True\<rparr>)"
    using assms(1,2,3,4,5,6) a by (auto simp: sohci_submit_urb_def Let_def s1)
  have "ed_lock t" "disabled t = 0" using t(2) assms(2,3) by (auto simp: dev_use_add_def s1)
  from submit_needs_lock[OF this(1) assms(8,9,10,11) this(2)] show ?thesis using t by simp
qed

definition stuck_hcd :: hcd where
  "stuck_hcd = hung_hcd\<lparr>disabled := 0, eds := (\<lambda>_. ed0\<lparr>state := ED_URB_DEL\<rparr>)\<rparr>"

lemma stuck_fields:
  "urb_dev (urbs stuck_hcd u) = Some \<lparr>devnum = 2, dev_bus = True\<rparr>" "hcpriv (urbs stuck_hcd u) = None"
  "disabled stuck_hcd = 0" "rh_devnum stuck_hcd = 1" "urb_pipe (urbs stuck_hcd u) = 0xC0000000" "state (eds stuck_hcd e) = ED_URB_DEL"
  "ed_lock stuck_hcd = False"
  by (simp_all add: stuck_hcd_def hung_hcd_def) (simp_all add: bulk_urb_def bulk_hcd_def idle_hc_def ohci_ed.defs ohci.defs urb.defs)

theorem submit_pending_deadlock_witness:
  "\<exists>t. sohci_submit_urb ps2_henv plain_in 1 stuck_hcd = Some (Sub_err ENOMEM, t) \<and>
     sohci_submit_urb ps2_henv plain_in 3 t = None"
proof -
  let ?s = "usb_inc_dev_use 1 stuck_hcd"
  let ?t = "usb_dec_dev_use 1 (?s\<lparr>ed_lock := True\<rparr>)"
  have s: "urbs ?s = urbs stuck_hcd" "eds ?s = eds stuck_hcd" "rh_devnum ?s = 1" "disabled ?s = 0" "ed_lock ?s = False"
    by (simp_all add: dev_use_add_def stuck_fields)
  have "add_ed ps2_henv (si_dummy plain_in) 1 ?s = Some (0, ?s\<lparr>ed_lock := True\<rparr>)"
    by (simp add: add_ed_def Let_def ep_add_ed_cases s stuck_fields)
  then have a: "sohci_submit_urb ps2_henv plain_in 1 stuck_hcd = Some (Sub_err ENOMEM, ?t)"
    by (simp add: sohci_submit_urb_def Let_def stuck_fields hung_fields s)
  have t: "urbs ?t = urbs stuck_hcd" "rh_devnum ?t = 1" by (simp_all add: dev_use_add_def stuck_fields)
  show ?thesis
    using a submit_pending_deadlock[OF a, of "\<lparr>devnum = 2, dev_bus = True\<rparr>" 3 "\<lparr>devnum = 2, dev_bus = True\<rparr>" ps2_henv plain_in]
    by (simp add: stuck_fields hung_fields t)
qed

end
