(* ===== verification/Hc_Control.thy ===== *)
theory Hc_Control
  imports Root_Hub
begin

text \<open>
  Starting, stopping and power management of a controller (the ``HC functions'' of
  \<open>portable-ohci-core.c\<close>, without the interrupt handler). The calls into the USB stack, the
  interrupt and power management code and the dumper are recorded in \<open>hcalls\<close>, in order; their
  answers are parameters. \<open>driver\<close> is the module's state: the list \<open>ohci_hcd_list\<close> and the
  controllers by a number that stands for the address of their \<open>struct ohci\<close>.
\<close>

section \<open>State\<close>

datatype hcall =
    Usb_alloc_bus bool | Usb_register_bus | Usb_deregister_bus | Usb_free_bus
  | Usb_alloc_dev bool | Usb_connect | Usb_new_device bool | Usb_free_dev | Usb_disconnect
  | Request_irq int bool | Free_irq int | Pm_register bool | Iounmap
  | Allocate_ohci bool | Free_ohci | Install_dumper | Remove_dumper

record hc = ohci +
  root_hub :: bool
  hcalls :: "hcall list"

definition hcall :: "hcall \<Rightarrow> 'a hc_scheme \<Rightarrow> 'a hc_scheme" where
  "hcall c s = s\<lparr>hcalls := hcalls s @ [c]\<rparr>"

section \<open>Reset\<close>

text \<open>The two polling loops; \<open>k\<close> is the timeout counter. The result tells whether the bit went away.\<close>

function takeover_loop :: "hw \<Rightarrow> nat \<Rightarrow> 'a ohci_scheme \<Rightarrow> bool \<times> 'a ohci_scheme" where
  "takeover_loop hw k s =
     (let (v, s1) = readl hw Control s in
      if v AND OHCI_CTRL_IR = 0 then (True, s1)
      else let s2 = delay 10000 s1 in
        if k \<le> 1 then (False, err_log ''USB HC TakeOver failed!'' s2)
        else takeover_loop hw (k - 1) s2)"
  by pat_completeness auto
termination by (relation "measure (\<lambda>(hw, k, s). k)") auto

declare takeover_loop.simps [simp del]

function reset_loop :: "hw \<Rightarrow> nat \<Rightarrow> 'a ohci_scheme \<Rightarrow> bool \<times> 'a ohci_scheme" where
  "reset_loop hw k s =
     (let (v, s1) = readl hw Cmdstatus s in
      if v AND OHCI_HCR = 0 then (True, s1)
      else if k \<le> 1 then (False, err_log ''USB HC reset timed out!'' s1)
      else reset_loop hw (k - 1) (delay 1 s1))"
  by pat_completeness auto
termination by (relation "measure (\<lambda>(hw, k, s). k)") auto

declare reset_loop.simps [simp del]

text \<open>The result is \<open>True\<close> for 0 and \<open>False\<close> for -1.\<close>

definition hc_reset :: "hw \<Rightarrow> 'a ohci_scheme \<Rightarrow> bool \<times> 'a ohci_scheme" where
  "hc_reset hw s =
     (let (v, s1) = readl hw Control s;
          (taken, s2) = (if v AND OHCI_CTRL_IR \<noteq> 0
                         then takeover_loop hw 50 (writel OHCI_OCR Cmdstatus s1) else (True, s1)) in
      if \<not> taken then (False, s2)
      else let (finished, s3) = reset_loop hw 30 (writel OHCI_HCR Cmdstatus (writel 0 Control
                 (writel OHCI_INTR_MIE Intrdisable s2))) in
        if finished then (True, s3\<lparr>disabled := 0\<rparr>) else (False, s3))"

section \<open>Start\<close>

text \<open>\<open>hcca\<close> is the bus address of the communications area; \<open>dev_ok\<close> and \<open>new_ok\<close> are whether
  \<open>usb_alloc_dev\<close> and \<open>usb_new_device\<close> succeed.\<close>

definition hc_start :: "hw \<Rightarrow> u32 \<Rightarrow> bool \<Rightarrow> bool \<Rightarrow> 'a hc_scheme \<Rightarrow> errno option \<times> 'a hc_scheme" where
  "hc_start hw hcca dev_ok new_ok s =
     (let s1 = writel hcca Hcca_addr (writel 0 Ed_bulkhead (writel 0 Ed_controlhead s));
          fminterval = 0x2edf :: u32;
          s2 = writel ((fminterval * 9) div 10) Periodicstart s1;
          fminterval = fminterval OR push_bit 16 (((fminterval - 210) * 6) div 7);
          s3 = writel 0x628 Lsthresh (writel fminterval Fminterval s2);
          s4 = s3\<lparr>hc_control := OHCI_CONTROL_INIT OR OHCI_USB_OPER\<rparr>;
          s5 = writel (hc_control s4) Control s4;
          mask = OHCI_INTR_MIE OR OHCI_INTR_UE OR OHCI_INTR_WDH OR OHCI_INTR_SO;
          s6 = writel mask Intrstatus (writel mask Intrenable s5);
          (a, s7) = readl hw Rh_a s6;
          s8 = writel RH_HS_LPSC Rh_status (writel ((a OR RH_A_NPS) AND NOT RH_A_PSM) Rh_a s7);
          (a2, s9) = readl hw Rh_a s8;
          s10 = (delay (1000 * unat (drop_bit 23 a2 AND 0x1fe)) s9)\<lparr>rh_devnum := 0\<rparr>;
          s11 = hcall (Usb_alloc_dev dev_ok) s10 in
      if \<not> dev_ok then (Some ENOMEM, s11)
      else let s12 = hcall (Usb_new_device new_ok) (hcall Usb_connect (s11\<lparr>root_hub := True\<rparr>)) in
        if \<not> new_ok then (Some ENODEV, hcall Usb_free_dev s12) else (None, s12))"

definition hc_reinit_ohci :: "'a ohci_scheme \<Rightarrow> 'a ohci_scheme" where
  "hc_reinit_ohci s = s\<lparr>ohci_int_load := replicate N_INTS 0, int_table := replicate N_INTS 0,
     ed_rm_list := [0, 0], ed_isotail := 0, ed_controltail := 0, ed_bulktail := 0\<rparr>"

text \<open>The \<open>struct ohci\<close> of a new controller, or \<open>None\<close>.\<close>

definition hc_alloc_ohci :: "bool \<Rightarrow> bool \<Rightarrow> hc option" where
  "hc_alloc_ohci mem_ok bus_ok =
     (if mem_ok \<and> bus_ok
      then Some (ohci.extend ohci_zero \<lparr>root_hub = False, hcalls = [Allocate_ohci True, Usb_alloc_bus True]\<rparr>)
      else None)"

definition hc_release_ohci :: "hw \<Rightarrow> 'a hc_scheme \<Rightarrow> 'a hc_scheme" where
  "hc_release_ohci hw s0 =
     (let s1 = (if root_hub s0 then (hcall Usb_disconnect s0)\<lparr>root_hub := False\<rparr> else s0);
          s2 = snd (hc_reset hw s1);
          s3 = delay 10000 (writel OHCI_USB_RESET Control s2);
          s4 = (if 0 \<le> irq s3 then (hcall (Free_irq (irq s3)) s3)\<lparr>irq := -1\<rparr> else s3) in
      hcall Remove_dumper (hcall Free_ohci (hcall Iounmap (hcall Usb_free_bus (hcall Usb_deregister_bus s4)))))"

section \<open>The module\<close>

datatype driver_err = Use_after_free

record driver =
  hcd_list :: "nat list"
  hcs :: "nat \<Rightarrow> hc option"
  freed :: "nat set"

definition driver_init :: driver where
  "driver_init = \<lparr>hcd_list = [], hcs = Map.empty, freed = {}\<rparr>"

text \<open>What the platform and the kernel answer when a controller is found.\<close>

record found_in =
  in_irq :: int
  in_mem :: bool
  in_bus :: bool
  in_irq_ok :: bool
  in_dev :: bool
  in_new :: bool
  in_pm :: bool
  in_hcca :: u32

text \<open>The new controller is number \<open>n\<close>.\<close>

definition release_nth :: "hw \<Rightarrow> nat \<Rightarrow> hc \<Rightarrow> driver \<Rightarrow> driver" where
  "release_nth hw n h d = d\<lparr>hcs := (hcs d)(n \<mapsto> hc_release_ohci hw h), freed := insert n (freed d)\<rparr>"

definition hc_found_ohci :: "hw \<Rightarrow> found_in \<Rightarrow> nat \<Rightarrow> driver \<Rightarrow> errno option \<times> driver" where
  "hc_found_ohci hw a n d =
     (case hc_alloc_ohci (in_mem a) (in_bus a) of
        None \<Rightarrow> (Some ENOMEM, d)
      | Some h0 \<Rightarrow>
          let d1 = d\<lparr>hcd_list := n # hcd_list d\<rparr>;
              (reset_ok, h1) = hc_reset hw h0 in
          if \<not> reset_ok then (Some ENODEV, release_nth hw n h1 d1)
          else let h2 = h1\<lparr>hc_control := OHCI_USB_RESET\<rparr>;
                   h3 = hcall Usb_register_bus (delay 10000 (writel (hc_control h2) Control h2));
                   h4 = hcall (Request_irq (in_irq a) (in_irq_ok a)) h3 in
            if in_irq_ok a
            then let h5 = snd (hc_start hw (in_hcca a) (in_dev a) (in_new a) (h4\<lparr>irq := in_irq a\<rparr>));
                     h6 = hcall Install_dumper (hcall (Pm_register (in_pm a)) h5) in
              (None, d1\<lparr>hcs := (hcs d1)(n \<mapsto> h6)\<rparr>)
            else (Some EBUSY, release_nth hw n (err_log ''request interrupt failed'' h4) d1))"

text \<open>Unloading the module: every controller on the list is released. A controller that has been
  freed before is not there any more.\<close>

fun cleanup_list :: "hw \<Rightarrow> nat list \<Rightarrow> driver \<Rightarrow> driver_err + driver" where
  "cleanup_list hw [] d = Inr d"
| "cleanup_list hw (n # ns) d =
     (case hcs d n of
        None \<Rightarrow> Inl Use_after_free
      | Some h \<Rightarrow>
          if n \<in> freed d then Inl Use_after_free
          else cleanup_list hw ns (release_nth hw n h (d\<lparr>hcd_list := ns\<rparr>)))"

definition ohci_hcd_cleanup :: "hw \<Rightarrow> driver \<Rightarrow> driver_err + driver" where
  "ohci_hcd_cleanup hw d = cleanup_list hw (hcd_list d) d"

section \<open>Power management\<close>

datatype pm_request = PM_SUSPEND | PM_RESUME | PM_other

definition pm_resume_power :: "hw \<Rightarrow> u32 \<Rightarrow> bool \<Rightarrow> bool \<Rightarrow> 'a hc_scheme \<Rightarrow> 'a hc_scheme" where
  "pm_resume_power hw hcca dev_ok new_ok s0 =
     (let s1 = s0\<lparr>disabled := 1\<rparr>;
          s2 = (if root_hub s1 then (hcall Usb_disconnect s1)\<lparr>root_hub := False\<rparr> else s1);
          (reset_ok, s3) = hc_reset hw (hc_reinit_ohci s2) in
      if \<not> reset_ok then err_log ''can't restart'' (s3\<lparr>disabled := 1\<rparr>)
      else let (e, s4) = hc_start hw hcca dev_ok new_ok s3 in
        if e \<noteq> None then err_log ''can't restart'' (s4\<lparr>disabled := 1\<rparr>) else s4)"

definition handle_pm_event ::
  "hw \<Rightarrow> u32 \<Rightarrow> bool \<Rightarrow> bool \<Rightarrow> pm_request \<Rightarrow> 'a hc_scheme \<Rightarrow> 'a hc_scheme" where
  "handle_pm_event hw hcca dev_ok new_ok rqst s =
     (case rqst of
        PM_SUSPEND \<Rightarrow>
          let s1 = s\<lparr>hc_control := OHCI_USB_SUSPEND\<rparr> in delay 10000 (writel (hc_control s1) Control s1)
      | PM_RESUME \<Rightarrow>
          let (v, s1) = readl hw Control s; s2 = s1\<lparr>hc_control := v\<rparr>; temp = v AND OHCI_CTRL_HCFS in
          if temp = OHCI_USB_RESET then pm_resume_power hw hcca dev_ok new_ok s2
          else if temp = OHCI_USB_SUSPEND \<or> temp = OHCI_USB_RESUME
          then let s3 = s2\<lparr>hc_control := OHCI_USB_RESUME\<rparr>;
                   s4 = delay 20000 (writel (hc_control s3) Control s3);
                   s5 = s4\<lparr>hc_control := OHCI_CONTROL_INIT OR OHCI_USB_OPER\<rparr> in
            writel (hc_control s5) Control s5
          else s2\<lparr>olog := olog s2 @ [Printk KERN_WARNING ''odd PM_RESUME'']\<rparr>
      | PM_other \<Rightarrow> s)"

section \<open>Reset ends\<close>

fun delays :: "io_event list \<Rightarrow> nat" where
  "delays [] = 0"
| "delays (Delay_us n # es) = n + delays es"
| "delays (_ # es) = delays es"

lemma delays_append [simp]: "delays (a @ b) = delays a + delays b"
  by (induction a rule: delays.induct) auto

text \<open>The last value read from a register.\<close>

fun last_read :: "ohci_reg \<Rightarrow> io_event list \<Rightarrow> u32 option" where
  "last_read r [] = None"
| "last_read r (Rd q v # es) = (case last_read r es of Some w \<Rightarrow> Some w | None \<Rightarrow> if q = r then Some v else None)"
| "last_read r (_ # es) = last_read r es"

lemma last_read_append [simp]:
  "last_read r (a @ b) = (case last_read r b of Some w \<Rightarrow> Some w | None \<Rightarrow> last_read r a)"
  by (induction r a rule: last_read.induct) (auto split: option.splits)

lemma io_simps [simp]:
  "io (snd (readl hw r s)) = io s @ [Rd r (hw (io s) r)]" "io (writel v r s) = io s @ [Wr r v]"
  "io (delay n s) = io s @ [Delay_us n]" "io (err_log t s) = io s"
  by (simp_all add: readl_def writel_def delay_def err_log_def Let_def)

lemma takeover_loop_io:
  "takeover_loop hw k s = (b, t) \<Longrightarrow> \<exists>ev. io t = io s @ ev \<and> delays ev \<le> 10000 * max 1 k \<and>
     (b \<longrightarrow> (\<exists>v. last_read Control ev = Some v \<and> v AND OHCI_CTRL_IR = 0)) \<and>
     writes_to Control ev = [] \<and> last_read Cmdstatus ev = None"
proof (induction hw k s rule: takeover_loop.induct)
  case (1 hw k s)
  let ?v = "hw (io s) Control" and ?s1 = "s\<lparr>io := io s @ [Rd Control (hw (io s) Control)]\<rparr>"
  have r: "readl hw Control s = (?v, ?s1)" by (simp add: readl_def Let_def)
  show ?case
  proof (cases "?v AND OHCI_CTRL_IR = 0")
    case True
    then have "b" "t = ?s1" using "1.prems" r by (subst (asm) takeover_loop.simps, simp)+
    with True show ?thesis by (intro exI[of _ "[Rd Control ?v]"]) simp
  next
    case False
    show ?thesis
    proof (cases "k \<le> 1")
      case True
      then have "\<not> b" "t = err_log ''USB HC TakeOver failed!'' (delay 10000 ?s1)"
        using "1.prems" r False by (subst (asm) takeover_loop.simps, simp)+
      then show ?thesis by (intro exI[of _ "[Rd Control ?v, Delay_us 10000]"]) simp
    next
      case k: False
      then have "takeover_loop hw (k - 1) (delay 10000 ?s1) = (b, t)"
        using "1.prems" r False by (subst (asm) takeover_loop.simps) simp
      with "1.IH"[OF r[symmetric] _ False _ k] obtain ev where ev: "io t = io (delay 10000 ?s1) @ ev"
        "delays ev \<le> 10000 * max 1 (k - 1)" "b \<longrightarrow> (\<exists>v. last_read Control ev = Some v \<and> v AND OHCI_CTRL_IR = 0)"
        "writes_to Control ev = []" "last_read Cmdstatus ev = None"
        by blast
      then show ?thesis using k
        by (intro exI[of _ "Rd Control ?v # Delay_us 10000 # ev"]) (auto split: option.splits)
    qed
  qed
qed

lemma reset_loop_io:
  "reset_loop hw k s = (b, t) \<Longrightarrow> \<exists>ev. io t = io s @ ev \<and> delays ev + 1 \<le> max 1 k \<and>
     (b \<longrightarrow> (\<exists>v. last_read Cmdstatus ev = Some v \<and> v AND OHCI_HCR = 0)) \<and>
     writes_to Control ev = [] \<and> last_read Control ev = None"
proof (induction hw k s rule: reset_loop.induct)
  case (1 hw k s)
  let ?v = "hw (io s) Cmdstatus" and ?s1 = "s\<lparr>io := io s @ [Rd Cmdstatus (hw (io s) Cmdstatus)]\<rparr>"
  have r: "readl hw Cmdstatus s = (?v, ?s1)" by (simp add: readl_def Let_def)
  consider "?v AND OHCI_HCR = 0" | "?v AND OHCI_HCR \<noteq> 0" "k \<le> 1" | "?v AND OHCI_HCR \<noteq> 0" "\<not> k \<le> 1" by blast
  then show ?case
  proof cases
    case 1
    then have "b" "t = ?s1" using "1.prems" r by (subst (asm) reset_loop.simps, simp)+
    with 1 show ?thesis by (intro exI[of _ "[Rd Cmdstatus ?v]"]) simp
  next
    case 2
    then have "\<not> b" "t = err_log ''USB HC reset timed out!'' ?s1"
      using "1.prems" r by (subst (asm) reset_loop.simps, simp)+
    then show ?thesis by (intro exI[of _ "[Rd Cmdstatus ?v]"]) simp
  next
    case 3
    then have "reset_loop hw (k - 1) (delay 1 ?s1) = (b, t)"
      using "1.prems" r by (subst (asm) reset_loop.simps) simp
    with "1.IH"[OF r[symmetric] _ 3] obtain ev where ev: "io t = io (delay 1 ?s1) @ ev"
      "delays ev + 1 \<le> max 1 (k - 1)" "b \<longrightarrow> (\<exists>v. last_read Cmdstatus ev = Some v \<and> v AND OHCI_HCR = 0)"
      "writes_to Control ev = []" "last_read Control ev = None"
      by blast
    then show ?thesis using 3(2)
      by (intro exI[of _ "Rd Cmdstatus ?v # Delay_us 1 # ev"]) (auto split: option.splits)
  qed
qed

text \<open>The first part: taking the controller over.\<close>

lemma takeover_io:
  assumes "readl hw Control s = (v, r)"
    and "(if v AND OHCI_CTRL_IR \<noteq> 0 then takeover_loop hw 50 (writel OHCI_OCR Cmdstatus r) else (True, r)) = (taken, t)"
  shows "\<exists>ev. io t = io s @ ev \<and> delays ev \<le> 500000 \<and>
      (taken \<longrightarrow> (\<exists>v. last_read Control ev = Some v \<and> v AND OHCI_CTRL_IR = 0)) \<and> writes_to Control ev = []"
proof -
  have r: "io r = io s @ [Rd Control v]" using assms(1) by (auto simp: readl_def Let_def)
  show ?thesis
  proof (cases "v AND OHCI_CTRL_IR \<noteq> 0")
    case True
    then have "takeover_loop hw 50 (writel OHCI_OCR Cmdstatus r) = (taken, t)" using assms(2) by simp
    from takeover_loop_io[OF this] obtain ev where "io t = io (writel OHCI_OCR Cmdstatus r) @ ev"
      "delays ev \<le> 10000 * max 1 50" "taken \<longrightarrow> (\<exists>v. last_read Control ev = Some v \<and> v AND OHCI_CTRL_IR = 0)"
      "writes_to Control ev = []" by blast
    then show ?thesis using r by (intro exI[of _ "Rd Control v # Wr Cmdstatus OHCI_OCR # ev"]) (auto split: option.splits)
  next
    case False
    then show ?thesis using assms(2) r by (intro exI[of _ "[Rd Control v]"]) auto
  qed
qed

text \<open>C30. \<open>hc_reset\<close> always returns, whatever the controller answers: it spends at most half a
  second waiting for the ownership and 29 microseconds for the reset. It reports success only
  when the last value it read of the control register, if system management owned the controller,
  had the routing bit clear, and the last it read of the command register the reset bit; it then
  has written exactly one 0 to the control register and the controller counts as working.\<close>

theorem hc_reset_bounded:
  assumes "hc_reset hw s = (success, t)"
  shows "\<exists>ev. io t = io s @ ev \<and> delays ev \<le> 500029 \<and>
    (success \<longrightarrow> (\<exists>v w. last_read Control ev = Some v \<and> v AND OHCI_CTRL_IR = 0 \<and>
       last_read Cmdstatus ev = Some w \<and> w AND OHCI_HCR = 0) \<and>
       writes_to Control ev = [0] \<and> disabled t = 0)"
proof -
  obtain v r where r: "readl hw Control s = (v, r)" by fastforce
  obtain taken s2 where taken: "(if v AND OHCI_CTRL_IR \<noteq> 0
      then takeover_loop hw 50 (writel OHCI_OCR Cmdstatus r) else (True, r)) = (taken, s2)" by fastforce
  from takeover_io[OF r taken]
  obtain ev1 where ev1: "io s2 = io s @ ev1" "delays ev1 \<le> 500000"
    "taken \<longrightarrow> (\<exists>v. last_read Control ev1 = Some v \<and> v AND OHCI_CTRL_IR = 0)" "writes_to Control ev1 = []" by blast
  have e: "hc_reset hw s = (if \<not> taken then (False, s2)
      else let (finished, s3) = reset_loop hw 30 (writel OHCI_HCR Cmdstatus (writel 0 Control
                 (writel OHCI_INTR_MIE Intrdisable s2))) in
        if finished then (True, s3\<lparr>disabled := 0\<rparr>) else (False, s3))"
    unfolding hc_reset_def r Let_def prod.case taken ..
  show ?thesis
  proof (cases taken)
    case False
    then show ?thesis using assms e ev1 by (intro exI[of _ ev1]) simp
  next
    case True
    let ?s3 = "writel OHCI_HCR Cmdstatus (writel 0 Control (writel OHCI_INTR_MIE Intrdisable s2))"
    obtain b s3 where b: "reset_loop hw 30 ?s3 = (b, s3)" by fastforce
    from reset_loop_io[OF this] obtain ev2 where ev2: "io s3 = io ?s3 @ ev2" "delays ev2 + 1 \<le> max 1 30"
      "b \<longrightarrow> (\<exists>v. last_read Cmdstatus ev2 = Some v \<and> v AND OHCI_HCR = 0)" "writes_to Control ev2 = []"
      "last_read Control ev2 = None" by blast
    have "success = b" "io t = io s3" "b \<longrightarrow> disabled t = 0"
      using assms unfolding e using True b by (auto split: if_splits)
    with ev1 ev2 True show ?thesis
      by (intro exI[of _ "ev1 @ [Wr Intrdisable OHCI_INTR_MIE, Wr Control 0, Wr Cmdstatus OHCI_HCR] @ ev2"])
        (auto split: option.splits)
  qed
qed

theorem hc_reset_bounded_witness:
  "\<exists>ev. io (snd (hc_reset (\<lambda>_ _. 0) ohci_zero)) = ev \<and> writes_to Control ev = [0]"
proof -
  have "hc_reset (\<lambda>_ _. 0) ohci_zero = (True, snd (hc_reset (\<lambda>_ _. 0) ohci_zero))"
    by (simp add: hc_reset_def readl_def Let_def reset_loop.simps)
  from hc_reset_bounded[OF this] show ?thesis by (auto simp: ohci_zero_def)
qed

section \<open>Failing to start\<close>

text \<open>When a found controller cannot be reset or gets no interrupt, \<open>hc_found_ohci\<close> releases
  it and reports the error, but leaves it on \<open>ohci_hcd_list\<close>: unloading the module later walks
  into the freed \<open>struct ohci\<close>. (The release ends with \<open>SideDumper_RemoveDumper\<close>; with the
  dumper not installed that call does not even return.)\<close>

theorem hc_found_ohci_dangling:
  assumes "hc_found_ohci hw a n d = (Some e, d')" "e \<noteq> ENOMEM" "n \<notin> freed d"
  shows "n \<in> freed d' \<and> hcd_list d' = n # hcd_list d \<and> ohci_hcd_cleanup hw2 d' = Inl Use_after_free"
proof -
  have "n \<in> freed d'" "hcd_list d' = n # hcd_list d" "hcs d' n \<noteq> None"
    using assms by (auto simp: hc_found_ohci_def release_nth_def Let_def split: option.splits prod.splits if_splits)
  then show ?thesis by (auto simp: ohci_hcd_cleanup_def)
qed

definition no_irq :: found_in where
  "no_irq = \<lparr>in_irq = 5, in_mem = True, in_bus = True, in_irq_ok = False, in_dev = True, in_new = True,
     in_pm = True, in_hcca = 0x100\<rparr>"

theorem hc_found_ohci_dangling_witness:
  "ohci_hcd_cleanup (\<lambda>_ _. 0) (snd (hc_found_ohci (\<lambda>_ _. 0) no_irq 1 driver_init)) = Inl Use_after_free"
proof -
  have "hc_found_ohci (\<lambda>_ _. 0) no_irq 1 driver_init =
      (Some EBUSY, snd (hc_found_ohci (\<lambda>_ _. 0) no_irq 1 driver_init))"
    by (simp add: hc_found_ohci_def no_irq_def hc_alloc_ohci_def hc_reset_def readl_def Let_def reset_loop.simps
        driver_init_def split: prod.splits)
  from hc_found_ohci_dangling[OF this] show ?thesis by (simp add: driver_init_def)
qed

end
