(* ===== verification/Driver_Frame.thy ===== *)
theory Driver_Frame
  imports Submit Machine Hc_Control
begin

text \<open>
  What the operations of the driver do to the parts that own something: the private parts of the
  URBs, the state and the tail of an endpoint, the allocator, the lengths of the tables, the lock.
  Most steps leave all of these alone (\<open>neutral\<close>). The locale \<open>driver_relation\<close> is the contract of a
  relation between states that the remaining few steps respect; then all operations do.
\<close>

section \<open>Neutral steps\<close>

definition view_priv :: "urb_priv \<Rightarrow> desc \<times> u16 \<times> desc list \<times> px" where
  "view_priv p = (p_ed p, p_length p, p_td p, portable p)"

definition neutral :: "hcd \<Rightarrow> hcd \<Rightarrow> bool" where
  "neutral s t \<longleftrightarrow> length (int_table t) = length (int_table s) \<and> length (ohci_int_load t) = length (ohci_int_load s) \<and>
     length (ed_rm_list t) = length (ed_rm_list s) \<and> ed_lock t = ed_lock s \<and>
     (\<forall>e. state (eds t e) = state (eds s e) \<and> hwTailP (eds t e) = hwTailP (eds s e)) \<and>
     (\<forall>u. map_option view_priv (hcpriv (urbs t u)) = map_option view_priv (hcpriv (urbs s u))) \<and>
     dma_lm (hcd_dma t) = dma_lm (hcd_dma s)"

lemma neutral_sym: "neutral s t \<Longrightarrow> neutral t s"
  by (simp add: neutral_def)

lemma neutral_trans: "neutral s t \<Longrightarrow> neutral t r \<Longrightarrow> neutral s r"
  by (simp add: neutral_def)

lemma neutral_to: "neutral t r \<Longrightarrow> neutral s t \<Longrightarrow> neutral s r"
  by (rule neutral_trans)

lemma neutral_state: "neutral s t \<Longrightarrow> state (eds t e) = state (eds s e)"
  by (simp add: neutral_def)

lemma if_either: "(if b then x else y) = Some t \<Longrightarrow> (x = Some t \<Longrightarrow> R) \<Longrightarrow> (y = Some t \<Longrightarrow> R) \<Longrightarrow> R"
  by (cases b) auto

named_theorems neutral_simps

lemma neutral_basic [neutral_simps]:
  "neutral s s"
  "neutral r (if b then s else q) = (if b then neutral r s else neutral r q)"
  "neutral r (writel v x s) = neutral r s"
  "neutral r (delay n s) = neutral r s"
  "neutral r (err_log m s) = neutral r s"
  "neutral r (event ev s) = neutral r s"
  "neutral r (complete_urb u s) = neutral r s"
  "neutral r (upd_td d f s) = neutral r s"
  "neutral r (s\<lparr>hc_control := c\<rparr>) = neutral r s"
  "neutral r (s\<lparr>done_head := c\<rparr>) = neutral r s"
  "neutral r (s\<lparr>dev_use := du\<rparr>) = neutral r s"
  "neutral r (s\<lparr>devs := ds\<rparr>) = neutral r s"
  "neutral r (s\<lparr>dev_priv := dp\<rparr>) = neutral r s"
  "neutral r (s\<lparr>dev_table := dt\<rparr>) = neutral r s"
  "neutral r (s\<lparr>halts := hs\<rparr>) = neutral r s"
  "neutral r (s\<lparr>toggles := ts\<rparr>) = neutral r s"
  "neutral r (s\<lparr>disabled := n\<rparr>) = neutral r s"
  "neutral r (s\<lparr>ed_bulktail := e\<rparr>) = neutral r s"
  "neutral r (s\<lparr>ed_controltail := e\<rparr>) = neutral r s"
  "neutral r (s\<lparr>ed_isotail := e\<rparr>) = neutral r s"
  "neutral r (s\<lparr>rh_devnum := c\<rparr>) = neutral r s"
  "neutral r (s\<lparr>rh_urb := u\<rparr>) = neutral r s"
  "neutral r (s\<lparr>rh_send := b\<rparr>) = neutral r s"
  "neutral r (s\<lparr>rh_interval := c\<rparr>) = neutral r s"
  "neutral r (s\<lparr>rh_timer := tm\<rparr>) = neutral r s"
  by (simp_all add: neutral_def writel_def delay_def err_log_def event_def complete_urb_def upd_td_def)

lemma neutral_readl [neutral_simps]:
  "neutral r (snd (readl hw x s)) = neutral r s"
  "readl hw x s = (v, t) \<Longrightarrow> neutral r t = neutral r s"
  by (auto simp: neutral_def readl_def Let_def)

lemma tables_simps [neutral_simps]:
  "int_table (writel v x s) = int_table s" "int_table (upd_ed e f s) = int_table s"
  "ohci_int_load (writel v x s) = ohci_int_load s" "ohci_int_load (upd_ed e f s) = ohci_int_load s"
  "ed_rm_list (writel v x s) = ed_rm_list s" "ed_rm_list (upd_ed e f s) = ed_rm_list s"
  by (simp_all add: writel_def upd_ed_def)

lemma neutral_tables [neutral_simps]:
  "length l = length (int_table s) \<Longrightarrow> neutral r (s\<lparr>int_table := l\<rparr>) = neutral r s"
  "length l' = length (ohci_int_load s) \<Longrightarrow> neutral r (s\<lparr>ohci_int_load := l'\<rparr>) = neutral r s"
  "length l = length (ed_rm_list s) \<Longrightarrow> neutral r (s\<lparr>ed_rm_list := l\<rparr>) = neutral r s"
  by (auto simp: neutral_def)

lemma neutral_upd [neutral_simps]:
  "(\<And>d. state (g d) = state d) \<Longrightarrow> (\<And>d. hwTailP (g d) = hwTailP d) \<Longrightarrow> neutral r (upd_ed e g s) = neutral r s"
  "(\<And>w. hcpriv (f w) = hcpriv w) \<Longrightarrow> neutral r (upd_urb u f s) = neutral r s"
  "(\<And>p. view_priv (h p) = view_priv p) \<Longrightarrow> neutral r (upd_priv u h s) = neutral r s"
  by (auto simp: neutral_def upd_ed_def upd_urb_def upd_priv_def option.map_comp comp_def cong: option.map_cong)

lemma neutral_view [neutral_simps]: "view_priv (td_cnt_update f p) = view_priv p" "view_priv (p_state_update g p) = view_priv p"
  by (simp_all add: view_priv_def)

lemma neutral_dma [neutral_simps]: "dma_lm d = dma_lm (hcd_dma s) \<Longrightarrow> neutral r (s\<lparr>hcd_dma := d\<rparr>) = neutral r s"
  by (simp add: neutral_def)

lemma neutral_use [neutral_simps]: "neutral r (dev_use_add n u s) = neutral r s"
  by (auto simp: dev_use_add_def neutral_simps split: option.splits)

section \<open>Endpoint lists\<close>

lemma neutral_write_ptr [neutral_simps]: "neutral r (write_ptr p v s) = neutral r s"
  by (cases p) (simp_all add: neutral_simps)

lemma length_add_load [simp]: "length (add_load interval i ld l) = length l"
  by (induction interval i ld l rule: add_load.induct) (subst add_load.simps, simp)

lemma neutral_link_int: "link_int e interval branch i s = Some t \<Longrightarrow> neutral s t"
  apply (erule link_int.raw_induct[of "\<lambda>e interval branch i s t. neutral s t", rotated])
  subgoal premises p for rec
    using p(2) by (auto simp: Option.bind_eq_Some_conv neutral_simps split: if_splits dest!: p(1) elim!: neutral_to)
  done

lemma neutral_link_iso: "link_iso e i s = Some t \<Longrightarrow> neutral s t"
  apply (erule link_iso.raw_induct[of "\<lambda>e i s t. neutral s t", rotated])
  subgoal premises p for rec
    using p(2) by (auto simp: Option.bind_eq_Some_conv neutral_simps split: if_splits dest!: p(1) elim!: neutral_to)
  done

lemma neutral_unlink_walk: "unlink_walk e p k s = Some y \<Longrightarrow> neutral s (snd y)"
  apply (erule unlink_walk.raw_induct[of "\<lambda>e p k s y. neutral s (snd y)", rotated])
  subgoal premises p for rec
    using p(2) by (auto simp: Let_def neutral_simps split: if_splits dest!: p(1) elim!: neutral_to)
  done

lemma neutral_unlink_int: "unlink_int e interval branch i s = Some t \<Longrightarrow> neutral s t"
  apply (erule unlink_int.raw_induct[of "\<lambda>e interval branch i s t. neutral s t", rotated])
  subgoal premises p for rec
    using p(2) by (auto simp: Option.bind_eq_Some_conv neutral_simps split: if_splits dest!: p(1) neutral_unlink_walk elim!: neutral_to)
  done

lemma neutral_unlink_iso_walk: "unlink_iso_walk e p s = Some t \<Longrightarrow> neutral s t"
  apply (erule unlink_iso_walk.raw_induct[of "\<lambda>e p s t. neutral s t", rotated])
  subgoal premises p for rec
    using p(2) by (auto simp: Let_def neutral_simps split: if_splits dest!: p(1) elim!: neutral_to)
  done

lemma neutral_unlink_iso: "unlink_iso e is s = Some t \<Longrightarrow> neutral s t"
proof (induction "is" arbitrary: s)
  case (Cons i "is")
  from Cons.prems show ?case
    by (auto simp: Option.bind_eq_Some_conv dest!: Cons.IH neutral_unlink_iso_walk elim!: neutral_to)
qed (simp add: neutral_simps)

lemma neutral_unlink_chain: "unlink_chain head tail e s = (e', t) \<Longrightarrow> neutral s t"
  by (auto simp: unlink_chain_def Let_def neutral_simps split: if_splits)

lemma neutral_ep_link:
  assumes "ep_link e s = Some t"
  shows "neutral (upd_ed e (state_update (\<lambda>_. ED_OPER)) s) t"
proof -
  define r where "r = upd_ed e (\<lambda>d. d\<lparr>state := ED_OPER, hwNextED := 0\<rparr>) s"
  have "neutral (upd_ed e (state_update (\<lambda>_. ED_OPER)) s) r" by (simp add: r_def neutral_def upd_ed_def)
  moreover have "neutral r t"
    using assms unfolding ep_link_def ep_int_ballance_def Let_def prod.case r_def[symmetric]
    by (auto simp: link_last_def neutral_simps split: if_splits
        dest!: neutral_link_int neutral_link_iso elim!: neutral_to)
  ultimately show ?thesis by (rule neutral_trans)
qed

lemma neutral_state_upd: "neutral s t \<Longrightarrow> neutral (upd_ed e (state_update (\<lambda>_. c)) s) (upd_ed e (state_update (\<lambda>_. c)) t)"
  by (simp add: neutral_def upd_ed_def)

lemma neutral_ep_unlink:
  assumes "ep_unlink e s = Some t"
  shows "neutral (upd_ed e (state_update (\<lambda>_. ED_UNLINK)) s) t"
  using assms unfolding ep_unlink_def Let_def map_option_eq_Some
  apply (elim exE conjE)
  subgoal premises p for r
    unfolding p(2)[symmetric]
    by (rule neutral_state_upd) (use p(1) in \<open>auto simp: neutral_simps split: if_splits prod.splits
        dest!: neutral_unlink_int neutral_unlink_iso neutral_unlink_chain elim!: neutral_to\<close>)
  done

lemma neutral_ep_rm_ed [neutral_simps]: "neutral r (ep_rm_ed e s) = neutral r s"
  by (auto simp: ep_rm_ed_def Let_def neutral_simps)

section \<open>The hub's timer\<close>

text \<open>The timer of the hub: \<open>rh_int_timer_do\<close> for the URB at \<open>u\<close>, with its stores to the URB and
  its completion, before the timer is set again.\<close>

definition hub_timer :: "henv \<Rightarrow> hw \<Rightarrow> u32 \<Rightarrow> u32 \<Rightarrow> u8 list \<Rightarrow> addr \<Rightarrow> hcd \<Rightarrow> hcd option" where
  "hub_timer K hw HZ jiffies junk u s =
     (let again = (\<lambda>t. rh_init_int_timer HZ jiffies (urb.truncate (urbs t u)) t) in
      if disabled s \<noteq> 0 then Some s
      else if \<not> rh_send s then Some (again s)
      else case rh_send_irq hw junk (urb_transfer_buffer_length (urbs s u)) s of
        Inl _ \<Rightarrow> None
      | Inr (len, bytes, s1) \<Rightarrow>
          if 0 < len
          then (let s2 = upd_urb u (urb_actual_length_update (\<lambda>_. of_nat len))
                     (s1\<lparr>hcd_dma := (hcd_dma s1)\<lparr>dma_mem := store_bytes (urb_transfer_buffer (urbs s u)) bytes (dma_mem (hcd_dma s1))\<rparr>\<rparr>) in
            Some (again (if urb_complete (urbs s u) then call_complete K u s2 else s2)))
          else Some (again s1))"

section \<open>Sleeping\<close>

text \<open>\<open>sohci_unlink_urb\<close> sleeps once or not at all.\<close>

lemma unlink_awake:
  assumes "sohci_unlink_urb K a u s = Some y"
  shows "\<exists>z. sohci_unlink_urb K (a\<lparr>ui_sleep := id\<rparr>) u s = Some z \<and>
     (snd y = snd z \<or> (\<exists>q. neutral q (snd z) \<and> neutral (ui_sleep a q) (snd y)))"
proof -
  let ?a = "a\<lparr>ui_sleep := id\<rparr>" and ?w = "urbs s u"
  have same: ?thesis if "sohci_unlink_urb K ?a u s = sohci_unlink_urb K a u s" using assms that by auto
  show ?thesis
  proof (cases "u \<noteq> 0 \<and> (\<exists>dv. urb_dev ?w = Some dv \<and> dev_bus dv) \<and> usb_pipedevice K (urb_pipe ?w) \<noteq> rh_devnum s \<and>
      hcpriv ?w \<noteq> None \<and> urb_status ?w = EINPROGRESS \<and> disabled s = 0")
    case False
    show ?thesis
      by (rule same) (use False in \<open>auto simp: sohci_unlink_urb_def Let_def split: option.splits\<close>)
  next
    case True
    then obtain p dv where p: "hcpriv ?w = Some p" "urb_dev ?w = Some dv" "dev_bus dv" by auto
    define r where "r = locked (\<lambda>s. Some ((), upd_ed (p_ed p) (\<lambda>d. d\<lparr>state := state d OR ED_URB_DEL\<rparr>) (ep_rm_ed (p_ed p) s)))
               (upd_priv u (p_state_update (\<lambda>_. URB_DEL)) s)"
    show ?thesis
    proof (cases "\<exists>s1. r = Some ((), s1) \<and> urb_transfer_flags ?w AND usb_async_unlink K = 0 \<and> disabled s1 = 0 \<and> \<not> ui_interrupt a")
      case False
      show ?thesis
        by (rule same, use False in \<open>cases r\<close>) (auto simp: sohci_unlink_urb_def Let_def p r_def[simplified, symmetric])
    next
      case sleeps: True
      then obtain s1 where s1: "r = Some ((), s1)" "urb_transfer_flags ?w AND usb_async_unlink K = 0" "disabled s1 = 0" "\<not> ui_interrupt a" by blast
      have "\<exists>z. sohci_unlink_urb K ?a u s = Some z \<and> neutral s1 (snd z) \<and> neutral (ui_sleep a s1) (snd y)"
        using assms True s1 by (auto simp: sohci_unlink_urb_def Let_def p r_def[simplified, symmetric] neutral_simps)
      then show ?thesis by blast
    qed
  qed
qed

section \<open>The contract\<close>

text \<open>A relation that holds of neutral steps, and of the few that are not: the descriptors of an URB
  are freed or take part in its submission, an endpoint changes its state, a completion handler
  runs, the lock is taken and released.\<close>

locale driver_relation =
  fixes K :: henv and R :: "hcd \<Rightarrow> hcd \<Rightarrow> bool"
  assumes R_trans: "R s t \<Longrightarrow> R t r \<Longrightarrow> R s r"
    and R_neutral: "neutral s t \<Longrightarrow> R s t"
    and R_rm_priv: "R s (urb_rm_priv K u s)"
    and R_fill: "td_fill K info data len u i s = Some t \<Longrightarrow> R s t"
    and R_state: "state (eds s e) \<noteq> ED_NEW \<Longrightarrow> c \<in> {ED_UNLINK, ED_OPER} \<Longrightarrow> R s (upd_ed e (state_update (\<lambda>_. c)) s)"
    and R_removing: "hcpriv (urbs s u) = Some p \<Longrightarrow> R s (upd_ed (p_ed p) (\<lambda>d. d\<lparr>state := state d OR ED_URB_DEL\<rparr>) s)"
    and R_del_ed: "R s s1 \<Longrightarrow> R s (del_ed K info (ptr (hwTailP (eds s e))) e s1)"
    and R_complete: "R s (on_complete K u s)"
    and R_lock: "\<not> ed_lock s \<Longrightarrow> R (s\<lparr>ed_lock := True\<rparr>) t \<Longrightarrow> R s (t\<lparr>ed_lock := False\<rparr>)"
begin

lemma R_to: "R t r \<Longrightarrow> R s t \<Longrightarrow> R s r"
  by (rule R_trans)

lemma R_eq: "neutral s t \<Longrightarrow> R r t = R r s"
  using R_trans R_neutral neutral_sym by blast

lemma R_basic [neutral_simps]:
  "R s s"
  "R r (if b then s else q) = (if b then R r s else R r q)"
  "R r (writel v x s) = R r s"
  "R r (delay n s) = R r s"
  "R r (err_log m s) = R r s"
  "R r (event ev s) = R r s"
  "R r (complete_urb u s) = R r s"
  "R r (upd_td d f s) = R r s"
  "R r (s\<lparr>hc_control := c\<rparr>) = R r s"
  "R r (s\<lparr>dev_use := du\<rparr>) = R r s"
  "R r (s\<lparr>done_head := c\<rparr>) = R r s"
  "R r (s\<lparr>devs := ds\<rparr>) = R r s"
  "R r (s\<lparr>dev_priv := dp\<rparr>) = R r s"
  "R r (s\<lparr>halts := hs\<rparr>) = R r s"
  "R r (s\<lparr>toggles := ts\<rparr>) = R r s"
  "R r (s\<lparr>disabled := n\<rparr>) = R r s"
  "R r (s\<lparr>rh_devnum := c\<rparr>) = R r s"
  "R r (s\<lparr>rh_urb := ur\<rparr>) = R r s"
  "R r (s\<lparr>rh_send := b\<rparr>) = R r s"
  "R r (s\<lparr>rh_interval := c\<rparr>) = R r s"
  "R r (s\<lparr>rh_timer := tm\<rparr>) = R r s"
  "R r (snd (readl hw x s)) = R r s"
  "R r (dev_use_add k u s) = R r s"
  "R r (ep_rm_ed e s) = R r s"
  by (simp add: R_neutral neutral_simps) (auto intro!: R_eq simp: neutral_simps)

lemma R_readl [neutral_simps]: "readl hw x s = (v, t) \<Longrightarrow> R r t = R r s"
  by (rule R_eq) (simp add: neutral_simps)

lemma R_upd [neutral_simps]:
  "(\<And>d. state (g d) = state d) \<Longrightarrow> (\<And>d. hwTailP (g d) = hwTailP d) \<Longrightarrow> R r (upd_ed e g s) = R r s"
  "(\<And>w. hcpriv (f w) = hcpriv w) \<Longrightarrow> R r (upd_urb u f s) = R r s"
  "(\<And>p. view_priv (h p) = view_priv p) \<Longrightarrow> R r (upd_priv u h s) = R r s"
  "dma_lm d = dma_lm (hcd_dma s) \<Longrightarrow> R r (s\<lparr>hcd_dma := d\<rparr>) = R r s"
  "length l = length (ed_rm_list s) \<Longrightarrow> R r (s\<lparr>ed_rm_list := l\<rparr>) = R r s"
  by (auto intro!: R_eq simp: neutral_simps)

lemma R_locked:
  assumes "locked f s = Some y" "\<And>s y. f s = Some y \<Longrightarrow> R s (snd y)"
  shows "R s (snd y)"
proof -
  obtain x t' where t: "f (s\<lparr>ed_lock := True\<rparr>) = Some (x, t')" "y = (x, t'\<lparr>ed_lock := False\<rparr>)" "\<not> ed_lock s"
    using assms(1) by (auto simp: locked_def split: if_splits)
  from assms(2)[OF t(1)] t(2,3) show ?thesis by (simp add: R_lock)
qed

lemma R_lockedE:
  "locked f s = Some y \<Longrightarrow> (\<And>s y. f s = Some y \<Longrightarrow> R s (snd y)) \<Longrightarrow> (R s (snd y) \<Longrightarrow> Q) \<Longrightarrow> Q"
  using R_locked by blast

lemma R_ep_link: "ep_link e s = Some t \<Longrightarrow> state (eds s e) \<noteq> ED_NEW \<Longrightarrow> R s t"
  using R_trans[OF R_state R_neutral[OF neutral_ep_link]] by blast

lemma R_ep_unlink: "ep_unlink e s = Some t \<Longrightarrow> state (eds s e) \<noteq> ED_NEW \<Longrightarrow> R s t"
  using R_trans[OF R_state R_neutral[OF neutral_ep_unlink]] by blast

section \<open>Descriptors\<close>

lemma R_bulk_loop: "bulk_loop K info toggle u data data_len cnt s = Some y \<Longrightarrow> R s (snd (snd (snd y)))"
proof (induction "nat data_len" arbitrary: data data_len cnt s rule: less_induct)
  case less
  show ?case
  proof (cases "4096 < data_len")
    case True
    then obtain r where r: "td_fill K (info OR (if cnt \<noteq> 0 then TD_T_TOGGLE else toggle)) data 4096 u cnt s = Some r"
      "bulk_loop K info toggle u (data + 4096) (data_len - 4096) (Suc cnt) r = Some y"
      using less.prems by (subst (asm) bulk_loop.simps) (auto simp: Option.bind_eq_Some_conv)
    then show ?thesis using less.hyps[OF _ r(2)] True R_fill[OF r(1)] by (auto intro: R_trans)
  qed (use less.prems in \<open>subst (asm) bulk_loop.simps, auto simp: neutral_simps\<close>)
qed

lemma R_iso_loop: "iso_loop K u data cnts s = Some t \<Longrightarrow> R s t"
proof (induction cnts arbitrary: s)
  case (Cons i "is")
  from Cons.prems show ?case
    by (auto simp: Let_def Option.bind_eq_Some_conv dest!: Cons.IH R_fill elim!: R_to)
qed (simp add: neutral_simps)

lemma R_td_submit_urb:
  assumes "td_submit_urb K u s = Some y"
  shows "R s (snd y)"
proof -
  obtain p dv where p: "hcpriv (urbs s u) = Some p" "urb_dev (urbs s u) = Some dv"
    using assms by (auto simp: td_submit_urb_def split: option.splits)
  define ts where "ts = (if toggles s (devnum dv) (usb_pipeendpoint K (urb_pipe (urbs s u))) (usb_pipeout K (urb_pipe (urbs s u)))
    then (TD_T_TOGGLE, s)
    else (TD_T_DATA0, s\<lparr>toggles := (toggles s)(devnum dv := (toggles s (devnum dv))
                   (usb_pipeendpoint K (urb_pipe (urbs s u)) := (toggles s (devnum dv) (usb_pipeendpoint K (urb_pipe (urbs s u))))
                     (usb_pipeout K (urb_pipe (urbs s u)) := True)))\<rparr>))"
  define r where "r = upd_priv u (td_cnt_update (\<lambda>_. 0)) (snd ts)"
  have r: "R s r" by (simp add: r_def ts_def neutral_simps)
  have "R r (snd y)"
    using assms
    unfolding td_submit_urb_def p split_beta Let_def fst_conv snd_conv option.case
    unfolding ts_def[symmetric]
    unfolding r_def[symmetric]
    by (elim if_either) (auto simp: Option.bind_eq_Some_conv neutral_simps elim!: if_either
        dest!: R_fill R_bulk_loop R_iso_loop elim!: R_to)
  with r show ?thesis by (rule R_trans)
qed

section \<open>The life of an URB\<close>

lemma R_rm_priv_to: "R r s \<Longrightarrow> R r (urb_rm_priv K u s)"
  using R_trans R_rm_priv by blast

lemma R_call_complete: "R r s \<Longrightarrow> R r (call_complete K u s)"
  using R_trans[OF _ R_complete[of "event (Complete u) s" u], of r] by (simp add: call_complete_def neutral_simps)

lemma R_requeue: "requeue K u p s = Some y \<Longrightarrow> R s (snd y)"
  by (auto simp: requeue_def neutral_simps split: option.splits if_splits dest!: R_td_submit_urb)

lemma R_return_urb:
  assumes "sohci_return_urb K u s = Some y"
  shows "R s (snd y)"
  using assms unfolding sohci_return_urb_def Let_def
  by (elim if_either) (auto simp: Option.bind_eq_Some_conv neutral_simps Portable_PrepareUrbOnReturn_def split: option.splits
      elim!: if_either R_to R_lockedE dest!: R_requeue R_td_submit_urb intro!: R_call_complete R_rm_priv_to)

lemma R_dl_transfer_length: "dl_transfer_length K t s = Some r \<Longrightarrow> R s r"
  by (auto simp: dl_transfer_length_def Let_def neutral_simps elim!: if_either split: option.splits)

lemma R_write_tdp [neutral_simps]: "R r (write_tdp p v s) = R r s"
  by (cases p) (simp_all add: neutral_simps)

lemma R_del_td:
  assumes "del_td K t p s = Some r"
  shows "R s r"
  using assms unfolding del_td_def Let_def
  by (auto simp: Option.bind_eq_Some_conv neutral_simps split: option.splits
      elim!: if_either R_to dest!: R_dl_transfer_length intro!: R_call_complete R_rm_priv_to)

lemma R_del_tds:
  assumes "del_tds K e tail t p s = Some r"
  shows "R s r"
  apply (rule del_tds.raw_induct[OF _ assms, where P = "\<lambda>K' e tail t p s r. K' = K \<longrightarrow> R s r", rule_format])
  subgoal premises p for rec
    using p(2,3) by (auto simp: Let_def Option.bind_eq_Some_conv neutral_simps split: option.splits
      elim!: if_either R_to dest!: p(1) R_del_td)
  by simp

lemma R_del_eds:
  assumes "del_eds K e ctrl bulk s = Some y"
  shows "R s (snd y)"
  apply (rule del_eds.raw_induct[OF _ assms, where P = "\<lambda>K' e ctrl bulk s y. K' = K \<longrightarrow> R s (snd y)", rule_format])
  subgoal premises p for rec
    using p(2,3) by (auto simp: Let_def Option.bind_eq_Some_conv neutral_simps
      elim!: if_either dest!: p(1) R_del_tds intro: R_trans[OF R_del_ed])
  by simp

lemma R_dl_del_list:
  assumes "dl_del_list K frame s = Some r"
  shows "R s r"
  using assms unfolding dl_del_list_def Let_def
  by (auto simp: Option.bind_eq_Some_conv neutral_simps elim!: R_lockedE R_to dest!: R_del_eds)

section \<open>The interrupt\<close>

lemma R_done_error [neutral_simps]: "R r (done_error t s) = R r s"
  by (auto simp: done_error_def Let_def neutral_simps split: option.splits)

lemma R_reverse_loop: "reverse_loop h p l s = Some y \<Longrightarrow> R s (snd y)"
  apply (erule reverse_loop.raw_induct[of "\<lambda>h p l s y. R s (snd y)", rotated])
  subgoal premises p for rec
    using p(2) by (auto simp: Let_def neutral_simps elim!: if_either R_to dest!: p(1))
  done

lemma R_dl_reverse_done_list: "dl_reverse_done_list s = Some y \<Longrightarrow> R s (snd y)"
  by (auto simp: dl_reverse_done_list_def neutral_simps elim!: R_lockedE R_to dest!: R_reverse_loop)

lemma R_idle_unlink:
  assumes "locked (\<lambda>s. if state (eds s e) \<noteq> 0 \<and> ptr (hwHeadP (eds s e)) = hwTailP (eds s e) \<and> state (eds s e) = 2
        then map_option (Pair ()) (ep_unlink e s) else Some ((), s)) s = Some y"
  shows "R s (snd y)"
  by (rule R_locked[OF assms]) (auto simp: neutral_simps split: if_splits dest: R_ep_unlink)

lemma R_done_td:
  assumes "done_td K t s = Some r"
  shows "R s r"
  using assms unfolding done_td_def Let_def
  by (auto simp: Option.bind_eq_Some_conv neutral_simps split: option.splits
      elim!: if_either R_to
      dest!: R_dl_transfer_length R_return_urb R_idle_unlink intro!: R_rm_priv_to)

lemma R_dl_done_list:
  assumes "dl_done_list K t s = Some r"
  shows "R s r"
  apply (rule dl_done_list.raw_induct[OF _ assms, where P = "\<lambda>K' t s r. K' = K \<longrightarrow> R s r", rule_format])
  subgoal premises p for rec
    using p(2,3) by (auto simp: Let_def Option.bind_eq_Some_conv neutral_simps
      elim!: if_either R_to dest!: p(1) R_done_td)
  by simp

lemma R_hc_interrupt:
  assumes "hc_interrupt K hw s = Some r"
  shows "R s r"
  using assms unfolding hc_interrupt_def Let_def split_beta
  by (auto simp: Option.bind_eq_Some_conv neutral_simps elim!: if_either R_to
      dest!: R_dl_reverse_done_list R_dl_done_list R_dl_del_list)

section \<open>The root hub\<close>

lemma R_rh_request: "rh_request hw f b l c s = (d, n, cc, t) \<Longrightarrow> R s t"
  unfolding rh_request_def Let_def split_beta ok_def stall_def get_descriptor_def clear_port_def set_port_def if_connected_def
  by (auto simp: neutral_simps elim!: if_either split: if_splits option.splits)

lemma R_on_complete: "R r s \<Longrightarrow> R r (on_complete K u s)"
  using R_trans R_complete by blast

lemma R_submit_to_hub:
  assumes "submit_to_hub K a u s = Some y"
  shows "R s (snd y)"
  using assms
  by (auto simp: submit_to_hub_def rh_submit_urb_def rh_init_int_timer_def Let_def neutral_simps
      split: sum.splits option.splits if_splits prod.splits dest!: R_rh_request elim!: R_to intro!: R_on_complete)

lemma R_port_loop: "port_loop hw n i d ret s = Inr y \<Longrightarrow> R s (snd (snd y))"
proof (induction "n - i" arbitrary: i d ret s)
  case 0
  then show ?case by (subst (asm) port_loop.simps) (auto simp: neutral_simps)
next
  case (Suc k)
  obtain d' ret' where "port_loop hw n (Suc i) d' ret' (snd (readl hw (Rh_portstatus (int i)) s)) = Inr y"
    using Suc.hyps(2) Suc.prems by (subst (asm) port_loop.simps) (auto simp: Let_def split_beta split: if_splits)
  then have "R (snd (readl hw (Rh_portstatus (int i)) s)) (snd (snd y))" using Suc.hyps by (intro Suc.hyps(1)) simp_all
  then show ?case by (auto simp: neutral_simps elim!: R_to)
qed

lemma R_rh_send_irq: "rh_send_irq hw junk l s = Inr (n, b, t) \<Longrightarrow> R s t"
  by (auto simp: rh_send_irq_def Let_def split_beta neutral_simps split: if_splits sum.splits dest!: R_port_loop elim!: R_to)

lemma R_hub_timer:
  assumes "hub_timer K hw HZ j junk u s = Some t"
  shows "R s t"
  using assms
  by (auto simp: hub_timer_def rh_init_int_timer_def Let_def neutral_simps
      split: sum.splits if_splits prod.splits dest!: R_rh_send_irq elim!: R_to intro!: R_call_complete)

section \<open>The end of a submission\<close>

text \<open>The staging of the buffers is not a step of its own: the blocks it allocates become the URB's.\<close>

lemma R_submit_locked:
  assumes "submit_locked K a u e s = Some y"
    and staged: "\<And>s1 p ret px dm. neutral s s1 \<Longrightarrow> urb_transfer_buffer_length (urbs s1 u) = urb_transfer_buffer_length (urbs s u) \<Longrightarrow>
      hcpriv (urbs s1 u) = Some p \<Longrightarrow>
      Portable_PrepareUrbOnSubmit (bus_to_virt K) (si_data a) (si_setup a) (urb.truncate (urbs s1 u)) (portable p) (hcd_dma s1) =
        Inr (ret, px, dm) \<Longrightarrow> R s1 (upd_priv u (portable_update (\<lambda>_. px)) (s1\<lparr>hcd_dma := dm\<rparr>))"
  shows "R s (snd y)"
proof (cases "state (eds s e) = ED_NEW \<or> state (eds s e) AND ED_DEL \<noteq> 0")
  case True
  then show ?thesis using assms(1) by (auto simp: submit_locked_def Let_def neutral_simps intro!: R_rm_priv_to)
next
  case False
  define s1 where "s1 = (if urb_transfer_flags (urbs s u) AND usb_iso_asap K \<noteq> 0
                     then upd_urb u (urb_start_frame_update (\<lambda>_.
                       (if state (eds s e) = ED_OPER then ucast (last_iso (eds s e)) + 1 else ucast (frame_no s) + 10) AND 0xffff)) s
                     else s)"
  have n1: "neutral s s1" by (simp add: s1_def neutral_simps)
  have len: "urb_transfer_buffer_length (urbs s1 u) = urb_transfer_buffer_length (urbs s u)" by (simp add: s1_def upd_urb_def)
  obtain p ret px dm where p: "hcpriv (urbs s1 u) = Some p"
    and prep: "Portable_PrepareUrbOnSubmit (bus_to_virt K) (si_data a) (si_setup a) (urb.truncate (urbs s1 u)) (portable p) (hcd_dma s1) =
        Inr (ret, px, dm)"
    using assms(1) unfolding submit_locked_def Let_def if_not_P[OF False] s1_def[symmetric]
    by (auto split: option.splits sum.splits)
  define s2 where "s2 = upd_priv u (portable_update (\<lambda>_. px)) (s1\<lparr>hcd_dma := dm\<rparr>)"
  define s3 where "s3 = upd_urb u (\<lambda>w. w\<lparr>urb_actual_length := 0, urb_status := EINPROGRESS\<rparr>) s2"
  have "R s s1" using n1 by (rule R_neutral)
  moreover have "R s1 s2" unfolding s2_def by (rule staged[OF n1 len p prep])
  moreover have "R s2 s3" by (simp add: s3_def neutral_simps)
  ultimately have R: "R s s2" "R s s3" using R_trans by blast+
  have st: "state (eds s3 e) \<noteq> ED_NEW"
    using False neutral_state[OF n1, of e] by (simp add: s3_def s2_def upd_urb_def upd_priv_def)
  have run: "submit_locked K a u e s = (case ret of
      Some err \<Rightarrow> Some (Sub_err err, urb_rm_priv K u (usb_dec_dev_use u s2))
    | None \<Rightarrow> Option.bind (if state (eds s3 e) \<noteq> ED_OPER then ep_link e s3 else Some s3) (\<lambda>s4.
        map_option (\<lambda>(_, t). (Sub_ok, t)) (td_submit_urb K u (upd_urb u (urb_status_update (\<lambda>_. EINPROGRESS)) s4))))"
    unfolding submit_locked_def Let_def if_not_P[OF False] s1_def[symmetric] p prep option.case sum.case prod.case
      s2_def[symmetric] s3_def[symmetric] ..
  show ?thesis
  proof (cases ret)
    case (Some err)
    then show ?thesis using assms(1) R(1) by (auto simp: run neutral_simps intro!: R_rm_priv_to)
  next
    case None
    obtain s4 where s4: "(if state (eds s3 e) \<noteq> ED_OPER then ep_link e s3 else Some s3) = Some s4"
      "map_option (\<lambda>(_, t). (Sub_ok, t)) (td_submit_urb K u (upd_urb u (urb_status_update (\<lambda>_. EINPROGRESS)) s4)) = Some y"
      using assms(1) None by (auto simp: run Option.bind_eq_Some_conv)
    have "R s3 s4" using s4(1) R_ep_link[OF _ st] by (auto simp: neutral_simps split: if_splits)
    moreover have "R s4 (snd y)" using s4(2) by (auto simp: neutral_simps dest!: R_td_submit_urb elim!: R_to)
    ultimately show ?thesis using R(2) R_trans by blast
  qed
qed

section \<open>Unlinking\<close>

lemma R_frame_wait: "frame_wait K fs p n s = Some t \<Longrightarrow> R s t"
proof (induction fs arbitrary: p n s)
  case (Cons f fs)
  from Cons.prems show ?case
    by (auto simp: Let_def Option.bind_eq_Some_conv neutral_simps elim!: if_either R_to dest!: Cons.IH R_dl_del_list)
qed simp

lemma R_removed:
  assumes "locked (\<lambda>s. Some ((), upd_ed (p_ed p) (\<lambda>d. d\<lparr>state := state d OR 8\<rparr>) (ep_rm_ed (p_ed p) s)))
      (upd_priv u (p_state_update (\<lambda>_. 1)) s) = Some y" "hcpriv (urbs s u) = Some p"
  shows "R s (snd y)"
proof -
  let ?s = "upd_priv u (p_state_update (\<lambda>_. 1)) s"
  have l: "\<not> ed_lock ?s" "y = ((), (upd_ed (p_ed p) (\<lambda>d. d\<lparr>state := state d OR ED_URB_DEL\<rparr>) (ep_rm_ed (p_ed p) (?s\<lparr>ed_lock := True\<rparr>)))\<lparr>ed_lock := False\<rparr>)"
    using assms(1) by (auto simp: locked_def split: if_splits)
  let ?q = "ep_rm_ed (p_ed p) (?s\<lparr>ed_lock := True\<rparr>)"
  have "hcpriv (urbs ?q u) = Some (p\<lparr>p_state := 1\<rparr>)"
    using assms(2) by (simp add: ep_rm_ed_def Let_def writel_def upd_ed_def upd_priv_def upd_urb_def)
  from R_removing[OF this] have "R ?q (upd_ed (p_ed p) (\<lambda>d. d\<lparr>state := state d OR ED_URB_DEL\<rparr>) ?q)" by simp
  then have "R (?s\<lparr>ed_lock := True\<rparr>) (upd_ed (p_ed p) (\<lambda>d. d\<lparr>state := state d OR ED_URB_DEL\<rparr>) ?q)"
    by (rule R_to) (simp add: neutral_simps)
  from R_lock[OF l(1) this] have "R ?s (snd y)" using l(2) by simp
  then show ?thesis by (rule R_to) (simp add: neutral_simps)
qed

lemma R_unlink:
  assumes sleep: "\<And>q. R q (ui_sleep a q)" and r: "sohci_unlink_urb K a u s = Some y"
  shows "R s (snd y)"
proof (cases "ui_frames a")
  case Nil
  show ?thesis using r unfolding sohci_unlink_urb_def Let_def Nil
    by (auto simp: Option.bind_eq_Some_conv neutral_simps rh_unlink_urb_def split: option.splits
        elim!: if_either R_to dest!: R_removed intro!: R_rm_priv_to R_call_complete R_trans[OF _ sleep])
next
  case (Cons f fs)
  show ?thesis using r unfolding sohci_unlink_urb_def Let_def Cons
    by (auto simp: Option.bind_eq_Some_conv neutral_simps rh_unlink_urb_def split: option.splits
        elim!: if_either R_to dest!: R_removed R_frame_wait
        intro!: R_rm_priv_to R_call_complete R_trans[OF _ sleep])
qed

text \<open>What happens while the caller sleeps need not be a step of the driver.\<close>

lemma R_unlink_sleep:
  assumes "sohci_unlink_urb K a u s = Some y"
  shows "R s (snd y) \<or> (\<exists>q. R s q \<and> R (ui_sleep a q) (snd y))"
proof -
  obtain z where z: "sohci_unlink_urb K (a\<lparr>ui_sleep := id\<rparr>) u s = Some z"
    "snd y = snd z \<or> (\<exists>q. neutral q (snd z) \<and> neutral (ui_sleep a q) (snd y))"
    using unlink_awake[OF assms] by blast
  have "R s (snd z)" by (rule R_unlink[OF _ z(1)]) (simp add: neutral_simps)
  then show ?thesis using z(2) R_eq R_neutral by metis
qed

section \<open>Reset\<close>

lemma R_takeover_loop: "R r s \<Longrightarrow> R r (snd (takeover_loop hw k s))"
proof (induction k arbitrary: s rule: less_induct)
  case (less k)
  define t where "t = delay 10000 (snd (readl hw Control s))"
  have t: "R r t" using less.prems by (simp add: t_def neutral_simps)
  have "R r (snd (takeover_loop hw (k - 1) t))" if "\<not> k \<le> 1" using less.IH[OF _ t, of "k - 1"] that by simp
  then show ?case using less.prems t
    by (subst takeover_loop.simps) (auto simp: Let_def split_beta neutral_simps t_def[symmetric])
qed

lemma R_reset_loop: "R r s \<Longrightarrow> R r (snd (reset_loop hw k s))"
proof (induction k arbitrary: s rule: less_induct)
  case (less k)
  define t where "t = delay (Suc 0) (snd (readl hw Cmdstatus s))"
  have t: "R r t" using less.prems by (simp add: t_def neutral_simps)
  have "R r (snd (reset_loop hw (k - 1) t))" if "\<not> k \<le> 1" using less.IH[OF _ t, of "k - 1"] that by simp
  then show ?case using less.prems
    by (subst reset_loop.simps) (auto simp: Let_def split_beta neutral_simps t_def[symmetric])
qed

lemma R_hc_reset: "R s (snd (hc_reset hw s))"
  by (auto simp: hc_reset_def Let_def split_beta neutral_simps intro!: R_takeover_loop R_reset_loop)

end

end
