(* ===== verification/Driver.thy ===== *)
theory Driver
  imports Driver_Frame Done_List
begin

text \<open>
  The driver as a machine: its operations in any order, and the shape of its data in every state they
  reach. The tables keep their lengths and each private part has room for the descriptors it
  counts, so that no array access of the driver is out of range; and every operation that returns
  leaves the lock of the endpoint lists as it was, but for a submission with \<open>-ENOMEM\<close>.
\<close>

section \<open>Shape\<close>

definition privs_ok :: "(addr \<Rightarrow> hurb) \<Rightarrow> bool" where
  "privs_ok w \<longleftrightarrow> (\<forall>u p. hcpriv (w u) = Some p \<longrightarrow> unat (p_length p) \<le> length (p_td p))"

definition hcd_ok :: "hcd \<Rightarrow> bool" where
  "hcd_ok s \<longleftrightarrow> length (int_table s) = N_INTS \<and> length (ohci_int_load s) = N_INTS \<and> length (ed_rm_list s) = 2 \<and>
     privs_ok (urbs s)"

definition preserves :: "hcd \<Rightarrow> hcd \<Rightarrow> bool" where
  "preserves s t \<longleftrightarrow> (hcd_ok s \<longrightarrow> hcd_ok t) \<and> ed_lock t = ed_lock s"

lemma pres_trans: "preserves s t \<Longrightarrow> preserves t r \<Longrightarrow> preserves s r"
  by (simp add: preserves_def)

lemma pres_refl: "preserves s s"
  by (simp add: preserves_def)

lemma pres_neutral:
  assumes "neutral s t"
  shows "preserves s t"
proof -
  have "privs_ok (urbs t)" if "privs_ok (urbs s)"
    unfolding privs_ok_def
  proof (intro allI impI)
    fix u p assume p: "hcpriv (urbs t u) = Some p"
    then obtain q where "hcpriv (urbs s u) = Some q" "view_priv q = view_priv p"
      using assms unfolding neutral_def by (metis map_option_eq_Some)
    then show "unat (p_length p) \<le> length (p_td p)" using that unfolding privs_ok_def view_priv_def by (metis prod.inject)
  qed
  then show ?thesis using assms by (simp add: preserves_def hcd_ok_def neutral_def)
qed

text \<open>Memory and endpoints do not matter to the shape.\<close>

lemma pres_other:
  "preserves r (s\<lparr>hcd_dma := d\<rparr>) = preserves r s" "preserves r (upd_ed e f s) = preserves r s"
  "preserves r (s\<lparr>eds := es\<rparr>) = preserves r s" "preserves r (upd_td x g s) = preserves r s"
  "preserves r (err_log m s) = preserves r s"
  by (simp_all add: preserves_def hcd_ok_def upd_ed_def upd_td_def err_log_def)

lemma pres_priv:
  assumes "\<And>p. p_length (f p) = p_length p" "\<And>p. length (p_td (f p)) = length (p_td p)"
  shows "preserves s (upd_priv u f s)"
  using assms by (auto simp: preserves_def hcd_ok_def privs_ok_def upd_urb_def upd_priv_def)

lemma pres_no_priv: "preserves s (upd_urb u (hcpriv_update (\<lambda>_. None)) s)"
  by (auto simp: preserves_def hcd_ok_def upd_urb_def privs_ok_def)

lemma pres_urb_rm_priv: "preserves s (urb_rm_priv K u s)"
proof (cases "hcpriv (urbs s u)")
  case None
  then show ?thesis by (simp add: urb_rm_priv_def preserves_def)
next
  case (Some p)
  then obtain d where d: "urb_rm_priv K u s = upd_urb u (hcpriv_update (\<lambda>_. None)) (s\<lparr>hcd_dma := d\<rparr>)"
    by (rule urb_rm_priv_run)
  have "preserves s (s\<lparr>hcd_dma := d\<rparr>)" by (simp add: preserves_def hcd_ok_def)
  then show ?thesis unfolding d using pres_no_priv pres_trans by blast
qed

lemma pres_td_fill: "td_fill K info data len u index s = Some t \<Longrightarrow> preserves s t"
  by (auto simp: td_fill_def Let_def pres_other pres_refl split: option.splits if_splits intro!: pres_priv)

text \<open>What is asked of the completion handlers: they keep the shape, and the lock as it is.\<close>

definition good_client :: "henv \<Rightarrow> bool" where
  "good_client K \<longleftrightarrow> (\<forall>u s. preserves s (on_complete K u s))"

definition keeps_shape :: "henv \<Rightarrow> hcd \<Rightarrow> hcd \<Rightarrow> bool" where
  "keeps_shape K s t \<longleftrightarrow> (good_client K \<longrightarrow> preserves s t)"

lemma pres_free_local: "preserves r (free_local a s) = preserves r s"
  by (simp add: free_local_def pres_other)

lemma pres_del_ed: "preserves s (del_ed K i tail e s)"
proof -
  have "preserves s (event Wake_up t) = preserves s t" "preserves s (t\<lparr>devs := d\<rparr>) = preserves s t" for t d
    by (simp_all add: preserves_def hcd_ok_def event_def)
  moreover have "preserves s s" by (simp add: preserves_def)
  ultimately show ?thesis by (simp add: del_ed_def Let_def pres_other pres_free_local)
qed

lemma pres_state: "preserves s (upd_ed e f s)"
  by (simp add: preserves_def hcd_ok_def upd_ed_def)

lemma pres_lock: "\<not> ed_lock s \<Longrightarrow> preserves (s\<lparr>ed_lock := True\<rparr>) t \<Longrightarrow> preserves s (t\<lparr>ed_lock := False\<rparr>)"
  by (simp add: preserves_def hcd_ok_def)

interpretation dr: driver_relation K "keeps_shape K" for K
  by unfold_locales
    (simp_all add: keeps_shape_def pres_neutral pres_urb_rm_priv pres_td_fill pres_state pres_del_ed good_client_def pres_lock
      del: ED_OPER_def ED_UNLINK_def ED_URB_DEL_def, auto intro: pres_trans pres_trans[OF _ pres_del_ed])

section \<open>Submitting\<close>

lemma pres_add_ed_state: "ed_lock s \<Longrightarrow> preserves (s\<lparr>ed_lock := False\<rparr>) (add_ed_state K td up pipe i ld e s)"
  by (auto simp: add_ed_state_def Let_def preserves_def hcd_ok_def upd_ed_def)

lemma shape_lock [simp]: "hcd_ok (s\<lparr>ed_lock := b\<rparr>) = hcd_ok s"
  by (simp add: hcd_ok_def)

lemma ep_add_ed_shape:
  assumes "ep_add_ed K td up pipe i ld dev s = Some (e, dev', t)"
  shows "(hcd_ok s \<longrightarrow> hcd_ok t) \<and> (e \<noteq> 0 \<longrightarrow> ed_lock t = ed_lock s)"
proof -
  have "preserves s (add_ed_state K td up pipe i ld e' (s\<lparr>ed_lock := True\<rparr>))" if "\<not> ed_lock s" for e'
    using pres_add_ed_state[of "s\<lparr>ed_lock := True\<rparr>" K td up pipe i ld e'] that by (auto simp: preserves_def)
  moreover have "hcd_ok (upd_ed e' f q) = hcd_ok q" for e' f and q :: hcd by (simp add: hcd_ok_def upd_ed_def)
  ultimately show ?thesis using assms by (auto simp: ep_add_ed_cases Let_def preserves_def split: if_splits)
qed

lemma pres_alloc_local: "alloc_local K e sz s = Some (d, t) \<Longrightarrow> preserves s t"
  by (auto simp: alloc_local_def pres_other pres_refl split: sum.splits)

lemma add_ed_shape:
  assumes "add_ed K a u s = Some (e, t)"
  shows "(hcd_ok s \<longrightarrow> hcd_ok t) \<and> (e \<noteq> 0 \<longrightarrow> ed_lock t = ed_lock s)"
proof -
  let ?up = "urb_devp (urbs s u)" and ?pipe = "urb_pipe (urbs s u)"
  obtain td s1 dev t1 where a: "(if state (eds s (dev_eds (devs s ?up) ! ed_index (penv.truncate K) ?pipe)) = ED_NEW
      then alloc_local K a sizeof_td s else Some (0, s)) = Some (td, s1)"
    and e: "ep_add_ed (penv.truncate K) td ?up ?pipe (urb_interval (urbs s u)) 1 (devs s1 ?up) s1 = Some (e, dev, t1)"
    and t: "t = t1\<lparr>devs := (devs t1)(?up := dev)\<rparr>"
    using assms unfolding add_ed_def Let_def by (cases "ed_lock s") (auto simp only: Option.bind_eq_Some_conv if_False if_True
      map_option_eq_Some split_paired_All prod.case prod.inject option.distinct)
  have "preserves s s1" using a by (elim if_either) (auto simp: pres_refl dest: pres_alloc_local)
  moreover have "hcd_ok (t1\<lparr>devs := d\<rparr>) = hcd_ok t1" for d by (simp add: hcd_ok_def)
  ultimately show ?thesis using ep_add_ed_shape[OF e] t by (simp add: preserves_def)
qed

lemma pres_alloc_tds: "alloc_tds K es u is s = Some (b, t) \<Longrightarrow> preserves s t"
proof (induction K es u "is" s rule: alloc_tds.induct)
  case (2 K es u i "is" s)
  obtain d s1 where a: "alloc_local K (es i) sizeof_td s = Some (d, s1)" using "2.prems" by (auto simp: Option.bind_eq_Some_conv)
  have p: "preserves s (upd_priv u (p_td_update (\<lambda>l. l[i := d])) s1)"
    by (rule pres_trans[OF pres_alloc_local[OF a] pres_priv]) simp_all
  show ?case
  proof (cases "d = 0")
    case False
    then show ?thesis using "2.IH"[OF a refl refl False] "2.prems" a p by (auto intro: pres_trans)
  qed (use "2.prems" a p in auto)
qed (simp add: pres_refl)

lemma pres_submit_locked: "submit_locked K a u e s = Some y \<Longrightarrow> keeps_shape K s (snd y)"
  by (rule dr.R_submit_locked) (auto simp: keeps_shape_def pres_other pres_refl intro!: pres_trans[OF _ pres_priv])

text \<open>The new private part has room for the descriptors it counts, unless the client asks for a
  negative number of them.\<close>

lemma pres_fresh_priv:
  assumes "0 \<le> n"
  shows "preserves s (upd_urb u (hcpriv_update (\<lambda>_. Some (fresh_priv e n))) s)"
proof -
  have "uint (word_of_int n :: u16) \<le> n" unfolding uint_word_of_int by (rule zmod_le_nonneg_dividend[OF assms])
  then have "unat (p_length (fresh_priv e n)) \<le> length (p_td (fresh_priv e n))"
    using nat_mono unfolding fresh_priv_def nat_uint_eq[symmetric] by fastforce
  then show ?thesis by (auto simp: preserves_def hcd_ok_def upd_urb_def privs_ok_def)
qed

definition enomem_preserves :: "submit_ret \<Rightarrow> hcd \<Rightarrow> hcd \<Rightarrow> bool" where
  "enomem_preserves r s t \<longleftrightarrow> (hcd_ok s \<longrightarrow> hcd_ok t) \<and> (r \<noteq> Sub_err ENOMEM \<longrightarrow> ed_lock t = ed_lock s)"

lemma submit_shape:
  assumes K: "good_client K" and r: "sohci_submit_urb K a u s = Some (r, t)" and sz: "0 \<le> urb_size K (urbs s u)"
  shows "enomem_preserves r s t"
proof -
  let ?p = "urb_pipe (urbs s u)" and ?s1 = "usb_inc_dev_use u s"
  have use: "preserves q (dev_use_add n u q)" for n q by (rule pres_neutral) (simp add: neutral_simps)
  have add: "hcd_ok s \<longrightarrow> hcd_ok s2" "e \<noteq> 0 \<Longrightarrow> preserves s s2" if "add_ed K (si_dummy a) u ?s1 = Some (e, s2)" for e s2
    using add_ed_shape[OF that] use[where n = 1 and q = s] by (auto simp: preserves_def)
  have iso: "preserves q (iso_reset K u p q)" for p q
    by (rule pres_neutral) (simp add: iso_reset_def neutral_simps)
  have set_up: "preserves s s5"
    if "add_ed K (si_dummy a) u ?s1 = Some (e, s2)" "e \<noteq> 0" "alloc_tds K (si_tds a) u is
        (upd_urb u (hcpriv_update (\<lambda>_. Some (fresh_priv e (urb_size K (urbs s u))))) (iso_reset K u ?p s2)) = Some (b, s5)"
    for e s2 "is" b s5
    by (rule pres_trans[OF add(2)[OF that(1,2)] pres_trans[OF iso pres_trans[OF pres_fresh_priv[OF sz] pres_alloc_tds[OF that(3)]]]])
  have en: "enomem_preserves c s q" if "preserves s q" for c q using that by (simp add: enomem_preserves_def preserves_def)
  show ?thesis using r
  proof (cases rule: submit_cases)
    case hub
    then have "preserves ?s1 t" using dr.R_submit_to_hub[OF hub(2)] K by (simp add: keeps_shape_def)
    then show ?thesis using use pres_trans by (blast intro: en)
  next
    case (no_ed s2)
    then show ?thesis using add(1)[OF no_ed(2)] use[where n = "- 1" and q = s2] by (auto simp: enomem_preserves_def preserves_def)
  next
    case (no_priv e s2)
    then show ?thesis using pres_trans[OF add(2)[OF no_priv(2,3)] pres_trans[OF iso use]] by (blast intro: en)
  next
    case (no_td e s2 s5)
    show ?thesis unfolding no_td(6)
      by (rule en[OF pres_trans[OF set_up[OF no_td(2-4)] pres_trans[OF use pres_urb_rm_priv]]])
  next
    case (queued e s2 s5)
    have "preserves (event (Dump_submit u) s5) t"
      using dr.R_lockedE[OF queued(5)] pres_submit_locked K by (force simp: keeps_shape_def)
    moreover have "preserves s5 (event (Dump_submit u) s5)" by (rule pres_neutral) (simp add: neutral_simps)
    ultimately show ?thesis using set_up[OF queued(2-4)] pres_trans by (blast intro: en)
  next
    case hung
    then show ?thesis using use by (simp add: en)
  qed (simp add: en pres_refl)
qed

section \<open>Devices\<close>

lemma pres_alloc_dev: "preserves s (snd (sohci_alloc_dev K a up s))"
  by (simp add: sohci_alloc_dev_def Let_def split_beta preserves_def hcd_ok_def)

lemma pres_ep_unlink: "ep_unlink e s = Some t \<Longrightarrow> preserves s t"
  by (blast intro: pres_trans pres_state pres_neutral neutral_ep_unlink)

lemma pres_rm_ed: "preserves s (upd_ed e f (ep_rm_ed e s))"
  by (rule pres_trans[OF pres_neutral pres_state]) (simp add: neutral_simps)

lemma pres_free_eds: "free_eds es c s = Some y \<Longrightarrow> preserves s (snd y)"
proof (induction es arbitrary: c s)
  case (Cons e es)
  show ?case
  proof (cases "state (eds s e) = ED_NEW")
    case False
    then obtain s1 where s1: "(if state (eds s e) = ED_OPER then ep_unlink e s else Some s) = Some s1"
      "free_eds es (Suc c) (upd_ed e (state_update (\<lambda>_. ED_DEL)) (ep_rm_ed e s1)) = Some y"
      using Cons.prems by (auto simp: Option.bind_eq_Some_conv)
    have "preserves s s1" using s1(1) by (elim if_either) (auto simp: pres_refl pres_ep_unlink)
    then show ?thesis using Cons.IH[OF s1(2)] pres_rm_ed pres_trans by blast
  qed (use Cons in simp)
qed (auto simp: pres_refl)

lemma pres_free_dev:
  assumes K: "good_client K" and sleep: "\<And>q. preserves q (sl q)" and r: "sohci_free_dev K sl up n s = Some t"
  shows "preserves s t"
proof (cases "dev_priv s up")
  case True
  then obtain c s1 where s1: "(if 0 \<le> sint n then locked (free_eds (dev_eds (devs s up)) 0) s else Some (0, s)) = Some (c, s1)"
    and t: "t = (let s2 = if 0 < c then sl s1 else s1 in s2\<lparr>hcd_dma := (hcd_dma s2)\<lparr>dma_lm := Portable_FreeDevice (virt_to_bus K)
      (Some (bus_to_virt K (dev_eds (devs s up) ! 0))) (dma_lm (hcd_dma s2))\<rparr>\<rparr>)"
    using r unfolding sohci_free_dev_def Let_def by auto
  have "preserves s s1"
    using s1 dr.R_lockedE[where K = K and f = "free_eds (dev_eds (devs s up)) 0" and y = "(c, s1)"] pres_free_eds K
    by (elim if_either) (auto simp: keeps_shape_def pres_refl)
  moreover have "preserves s1 t" using sleep[of s1] by (simp add: t Let_def pres_other pres_refl)
  ultimately show ?thesis by (rule pres_trans)
qed (use r in \<open>simp add: sohci_free_dev_def pres_refl\<close>)

section \<open>Reset\<close>

lemma pres_hc_reinit: "hcd_ok s \<Longrightarrow> hcd_ok (hc_reinit_ohci s)" "ed_lock (hc_reinit_ohci s) = ed_lock s"
  by (simp_all add: hc_reinit_ohci_def hcd_ok_def)

section \<open>The machine\<close>

text \<open>A step of the driver's clients, of the controller (which may write everything it shares with the
  driver) or of the driver: an operation that returns. The flag tells whether a submission has
  failed with \<open>-ENOMEM\<close>. A client changes its URBs but not their private part, and never asks for a
  negative number of bytes or packets.\<close>

inductive hstep :: "henv \<Rightarrow> bool \<Rightarrow> hcd \<Rightarrow> hcd \<Rightarrow> bool" for K where
  submit: "sohci_submit_urb K a u s = Some (r, t) \<Longrightarrow> 0 \<le> urb_size K (urbs s u) \<Longrightarrow> hstep K (r = Sub_err ENOMEM) s t"
| unlink: "sohci_unlink_urb K b u s = Some (r, t) \<Longrightarrow> (\<And>q. preserves q (ui_sleep b q)) \<Longrightarrow> hstep K False s t"
| interrupt: "hc_interrupt K hw s = Some t \<Longrightarrow> hstep K False s t"
| timer: "hub_timer K hw HZ j junk u s = Some t \<Longrightarrow> hstep K False s t"
| alloc_dev: "sohci_alloc_dev K ba up s = (r, t) \<Longrightarrow> hstep K False s t"
| free_dev: "sohci_free_dev K sl up n s = Some t \<Longrightarrow> (\<And>q. preserves q (sl q)) \<Longrightarrow> hstep K False s t"
| reset: "hc_reset hw s = (finished, t) \<Longrightarrow> hstep K False s t"
| reinit: "hstep K False s (hc_reinit_ohci s)"
| client: "(\<And>w. hcpriv (f w) = hcpriv w) \<Longrightarrow> hstep K False s (upd_urb u f s)"
| controller: "hstep K False s (s\<lparr>done_head := d, frame_no := n', tds := ts, eds := es, hcd_dma := dm\<rparr>)"

definition fresh_hcd :: "hcd \<Rightarrow> bool" where
  "fresh_hcd s \<longleftrightarrow> int_table s = replicate N_INTS 0 \<and> ohci_int_load s = replicate N_INTS 0 \<and> ed_rm_list s = [0, 0] \<and>
     \<not> ed_lock s \<and> (\<forall>u. hcpriv (urbs s u) = None)"

lemma hstep_keeps:
  assumes "hstep K leak s t" "good_client K"
  shows "(hcd_ok s \<longrightarrow> hcd_ok t) \<and> (leak \<or> ed_lock t = ed_lock s)"
proof -
  have k: ?thesis if "preserves s t" using that by (simp add: preserves_def)
  have d: "keeps_shape K q r \<Longrightarrow> preserves q r" for q r using assms(2) by (simp add: keeps_shape_def)
  show ?thesis using assms(1)
  proof (cases rule: hstep.cases)
    case (submit a u r)
    then show ?thesis using submit_shape[OF assms(2) submit(2,3)] by (auto simp: enomem_preserves_def)
  next
    case (unlink b u r)
    then have "keeps_shape K q (ui_sleep b q)" for q by (simp add: keeps_shape_def)
    then show ?thesis using d[OF dr.R_unlink[OF _ unlink(2)]] k by simp
  next
    case (interrupt hw)
    then show ?thesis using d[OF dr.R_hc_interrupt] k by blast
  next
    case (timer hw HZ j junk u)
    then show ?thesis using d[OF dr.R_hub_timer] k by blast
  next
    case (alloc_dev ba up r)
    then show ?thesis using pres_alloc_dev[of s K ba up] k by simp
  next
    case (free_dev sl up n)
    then show ?thesis using pres_free_dev[OF assms(2) free_dev(3,2)] k by simp
  next
    case (reset hw finished)
    then show ?thesis using d[OF dr.R_hc_reset[of K s hw]] k by simp
  next
    case reinit
    then show ?thesis using pres_hc_reinit by simp
  next
    case (client f u)
    then have "preserves s t" by (simp add: pres_neutral neutral_simps)
    then show ?thesis using k by blast
  next
    case (controller d n' ts es dm)
    then show ?thesis by (simp add: hcd_ok_def)
  qed
qed

definition any_step :: "henv \<Rightarrow> hcd \<Rightarrow> hcd \<Rightarrow> bool" where
  "any_step K s t \<longleftrightarrow> good_client K \<and> (\<exists>leak. hstep K leak s t)"

definition clean_step :: "henv \<Rightarrow> hcd \<Rightarrow> hcd \<Rightarrow> bool" where
  "clean_step K s t \<longleftrightarrow> good_client K \<and> hstep K False s t"

interpretation shape: safe_machine "any_step K" fresh_hcd hcd_ok for K
  by unfold_locales (auto simp: fresh_hcd_def hcd_ok_def privs_ok_def any_step_def dest: hstep_keeps)

interpretation unlocked: safe_machine "clean_step K" fresh_hcd "\<lambda>s. \<not> ed_lock s" for K
  by unfold_locales (auto simp: fresh_hcd_def clean_step_def dest: hstep_keeps)

text \<open>C8. In every state that the driver's operations reach, in any order and with anything the
  clients and the controller write, the tables have their lengths and each private part has at
  least as many descriptor pointers as it counts: an index below \<open>length\<close> is inside \<open>td[]\<close>.\<close>

theorem driver_shape:
  assumes "reach (any_step K) fresh_hcd s"
  shows "length (int_table s) = N_INTS \<and> length (ohci_int_load s) = N_INTS \<and> length (ed_rm_list s) = 2 \<and>
    (case hcpriv (urbs s u) of None \<Rightarrow> True | Some p \<Rightarrow> {..<unat (p_length p)} \<subseteq> {..<length (p_td p)})"
  using shape.reach_inv[OF assms] by (auto simp: hcd_ok_def privs_ok_def split: option.splits)

text \<open>A run: a controller that has died refuses an URB.\<close>

lemma hung_reach:
  "reach (any_step ps2_henv) fresh_hcd (usb_inc_dev_use 1 hung_hcd)"
  "reach (clean_step ps2_henv) fresh_hcd (usb_inc_dev_use 1 hung_hcd)"
proof -
  have f: "fresh_hcd hung_hcd"
    by (simp add: fresh_hcd_def hung_hcd_def) (simp add: bulk_hcd_def idle_hc_def ohci_zero_def ohci.defs ohci_ed.defs)
  have g: "good_client ps2_henv" by (simp add: good_client_def ps2_henv_def penv.defs kenv.defs pres_refl)
  have r: "sohci_submit_urb ps2_henv plain_in 1 hung_hcd = Some (Sub_shutdown, usb_inc_dev_use 1 hung_hcd)"
    by (simp add: sohci_submit_urb_def Let_def hung_fields) (simp add: dev_use_add_def hung_fields)
  have n: "0 \<le> urb_size ps2_henv (urbs hung_hcd 1)"
    by (simp add: urb_size_def Let_def hung_hcd_def) (simp add: bulk_fields, simp add: bulk_urb_def urb.defs)
  have "hstep ps2_henv False hung_hcd (usb_inc_dev_use 1 hung_hcd)"
    using hstep.submit[OF r n] by simp
  then have "any_step ps2_henv hung_hcd (usb_inc_dev_use 1 hung_hcd)" "clean_step ps2_henv hung_hcd (usb_inc_dev_use 1 hung_hcd)"
    using g unfolding any_step_def clean_step_def by blast+
  then show "reach (any_step ps2_henv) fresh_hcd (usb_inc_dev_use 1 hung_hcd)"
    "reach (clean_step ps2_henv) fresh_hcd (usb_inc_dev_use 1 hung_hcd)"
    using reach.next_step[OF reach.start[where init = fresh_hcd, OF f]] by blast+
qed

theorem driver_shape_witness:
  "length (int_table (usb_inc_dev_use 1 hung_hcd)) = 32 \<and> length (ed_rm_list (usb_inc_dev_use 1 hung_hcd)) = 2 \<and>
     dev_use (usb_inc_dev_use 1 hung_hcd) 2 = 2"
  using driver_shape[OF hung_reach(1), of 1] by (simp add: N_INTS_def dev_use_add_def hung_fields)

text \<open>C9. While no submission has failed with \<open>-ENOMEM\<close>, the lock of the endpoint lists is free
  whenever an operation has returned.\<close>

theorem driver_lock_free:
  assumes "reach (clean_step K) fresh_hcd s"
  shows "\<not> ed_lock s"
  by (rule unlocked.reach_inv[OF assms])

theorem driver_lock_free_witness: "\<not> ed_lock (usb_inc_dev_use 1 hung_hcd)"
  by (rule driver_lock_free[OF hung_reach(2)])

end
