(* ===== verification/Block_Owners.thy ===== *)
theory Block_Owners
  imports Portable_Urb
begin

text \<open>
  The allocator for clients that keep bus addresses. Every block starts at a multiple of 16 when the
  arenas do, so the controller can use it as a descriptor; and a bus address stands for the block it
  was made from. On top of that, accounts: who owns the blocks that are handed out.
\<close>

section \<open>Aligned blocks\<close>

text \<open>What the driver relies on of an arena: it is aligned, address translation is exact in it, and
  bus address 0 is not in it.\<close>

definition good_arena :: "(addr \<Rightarrow> u32) \<Rightarrow> (u32 \<Rightarrow> addr) \<Rightarrow> u32 \<Rightarrow> bool" where
  "good_arena v2b b2v a \<longleftrightarrow> 16 dvd b2v a \<and> b2v 0 \<notin> block_range (arena_block b2v a) \<and>
     (\<forall>x \<in> block_range (arena_block b2v a). b2v (v2b x) = x \<and> v2b x \<noteq> 0 \<and> (16 dvd x \<longrightarrow> v2b x AND 0xfffffff0 = v2b x))"

definition good_heap :: "(addr \<Rightarrow> u32) \<Rightarrow> (u32 \<Rightarrow> addr) \<Rightarrow> local_mem \<Rightarrow> bool" where
  "good_heap v2b b2v l \<longleftrightarrow> lm_inv b2v l \<and> (\<forall>a \<in> set (arenas l). good_arena v2b b2v a) \<and> (\<forall>m \<in> set (mb_blocks l). 16 dvd mb_p m)"

text \<open>A series of requests, each of which may ask the IOP heap for two arenas: the heap answers with
  memory it has not given away, or 0.\<close>

fun heap_ok :: "(addr \<Rightarrow> u32) \<Rightarrow> (u32 \<Rightarrow> addr) \<Rightarrow> u32 list \<Rightarrow> alloc_in list \<Rightarrow> bool" where
  "heap_ok v2b b2v as [] = True"
| "heap_ok v2b b2v as (e # es) =
     (let g = grow_iop (grow1 e); h = grow_iop (grow2 e) in
      fresh_arena b2v as g \<and> fresh_arena b2v (g # as) h \<and>
      (g = 0 \<or> good_arena v2b b2v g) \<and> (h = 0 \<or> good_arena v2b b2v h) \<and> heap_ok v2b b2v (h # g # as) es)"

lemma heap_ok_mono: "heap_ok v2b b2v as es \<Longrightarrow> set bs \<subseteq> set as \<Longrightarrow> heap_ok v2b b2v bs es"
proof (induction es arbitrary: as bs)
  case (Cons e es)
  let ?g = "grow_iop (grow1 e)" and ?h = "grow_iop (grow2 e)"
  have h: "heap_ok v2b b2v (?h # ?g # as) es" using Cons.prems(1) by (simp add: Let_def)
  have "heap_ok v2b b2v (?h # ?g # bs) es" by (rule Cons.IH[OF h]) (use Cons.prems(2) in auto)
  then show ?case using Cons.prems fresh_arena_mono[of b2v "?g # as" ?h "?g # bs"] by (auto simp: Let_def intro: fresh_arena_mono)
qed simp

abbreviation live :: "local_mem \<Rightarrow> addr set" where
  "live l \<equiv> mb_p ` set (AllocList l)"

lemma live_fst: "live l = fst ` lm_live l"
  by (simp add: lm_live_def image_image)

lemma good_live:
  assumes "good_heap v2b b2v l" "a \<in> live l"
  shows "0 < a" "b2v (v2b a) = a" "v2b a \<noteq> 0" "v2b a AND 0xfffffff0 = v2b a" "a \<noteq> b2v 0"
proof -
  obtain m where m: "m \<in> set (AllocList l)" "a = mb_p m" using assms(2) by blast
  have lm: "lm_inv b2v l" using assms(1) by (simp add: good_heap_def)
  have g: "good_block m" using lm m(1) by (rule lm_inv_good)
  have d: "16 dvd a" using assms(1) m by (auto simp: good_heap_def mb_blocks_def)
  have "a \<in> block_range m" using g m(2) by (simp add: block_range_def good_block_def)
  then have "a \<in> arena_bytes b2v l"
    using lm m(1) by (auto simp: lm_inv_def blocks_ok_def bytes_of_def mb_blocks_def)
  then obtain r where "r \<in> set (arenas l)" "a \<in> block_range (arena_block b2v r)" by (auto simp: arena_bytes_def)
  then show "0 < a" "b2v (v2b a) = a" "v2b a \<noteq> 0" "v2b a AND 0xfffffff0 = v2b a" "a \<noteq> b2v 0"
    using assms(1) d g m(2) by (auto simp: good_heap_def good_arena_def good_block_def)
qed

lemma free_live:
  assumes "good_heap v2b b2v l" "FreeLocalMem p l = (b, l')"
  shows "good_heap v2b b2v l'" "live l' = live l - {p}" "arenas l' = arenas l"
proof -
  have lm: "lm_inv b2v l" using assms(1) by (simp add: good_heap_def)
  have lm': "lm_inv b2v l'" using lm assms(2) by (rule FreeLocalMem_inv)
  have ar: "arenas l' = arenas l" using assms(2) by (cases rule: FreeLocalMem_cases) (simp_all add: arenas_def)
  have "\<forall>m \<in> set (mb_blocks l'). 16 dvd mb_p m"
    using assms(2)
  proof (cases rule: FreeLocalMem_cases)
    case (merge pre cur post fpre c2 fpost)
    then show ?thesis using assms(1) by (auto simp: good_heap_def mb_blocks_def)
  qed (use assms(1) in \<open>auto simp: good_heap_def mb_blocks_def\<close>)
  then show "good_heap v2b b2v l'" using lm' ar assms(1) by (simp add: good_heap_def)
  show "arenas l' = arenas l" by (rule ar)
  show "live l' = live l - {p}"
  proof (cases "p \<in> live l")
    case True
    then obtain m where m: "m \<in> set (AllocList l)" "p = mb_p m" by blast
    from FreeLocalMem_found[OF lm m(1)] assms(2) m(2) obtain pre post where
      l: "AllocList l = pre @ m # post" "AllocList l' = pre @ post" by metis
    then show ?thesis using mb_p_unique[OF lm l(1)] m(2) by fastforce
  next
    case False
    then have "l' = l" using lm.release_miss[OF lm _ assms(2)] by (simp add: live_fst)
    then show ?thesis using False by simp
  qed
qed

text \<open>Growing and scanning keep the alignment.\<close>

lemma grow_aligned:
  assumes "alloc_grow b2v irq g l = Inr l'" "\<forall>m \<in> set (mb_blocks l). 16 dvd mb_p m" "grow_iop g = 0 \<or> good_arena v2b b2v (grow_iop g)"
  shows "\<forall>m \<in> set (mb_blocks l'). 16 dvd mb_p m"
proof (cases "\<not> irq \<and> insufficient_local_mem l \<noteq> 0")
  case True
  then obtain r where "GrowLocalMem b2v g (l\<lparr>insufficient_local_mem := 0\<rparr>) = Inr (r, l')"
    using assms(1) by (auto simp: alloc_grow_def split: sum.splits)
  then show ?thesis
  proof (cases rule: GrowLocalMem_cases)
    case ok
    then show ?thesis using assms(2,3) by (auto simp: mb_blocks_def arena_block_def good_arena_def)
  qed (use assms(2) in \<open>simp add: mb_blocks_def\<close>)
qed (use assms in \<open>auto simp: alloc_grow_def split: if_splits\<close>)

lemma scan_aligned:
  assumes "alloc_scan k (size256 n) l = Some (r, l')" "lm_inv b2v l" "\<forall>m \<in> set (mb_blocks l). 16 dvd mb_p m" "0 < n"
  shows "\<forall>m \<in> set (mb_blocks l'). 16 dvd mb_p m"
  using assms(1)
proof (cases rule: alloc_scan_cases)
  case (split pre cur post)
  have "good_block cur" using assms(2) split(1) by (auto simp: lm_inv_def blocks_ok_def mb_blocks_def)
  then have "256 dvd mb_size cur" by (simp add: good_block_def)
  moreover have "256 dvd size256 n" by (rule size256_round(2)[OF assms(4)])
  ultimately have "256 dvd mb_size cur - size256 n" by simp
  then have "16 dvd mb_size cur - size256 n" by (rule dvd_trans[rotated]) simp
  then show ?thesis using split assms(3) by (auto simp: mb_blocks_def)
qed (use assms(3) in \<open>auto simp: mb_blocks_def\<close>)

text \<open>What \<open>alloc_grow\<close> leaves, for a heap that answers properly.\<close>

lemma grow_good:
  assumes "good_heap v2b b2v l" "alloc_grow b2v irq g l = Inr l'" "fresh_arena b2v (arenas l) (grow_iop g)"
    "grow_iop g = 0 \<or> good_arena v2b b2v (grow_iop g)"
  shows "good_heap v2b b2v l'" "set (arenas l') \<subseteq> insert (grow_iop g) (set (arenas l))"
proof -
  have lm: "lm_inv b2v l" "\<forall>m \<in> set (mb_blocks l). 16 dvd mb_p m" using assms(1) by (simp_all add: good_heap_def)
  note i = alloc_grow_inv[OF lm(1) assms(2,3)]
  show "set (arenas l') \<subseteq> insert (grow_iop g) (set (arenas l))" using i by simp
  have "\<forall>x \<in> set (arenas l'). x \<in> set (arenas l) \<or> good_arena v2b b2v x"
  proof (cases "\<not> irq \<and> insufficient_local_mem l \<noteq> 0")
    case True
    then obtain r where "GrowLocalMem b2v g (l\<lparr>insufficient_local_mem := 0\<rparr>) = Inr (r, l')"
      using assms(2) by (auto simp: alloc_grow_def split: sum.splits)
    then show ?thesis by (cases rule: GrowLocalMem_cases) (use assms(4) in auto)
  qed (use assms(2) in \<open>auto simp: alloc_grow_def split: if_splits\<close>)
  then show "good_heap v2b b2v l'"
    using i grow_aligned[OF assms(2) lm(2) assms(4)] assms(1) by (auto simp: good_heap_def)
qed

lemma good_heap_insufficient [simp]: "good_heap v2b b2v (l\<lparr>insufficient_local_mem := k\<rparr>) = good_heap v2b b2v l"
  by (simp add: good_heap_def mb_blocks_def)

text \<open>A request.\<close>

lemma scan_good:
  assumes "alloc_scan k (size256 n) l = Some (r, l')" "good_heap v2b b2v l" "0 < n"
  shows "good_heap v2b b2v l'"
proof -
  have lm: "lm_inv b2v l" "\<forall>m \<in> set (mb_blocks l). 16 dvd mb_p m" using assms(2) by (simp_all add: good_heap_def)
  have "lm_inv b2v l'" by (rule alloc_scan_inv[OF lm(1) assms(1) size256_round(3,2)[OF assms(3)]])
  then show ?thesis using scan_aligned[OF assms(1) lm assms(3)] alloc_scan_arenas[OF assms(1)] assms(2) by (simp add: good_heap_def)
qed

lemma alloc_good:
  assumes g: "good_heap v2b b2v l" and h: "heap_ok v2b b2v (arenas l) (e # es)" and a: "AllocLocalMem b2v e n l = Inr (r, l')" "0 < n"
  shows "good_heap v2b b2v l'" "heap_ok v2b b2v (arenas l') es"
proof -
  let ?g = "grow_iop (grow1 e)" and ?h = "grow_iop (grow2 e)"
  let ?more = "\<lambda>l. l\<lparr>insufficient_local_mem := Suc (insufficient_local_mem l)\<rparr>"
  have f: "fresh_arena b2v (arenas l) ?g" "fresh_arena b2v (?g # arenas l) ?h" "?g = 0 \<or> good_arena v2b b2v ?g"
    "?h = 0 \<or> good_arena v2b b2v ?h" "heap_ok v2b b2v (?h # ?g # arenas l) es"
    using h by (simp_all add: Let_def)
  have two: "good_heap v2b b2v l2 \<and> set (arenas l2) \<subseteq> set (?h # ?g # arenas l)"
    if "alloc_grow b2v (in_interrupt e) (grow1 e) l = Inr l1" "alloc_grow b2v (in_interrupt e) (grow2 e) (?more l1) = Inr l2" for l1 l2
  proof -
    note g1 = grow_good[OF g that(1) f(1,3)]
    have "fresh_arena b2v (arenas (?more l1)) ?h" by (rule fresh_arena_mono[OF f(2)]) (use g1(2) in simp)
    from grow_good[OF _ that(2) this f(4)] g1 show ?thesis by auto
  qed
  have "good_heap v2b b2v l' \<and> set (arenas l') \<subseteq> set (?h # ?g # arenas l)"
    using a(1)
  proof (cases rule: AllocLocalMem_cases)
    case (first l1)
    then show ?thesis using grow_good[OF g first(1) f(1,3)] scan_good[OF first(2) _ a(2)] alloc_scan_arenas[OF first(2)] by auto
  next
    case (second l1 l2)
    then show ?thesis using two[OF second(1,2)] scan_good[OF second(3) _ a(2)] alloc_scan_arenas[OF second(3)] by auto
  next
    case (none l1 l2)
    then show ?thesis using two[OF none(1,2)] by simp
  qed
  then show "good_heap v2b b2v l'" "heap_ok v2b b2v (arenas l') es" using heap_ok_mono[OF f(5)] by auto
qed

lemma heap_iop: "heap_ok v2b b2v (arenas l) (e # es) \<Longrightarrow> iop_heap_ok b2v e l"
  by (simp add: iop_heap_ok_def Let_def)

lemma alloc_live:
  assumes g: "good_heap v2b b2v l" and h: "heap_ok v2b b2v (arenas l) (e # es)" and n: "0 < n"
  shows "AllocLocalMem b2v e n l = Inr (None, l') \<Longrightarrow> live l' = live l"
    "AllocLocalMem b2v e n l = Inr (Some a, l') \<Longrightarrow> a \<notin> live l \<and> live l' = insert a (live l)"
proof -
  have lm: "lm_inv b2v l" using g by (simp add: good_heap_def)
  show "live l' = live l" if "AllocLocalMem b2v e n l = Inr (None, l')"
    using lm.alloc_none[OF lm heap_iop[OF h] n that] by (simp add: live_fst)
  show "a \<notin> live l \<and> live l' = insert a (live l)" if "AllocLocalMem b2v e n l = Inr (Some a, l')"
    using lm.alloc_fresh[OF lm heap_iop[OF h] n that] lm.alloc_live[OF lm heap_iop[OF h] n that] by (auto simp: live_fst)
qed

text \<open>The blocks that the staging of an URB leaves in its private part are the new ones, whether it
  succeeds or not.\<close>

lemma prepare_blocks:
  assumes g: "good_heap v2b b2v (dma_lm st)" and h: "heap_ok v2b b2v (arenas (dma_lm st)) [e1, e2]"
    and len: "unat (urb_transfer_buffer_length u) + 64 < 2 ^ 31"
    and prep: "Portable_PrepareUrbOnSubmit b2v e1 e2 u px0 st = Inr (r, p', st')"
    and xs: "xs = filter (\<lambda>a. a \<noteq> 0) [px_transfer_buffer p', px_setup_packet p']"
  shows "good_heap v2b b2v (dma_lm st')" "distinct xs" "set xs \<inter> live (dma_lm st) = {}" "live (dma_lm st') = live (dma_lm st) \<union> set xs"
proof -
  have packet: "good_heap v2b b2v (dma_lm t') \<and> px_transfer_buffer q' = px_transfer_buffer q \<and>
      (px_setup_packet q' = 0 \<and> live (dma_lm t') = live (dma_lm t) \<or>
       px_setup_packet q' \<noteq> 0 \<and> px_setup_packet q' \<notin> live (dma_lm t) \<and> live (dma_lm t') = insert (px_setup_packet q') (live (dma_lm t)))"
    if "prepare_setup b2v e2 u q t = Inr (r', q', t')" "px_setup_packet q = 0" "good_heap v2b b2v (dma_lm t)"
      "heap_ok v2b b2v (arenas (dma_lm t)) [e2]" for q t r' q' t'
    using that(1)
  proof (cases rule: prepare_setup_cases)
    case (nomem l)
    then show ?thesis using alloc_good(1)[OF that(3,4) nomem(2)] alloc_live(1)[OF that(3,4) _ nomem(2)] by simp
  next
    case (ok b l)
    note g = alloc_good(1)[OF that(3,4) ok(2)] and a = alloc_live(2)[OF that(3,4) _ ok(2)]
    have "0 < b" using good_live(1)[of v2b b2v l b] g a by simp
    then show ?thesis using g a ok by simp
  qed (use that in simp)
  obtain r1 p1 st1 where d: "prepare_data b2v e1 u px0 st = Inr (r1, p1, st1)"
    and s: "r1 \<noteq> None \<Longrightarrow> p' = p1 \<and> st' = st1" "r1 = None \<Longrightarrow> prepare_setup b2v e2 u p1 st1 = Inr (r, p', st')"
    using prep by (auto simp: Portable_PrepareUrbOnSubmit_def split: sum.splits option.splits prod.splits)
  have "good_heap v2b b2v (dma_lm st') \<and> distinct xs \<and> set xs \<inter> live (dma_lm st) = {} \<and> live (dma_lm st') = live (dma_lm st) \<union> set xs"
    using d len
  proof (cases rule: prepare_data_cases)
    case none
    have "heap_ok v2b b2v (arenas (dma_lm st)) [e2]"
      by (rule heap_ok_mono[of _ _ "grow_iop (grow2 e1) # grow_iop (grow1 e1) # arenas (dma_lm st)"]) (use h in \<open>auto simp: Let_def\<close>)
    then show ?thesis using packet[OF s(2)[OF none(2)]] g by (auto simp: xs none px0_def)
  next
    case (nomem l)
    then show ?thesis
      using s(1) alloc_good(1)[OF g h nomem(2)] alloc_live(1)[OF g h _ nomem(2)] staged_bytes_bounds(1)[OF nomem(1) len]
      by (simp add: xs px0_def)
  next
    case (ok b l m)
    note n = staged_bytes_bounds(1)[OF ok(1) len]
    note g1 = alloc_good[OF g h ok(2) n] and a1 = alloc_live(2)[OF g h n ok(2)]
    have b: "0 < b" using good_live(1)[OF g1(1)] a1 by simp
    have st1: "dma_lm st1 = l" "px_setup_packet p1 = 0" "px_transfer_buffer p1 = b" using ok by (simp_all add: px0_def)
    show ?thesis using packet[OF s(2)[OF ok(3)] st1(2)] g1 a1 b by (auto simp: st1 xs)
  qed
  then show "good_heap v2b b2v (dma_lm st')" "distinct xs" "set xs \<inter> live (dma_lm st) = {}" "live (dma_lm st') = live (dma_lm st) \<union> set xs"
    by simp_all
qed

text \<open>Freeing a list of blocks.\<close>

abbreviation free_list :: "addr list \<Rightarrow> local_mem \<Rightarrow> local_mem" where
  "free_list xs l \<equiv> fold (\<lambda>a l. snd (FreeLocalMem a l)) xs l"

lemma free_list_live:
  assumes "good_heap v2b b2v l"
  shows "good_heap v2b b2v (free_list xs l) \<and> live (free_list xs l) = live l - set xs \<and> arenas (free_list xs l) = arenas l"
  using assms
proof (induction xs arbitrary: l)
  case (Cons a xs)
  obtain b l' where f: "FreeLocalMem a l = (b, l')" by fastforce
  note fl = free_live[OF Cons.prems f]
  show ?case using Cons.IH[OF fl(1)] fl(2,3) f by auto
qed simp

lemma free_list_nonzero: "free_list (filter (\<lambda>a. a \<noteq> 0) xs) l = free_list xs l"
  by (induction xs arbitrary: l) simp_all

section \<open>Accounts\<close>

text \<open>Every owner has a list of blocks. The books are right when no block has two owners or is owned
  twice, and the owned blocks are exactly those handed out: nothing leaks and nothing dangles.\<close>

definition accounts :: "('o \<Rightarrow> 'b list) \<Rightarrow> 'b set \<Rightarrow> bool" where
  "accounts F L \<longleftrightarrow> (\<forall>i. distinct (F i)) \<and> (\<forall>i j. i \<noteq> j \<longrightarrow> set (F i) \<inter> set (F j) = {}) \<and> (\<Union>i. set (F i)) = L"

lemma accounts_cong: "(\<And>i. mset (F i) = mset (G i)) \<Longrightarrow> accounts F L = accounts G L"
  by (simp add: accounts_def mset_eq_imp_distinct_iff[of "F _" "G _"] mset_eq_setD[of "F _" "G _"])

lemma accounts_add:
  assumes "accounts F L" "distinct as" "set as \<inter> L = {}" "mset (G k) = mset as + mset (F k)" "\<And>i. i \<noteq> k \<Longrightarrow> G i = F i"
  shows "accounts G (L \<union> set as)"
proof -
  have k: "distinct (G k) \<longleftrightarrow> distinct (as @ F k)" "set (G k) = set as \<union> set (F k)"
    using assms(4) mset_eq_imp_distinct_iff[of "G k" "as @ F k"] mset_eq_setD[of "G k" "as @ F k"] by simp_all
  have s: "set (G i) = (if i = k then set as \<union> set (F k) else set (F i))" for i using k(2) assms(5) by simp
  have a: "set as \<inter> set (F i) = {}" for i using assms(1,3) by (auto simp: accounts_def)
  have "distinct (G i)" for i using k(1) a[of k] assms(1,2,5) by (cases "i = k") (auto simp: accounts_def)
  moreover have "set (G i) \<inter> set (G j) = {}" if "i \<noteq> j" for i j
  proof -
    have "set (F i) \<inter> set (F j) = {}" using assms(1) that by (simp add: accounts_def)
    then show ?thesis using that a[of i] a[of j] by (cases "i = k"; cases "j = k") (auto simp: s)
  qed
  moreover have "(\<Union>i. set (G i)) = L \<union> set as"
    using assms(1) unfolding s accounts_def by (auto split: if_splits)
  ultimately show ?thesis by (simp add: accounts_def)
qed

lemma accounts_clear:
  assumes "accounts F L" "G k = []" "\<And>i. i \<noteq> k \<Longrightarrow> G i = F i"
  shows "accounts G (L - set (F k))"
proof -
  have s: "set (G i) = (if i = k then {} else set (F i))" for i using assms(2,3) by simp
  have "distinct (G i)" for i using assms by (cases "i = k") (auto simp: accounts_def)
  moreover have "set (G i) \<inter> set (G j) = {}" if "i \<noteq> j" for i j
    using assms(1) that unfolding s accounts_def by auto
  moreover have "(\<Union>i. set (G i)) = L - set (F k)"
    using assms(1) unfolding s accounts_def by (auto split: if_splits)
  ultimately show ?thesis by (simp add: accounts_def)
qed

text \<open>Blocks move between two owners.\<close>

lemma accounts_move:
  assumes "accounts F L" "k \<noteq> m" "mset (G k) + mset (G m) = mset (F k) + mset (F m)" "\<And>i. i \<noteq> k \<Longrightarrow> i \<noteq> m \<Longrightarrow> G i = F i"
  shows "accounts G L"
proof -
  have F: "distinct (F k @ F m)" using assms(1,2) by (simp add: accounts_def)
  have "mset (G k @ G m) = mset (F k @ F m)" using assms(3) by simp
  then have G: "distinct (G k @ G m)" "set (G k) \<union> set (G m) = set (F k) \<union> set (F m)"
    using F mset_eq_imp_distinct_iff[of "G k @ G m" "F k @ F m"] mset_eq_setD[of "G k @ G m" "F k @ F m"] by auto
  have "distinct (G i)" for i using G(1) assms(1,4) by (cases "i = k"; cases "i = m") (auto simp: accounts_def)
  moreover have "set (G i) \<inter> set (G j) = {}" if "i \<noteq> j" for i j
  proof -
    have out: "set (G x) \<inter> (set (G k) \<union> set (G m)) = {}" if "x \<noteq> k" "x \<noteq> m" for x
      using assms(1,4) that unfolding G(2) by (fastforce simp: accounts_def)
    show ?thesis
      using that G(1) out[of i] out[of j] assms(1,4) by (cases "i \<in> {k, m}"; cases "j \<in> {k, m}") (fastforce simp: accounts_def)+
  qed
  moreover have "(\<Union>i. set (G i)) = L"
  proof -
    have "(\<Union>i. set (H i)) = set (H k) \<union> set (H m) \<union> (\<Union>i \<in> - {k, m}. set (H i))" for H :: "'a \<Rightarrow> 'b list" by auto
    moreover have "(\<Union>i \<in> - {k, m}. set (G i)) = (\<Union>i \<in> - {k, m}. set (F i))" using assms(4) by auto
    ultimately show ?thesis using G(2) assms(1) by (simp add: accounts_def)
  qed
  ultimately show ?thesis by (simp add: accounts_def)
qed

lemma accounts_owned: "accounts F L \<Longrightarrow> a \<in> set (F i) \<Longrightarrow> a \<in> L"
  by (auto simp: accounts_def)

lemma accounts_apart: "accounts F L \<Longrightarrow> a \<in> set (F i) \<Longrightarrow> a \<in> set (F j) \<Longrightarrow> i = j"
  by (auto simp: accounts_def)

end
