(* ===== verification/Ownership.thy ===== *)
theory Ownership
  imports Driver Block_Owners
begin

text \<open>
  Who owns the memory of the I/O processor. A block that the driver has allocated belongs to the
  private part of an URB (its descriptors and staged buffers) or is the empty descriptor at the end
  of an endpoint's queue. A submission swaps descriptors between the two, the deletion of a doomed
  endpoint frees its empty descriptor; the books stay right in every operation.
\<close>

section \<open>The books\<close>

text \<open>\<open>In_hand\<close> are blocks that an operation has allocated and not stored yet.\<close>

datatype owner = In_hand | Of_urb addr | Of_ed desc

definition urb_blocks :: "henv \<Rightarrow> urb_priv \<Rightarrow> addr list" where
  "urb_blocks K p = map (bus_to_virt K) (filter (\<lambda>t. t \<noteq> 0) (p_td p)) @
     filter (\<lambda>a. a \<noteq> 0) [px_transfer_buffer (portable p), px_setup_packet (portable p)]"

fun owned :: "henv \<Rightarrow> addr list \<Rightarrow> hcd \<Rightarrow> owner \<Rightarrow> addr list" where
  "owned K H s In_hand = H"
| "owned K H s (Of_urb u) = (case hcpriv (urbs s u) of None \<Rightarrow> [] | Some p \<Rightarrow> urb_blocks K p)"
| "owned K H s (Of_ed e) = (if state (eds s e) = ED_NEW \<or> hwTailP (eds s e) = 0 then [] else [bus_to_virt K (hwTailP (eds s e))])"

text \<open>A bus address that was made from a block.\<close>

definition real_td :: "henv \<Rightarrow> desc \<Rightarrow> bool" where
  "real_td K t \<longleftrightarrow> t = 0 \<or> virt_to_bus K (bus_to_virt K t) = t"

text \<open>An endpoint that is waiting to be removed with its device.\<close>

abbreviation doomed :: "hcd \<Rightarrow> desc \<Rightarrow> bool" where
  "doomed s e \<equiv> state (eds s e) AND ED_DEL \<noteq> 0"

definition ed_states :: "u8 set" where
  "ed_states = {ED_NEW, ED_UNLINK, ED_OPER, ED_DEL, ED_UNLINK OR ED_URB_DEL, ED_OPER OR ED_URB_DEL}"

definition priv_fits :: "henv \<Rightarrow> hcd \<Rightarrow> urb_priv \<Rightarrow> bool" where
  "priv_fits K s p \<longleftrightarrow> length (p_td p) = unat (p_length p) \<and> (\<forall>t \<in> set (p_td p). real_td K t) \<and>
     state (eds s (p_ed p)) \<noteq> ED_NEW \<and> \<not> doomed s (p_ed p)"

definition ed_fits :: "henv \<Rightarrow> ed \<Rightarrow> bool" where
  "ed_fits K d \<longleftrightarrow> state d \<in> ed_states \<and> (state d \<noteq> ED_NEW \<longrightarrow> real_td K (hwTailP d))"

abbreviation lm_of :: "hcd \<Rightarrow> local_mem" where "lm_of s \<equiv> dma_lm (hcd_dma s)"

abbreviation good_lm :: "henv \<Rightarrow> local_mem \<Rightarrow> bool" where "good_lm K \<equiv> good_heap (virt_to_bus K) (bus_to_virt K)"

definition books :: "henv \<Rightarrow> addr list \<Rightarrow> hcd \<Rightarrow> bool" where
  "books K H s \<longleftrightarrow> good_lm K (lm_of s) \<and> accounts (owned K H s) (live (lm_of s)) \<and>
     (\<forall>u p. hcpriv (urbs s u) = Some p \<longrightarrow> priv_fits K s p) \<and> (\<forall>e. ed_fits K (eds s e))"

lemma booksD:
  assumes "books K H s"
  shows "good_lm K (lm_of s)" "accounts (owned K H s) (live (lm_of s))"
    "hcpriv (urbs s u) = Some p \<Longrightarrow> priv_fits K s p" "ed_fits K (eds s e)"
  using assms by (simp_all add: books_def)

text \<open>No endpoint is doomed by the way, and the doomed ones keep their tail.\<close>

definition spares :: "hcd \<Rightarrow> hcd \<Rightarrow> bool" where
  "spares s t \<longleftrightarrow> (\<forall>e. doomed t e \<longrightarrow> doomed s e \<and> hwTailP (eds t e) = hwTailP (eds s e))"

text \<open>What is asked of the completion handlers, which run in the interrupt: whatever they call, the
  books are right afterwards, and they remove no device.\<close>

definition honest :: "henv \<Rightarrow> bool" where
  "honest K \<longleftrightarrow> (\<forall>u s H. books K H s \<longrightarrow> books K H (on_complete K u s) \<and> spares s (on_complete K u s))"

definition keeps_books :: "henv \<Rightarrow> hcd \<Rightarrow> hcd \<Rightarrow> bool" where
  "keeps_books K s t \<longleftrightarrow> (honest K \<longrightarrow> (\<forall>H. books K H s \<longrightarrow> books K H t \<and> spares s t))"

lemma spares_same: "(\<And>e. eds t e = eds s e) \<Longrightarrow> spares s t"
  by (simp add: spares_def)

section \<open>Steps\<close>

lemma neutral_hcpriv:
  assumes "neutral s t"
  shows "hcpriv (urbs t u) = Some p \<Longrightarrow> \<exists>q. hcpriv (urbs s u) = Some q \<and> view_priv q = view_priv p"
    "hcpriv (urbs t u) = None \<longleftrightarrow> hcpriv (urbs s u) = None"
proof -
  have "map_option view_priv (hcpriv (urbs t u)) = map_option view_priv (hcpriv (urbs s u))" using assms by (simp add: neutral_def)
  then show "hcpriv (urbs t u) = Some p \<Longrightarrow> \<exists>q. hcpriv (urbs s u) = Some q \<and> view_priv q = view_priv p"
    "hcpriv (urbs t u) = None \<longleftrightarrow> hcpriv (urbs s u) = None"
    by (cases "hcpriv (urbs t u)"; cases "hcpriv (urbs s u)"; simp)+
qed

lemma owned_neutral:
  assumes "neutral s t"
  shows "owned K H t = owned K H s"
proof
  fix i
  show "owned K H t i = owned K H s i"
  proof (cases i)
    case (Of_urb u)
    show ?thesis
    proof (cases "hcpriv (urbs t u)")
      case None
      then show ?thesis using neutral_hcpriv(2)[OF assms, of u] Of_urb by simp
    next
      case (Some p)
      then show ?thesis using neutral_hcpriv(1)[OF assms Some] Of_urb by (auto simp: urb_blocks_def view_priv_def)
    qed
  qed (use assms in \<open>simp_all add: neutral_def\<close>)
qed

lemma books_neutral:
  assumes "neutral s t" "books K H s"
  shows "books K H t"
proof -
  have e: "state (eds t e) = state (eds s e)" "hwTailP (eds t e) = hwTailP (eds s e)" "lm_of t = lm_of s" for e
    using assms(1) by (simp_all add: neutral_def)
  have "priv_fits K t p" if p: "hcpriv (urbs t u) = Some p" for u p
  proof -
    obtain q where q: "hcpriv (urbs s u) = Some q" "view_priv q = view_priv p" using neutral_hcpriv(1)[OF assms(1) p] by blast
    then show ?thesis using booksD(3)[OF assms(2) q(1)] by (simp add: priv_fits_def e view_priv_def)
  qed
  then show ?thesis using assms(2) by (simp add: books_def owned_neutral[OF assms(1)] e ed_fits_def)
qed

lemma books_lock [simp]: "books K H (s\<lparr>ed_lock := b\<rparr>) = books K H s"
proof -
  have "owned K H (s\<lparr>ed_lock := b\<rparr>) = owned K H s"
    by (rule ext) (rename_tac i, case_tac i; simp)
  then show ?thesis by (simp add: books_def priv_fits_def)
qed

text \<open>The bus address of an owned block.\<close>

lemma real_live:
  assumes "good_lm K l" "real_td K t" "t \<noteq> 0 \<Longrightarrow> bus_to_virt K t \<in> live l"
  shows "ptr t = t"
proof (cases "t = 0")
  case False
  then have "virt_to_bus K (bus_to_virt K t) = t" using assms(2) by (simp add: real_td_def)
  then show ?thesis using good_live(4)[OF assms(1) assms(3)[OF False]] by (simp add: ptr_def)
qed (simp add: ptr_def)

lemma books_tail:
  assumes "books K H s" "state (eds s e) \<noteq> ED_NEW"
  shows "ptr (hwTailP (eds s e)) = hwTailP (eds s e)"
proof (rule real_live[OF booksD(1)[OF assms(1)]])
  show "real_td K (hwTailP (eds s e))" using booksD(4)[OF assms(1), of e] assms(2) by (simp add: ed_fits_def)
  show "bus_to_virt K (hwTailP (eds s e)) \<in> live (lm_of s)" if "hwTailP (eds s e) \<noteq> 0"
    using accounts_owned[OF booksD(2)[OF assms(1)], of _ "Of_ed e"] assms(2) that by simp
qed

subsection \<open>Freeing the private part\<close>

lemma rm_priv_state:
  assumes "hcpriv (urbs s u) = Some p" "length (p_td p) = unat (p_length p)"
  shows "urbs (urb_rm_priv K u s) = (urbs s)(u := (urbs s u)\<lparr>hcpriv := None\<rparr>)" "eds (urb_rm_priv K u s) = eds s"
    "lm_of (urb_rm_priv K u s) = free_list (urb_blocks K p) (lm_of s)"
proof -
  have f: "lm_of (fold (\<lambda>t s. if t \<noteq> 0 then free_local (bus_to_virt K t) s else s) ts q) =
      free_list (map (bus_to_virt K) (filter (\<lambda>t. t \<noteq> 0) ts)) (lm_of q) \<and>
    urbs (fold (\<lambda>t s. if t \<noteq> 0 then free_local (bus_to_virt K t) s else s) ts q) = urbs q \<and>
    eds (fold (\<lambda>t s. if t \<noteq> 0 then free_local (bus_to_virt K t) s else s) ts q) = eds q" for ts and q :: hcd
    by (induction ts arbitrary: q) (simp_all add: free_local_def)
  show "urbs (urb_rm_priv K u s) = (urbs s)(u := (urbs s u)\<lparr>hcpriv := None\<rparr>)" "eds (urb_rm_priv K u s) = eds s"
    using assms f by (simp_all add: urb_rm_priv_def Let_def upd_urb_def)
  show "lm_of (urb_rm_priv K u s) = free_list (urb_blocks K p) (lm_of s)"
    using assms f by (simp add: urb_rm_priv_def Let_def upd_urb_def Portable_FreeUrb_def urb_blocks_def)
qed

lemma rm_priv_eds: "eds (urb_rm_priv K u s) = eds s"
proof (cases "hcpriv (urbs s u)")
  case (Some p)
  have "eds (fold (\<lambda>t s. if t \<noteq> 0 then free_local (bus_to_virt K t) s else s) ts q) = eds q" for ts and q :: hcd
    by (induction ts arbitrary: q) (simp_all add: free_local_def)
  then show ?thesis using Some by (simp add: urb_rm_priv_def Let_def upd_urb_def)
qed (simp add: urb_rm_priv_def)

lemma books_rm_priv:
  assumes "books K H s"
  shows "books K H (urb_rm_priv K u s)"
proof (cases "hcpriv (urbs s u)")
  case None
  then show ?thesis using assms by (simp add: urb_rm_priv_def)
next
  case (Some p)
  let ?t = "urb_rm_priv K u s"
  have "length (p_td p) = unat (p_length p)" using booksD(3)[OF assms Some] by (simp add: priv_fits_def)
  note t = rm_priv_state[OF Some this, of K]
  note fl = free_list_live[OF booksD(1)[OF assms], of "urb_blocks K p"]
  have "accounts (owned K H ?t) (live (lm_of s) - set (owned K H s (Of_urb u)))"
  proof (rule accounts_clear[OF booksD(2)[OF assms]])
    show "owned K H ?t (Of_urb u) = []" by (simp add: t)
    show "owned K H ?t i = owned K H s i" if "i \<noteq> Of_urb u" for i using that by (cases i) (simp_all add: t)
  qed
  moreover have "priv_fits K ?t q" if "hcpriv (urbs ?t v) = Some q" for v q
    using that booksD(3)[OF assms, of v q] by (auto simp: t priv_fits_def split: if_splits)
  ultimately show ?thesis using fl booksD(4)[OF assms] Some by (simp add: books_def t)
qed

subsection \<open>Filling a descriptor\<close>

text \<open>What \<open>td_fill\<close> does to the view: the tail of the endpoint and an entry of \<open>td[]\<close> are swapped.\<close>

lemma td_fill_view:
  assumes "td_fill K info data len u i s = Some t" "hcpriv (urbs s u) = Some p" "i < unat (p_length p)"
    and "ptr (hwTailP (eds s (p_ed p))) = p_td p ! i \<Longrightarrow> p_td p ! i = 0"
  shows "hcpriv (urbs t u) = Some (p\<lparr>p_td := (p_td p)[i := ptr (hwTailP (eds s (p_ed p)))]\<rparr>)"
    "v \<noteq> u \<Longrightarrow> urbs t v = urbs s v" "state (eds t e) = state (eds s e)"
    "hwTailP (eds t e) = (if e = p_ed p then p_td p ! i else hwTailP (eds s e))" "hcd_dma t = hcd_dma s"
proof -
  let ?T = "ptr (hwTailP (eds s (p_ed p)))" and ?n = "p_td p ! i"
  have n: "(if ?n = ?T then 0 else ?n) = ?n" using assms(4) by auto
  show "hcpriv (urbs t u) = Some (p\<lparr>p_td := (p_td p)[i := ?T]\<rparr>)"
    "v \<noteq> u \<Longrightarrow> urbs t v = urbs s v" "state (eds t e) = state (eds s e)"
    "hwTailP (eds t e) = (if e = p_ed p then ?n else hwTailP (eds s e))" "hcd_dma t = hcd_dma s"
    using assms(1-3) n by (auto simp: td_fill_def Let_def upd_td_def upd_ed_def upd_priv_def upd_urb_def split: if_splits)
qed

lemma mset_swap:
  "i < length xs \<Longrightarrow> mset (filter P (xs[i := y])) + mset (filter P [xs ! i]) = mset (filter P xs) + mset (filter P [y])"
proof (induction xs arbitrary: i)
  case (Cons x xs)
  show ?case
  proof (cases i)
    case (Suc k)
    then show ?thesis using Cons.IH[of k] Cons.prems by auto
  qed auto
qed simp

lemma books_td_fill:
  assumes "books K H s" "td_fill K info data len u i s = Some t"
  shows "books K H t"
proof -
  obtain p where p: "hcpriv (urbs s u) = Some p" using assms(2) by (auto simp: td_fill_def split: option.splits)
  show ?thesis
  proof (cases "i < unat (p_length p)")
    case False
    then have "neutral s t" using assms(2) p by (auto simp: td_fill_def neutral_simps)
    then show ?thesis using assms(1) by (rule books_neutral)
  next
    case True
    note fit = booksD(3)[OF assms(1) p, unfolded priv_fits_def]
    let ?e = "p_ed p" and ?T = "hwTailP (eds s (p_ed p))" and ?n = "p_td p ! i"
    have T: "ptr ?T = ?T" "real_td K ?T" using books_tail[OF assms(1)] booksD(4)[OF assms(1), of ?e] fit by (auto simp: ed_fits_def)
    have n: "?n \<in> set (p_td p)" using True fit by simp
    have apart: "?n = 0" if "?T = ?n"
    proof (rule ccontr)
      assume "?n \<noteq> 0"
      then have "bus_to_virt K ?n \<in> set (owned K H s (Of_urb u))" "bus_to_virt K ?n \<in> set (owned K H s (Of_ed ?e))"
        using p n fit that by (simp_all add: urb_blocks_def)
      from accounts_apart[OF booksD(2)[OF assms(1)] this] show False by simp
    qed
    note v = td_fill_view[OF assms(2) p True, unfolded T(1), OF apart]
    have o: "owned K H t j = owned K H s j" if "j \<noteq> Of_urb u" "j \<noteq> Of_ed ?e" for j
      using that by (cases j) (simp_all add: v)
    have "mset (owned K H t (Of_urb u)) + mset (owned K H t (Of_ed ?e)) = mset (owned K H s (Of_urb u)) + mset (owned K H s (Of_ed ?e))"
    proof -
      have "image_mset (bus_to_virt K) (mset (filter (\<lambda>t. t \<noteq> 0) ((p_td p)[i := ?T])) + mset (filter (\<lambda>t. t \<noteq> 0) [?n])) =
        image_mset (bus_to_virt K) (mset (filter (\<lambda>t. t \<noteq> 0) (p_td p)) + mset (filter (\<lambda>t. t \<noteq> 0) [?T]))"
        using mset_swap[of i "p_td p" "\<lambda>t. t \<noteq> 0" ?T] True fit by simp
      then show ?thesis using fit p by (auto simp: v urb_blocks_def split: if_splits)
    qed
    from accounts_move[OF booksD(2)[OF assms(1)] _ this o] have "accounts (owned K H t) (live (lm_of s))" by simp
    moreover have "priv_fits K t q" if q: "hcpriv (urbs t w) = Some q" for w q
    proof (cases "w = u")
      case True
      have "set ((p_td p)[i := ?T]) \<subseteq> insert ?T (set (p_td p))" by (rule set_update_subset_insert)
      then show ?thesis using q True fit T(2) by (auto simp: priv_fits_def v)
    next
      case False
      then show ?thesis using q booksD(3)[OF assms(1)] by (simp add: priv_fits_def v)
    qed
    moreover have "ed_fits K (eds t e)" for e
      using booksD(4)[OF assms(1), of e] fit n by (auto simp: ed_fits_def v)
    ultimately show ?thesis using booksD(1)[OF assms(1)] by (simp add: books_def v)
  qed
qed

lemma spares_td_fill:
  assumes "books K H s" "td_fill K info data len u i s = Some t"
  shows "spares s t"
proof -
  obtain p where p: "hcpriv (urbs s u) = Some p" using assms(2) by (auto simp: td_fill_def split: option.splits)
  have "state (eds t e) = state (eds s e)" "e \<noteq> p_ed p \<Longrightarrow> hwTailP (eds t e) = hwTailP (eds s e)" for e
    using assms(2) p by (auto simp: td_fill_def Let_def upd_td_def upd_ed_def upd_priv_def upd_urb_def err_log_def split: if_splits)
  moreover have "\<not> doomed s (p_ed p)" using booksD(3)[OF assms(1) p] by (simp add: priv_fits_def)
  ultimately show ?thesis unfolding spares_def by metis
qed

subsection \<open>States of endpoints\<close>

lemma books_ed:
  assumes "books K H s" "state (eds s e) = ED_NEW \<longleftrightarrow> c = ED_NEW" "c \<in> ed_states"
    and idle: "c AND ED_DEL = 0 \<or> (\<forall>u p. hcpriv (urbs s u) = Some p \<longrightarrow> p_ed p \<noteq> e)"
    and "state (f (eds s e)) = c" "hwTailP (f (eds s e)) = hwTailP (eds s e)"
  shows "books K H (upd_ed e f s)"
proof -
  have "owned K H (upd_ed e f s) = owned K H s"
  proof
    fix i show "owned K H (upd_ed e f s) i = owned K H s i"
      using assms(2,5,6) by (cases i) (auto simp: upd_ed_def)
  qed
  then show ?thesis
    using assms booksD(4)[OF assms(1), of e] by (auto simp: books_def priv_fits_def ed_fits_def upd_ed_def)
qed

lemma spares_ed: "c AND ED_DEL = 0 \<Longrightarrow> state (f (eds s e)) = c \<Longrightarrow> spares s (upd_ed e f s)"
  by (simp add: spares_def upd_ed_def)

lemma spares_trans: "spares s t \<Longrightarrow> spares t r \<Longrightarrow> spares s r"
  by (simp add: spares_def)

lemma free_local_simps [simp]: "urbs (free_local a s) = urbs s" "eds (free_local a s) = eds s"
  by (simp_all add: free_local_def)

text \<open>A doomed endpoint gives its empty descriptor back and is new again.\<close>

lemma books_free_tail:
  assumes "books K H s" "doomed s e" "state (f (eds s e)) = ED_NEW"
  shows "books K H (upd_ed e f (free_local (bus_to_virt K (hwTailP (eds s e))) s))"
proof -
  let ?a = "bus_to_virt K (hwTailP (eds s e))"
  let ?t = "upd_ed e f (free_local ?a s)"
  have new: "state (eds s e) \<noteq> ED_NEW" using assms(2) by auto
  obtain b l where f: "FreeLocalMem ?a (lm_of s) = (b, l)" by fastforce
  note g = free_live[OF booksD(1)[OF assms(1)] f]
  have t: "urbs ?t = urbs s" "eds ?t = (eds s)(e := f (eds s e))" "lm_of ?t = l"
    by (simp_all add: upd_ed_def free_local_def f)
  have o: "accounts (owned K H ?t) (live (lm_of s) - set (owned K H s (Of_ed e)))"
  proof (rule accounts_clear[OF booksD(2)[OF assms(1)]])
    show "owned K H ?t (Of_ed e) = []" using assms(3) by (simp add: t)
    show "owned K H ?t i = owned K H s i" if "i \<noteq> Of_ed e" for i using that by (cases i) (auto simp: t)
  qed
  have "live l = live (lm_of s) - set (owned K H s (Of_ed e))"
  proof (cases "hwTailP (eds s e) = 0")
    case True
    then have "?a \<notin> live (lm_of s)" using good_live(5)[OF booksD(1)[OF assms(1)]] by auto
    then show ?thesis using g(2) True by simp
  next
    case False
    then show ?thesis using g(2) new by simp
  qed
  moreover have "priv_fits K ?t p" if "hcpriv (urbs ?t u) = Some p" for u p
  proof -
    have "p_ed p \<noteq> e" using booksD(3)[OF assms(1), of u p] that assms(2) by (auto simp: t priv_fits_def)
    then show ?thesis using booksD(3)[OF assms(1), of u p] that by (simp add: t priv_fits_def)
  qed
  moreover have "ed_fits K (eds ?t i)" for i
    using booksD(4)[OF assms(1), of i] assms(3) by (auto simp: t ed_fits_def ed_states_def)
  ultimately show ?thesis using o g(1) by (simp add: books_def t)
qed

lemma books_del_ed:
  assumes "books K H t" "spares s t"
  shows "books K H (del_ed K info (ptr (hwTailP (eds s e))) e t) \<and> spares s (del_ed K info (ptr (hwTailP (eds s e))) e t)"
proof (cases "doomed t e")
  case True
  let ?f = "\<lambda>d. d\<lparr>hwINFO := OHCI_ED_SKIP, state := ED_NEW\<rparr>"
  have "state (eds t e) \<noteq> ED_NEW" using True by auto
  then have tail: "ptr (hwTailP (eds s e)) = hwTailP (eds t e)"
    using True assms(2) books_tail[OF assms(1), of e] by (simp add: spares_def)
  define r where "r = upd_ed e ?f (free_local (bus_to_virt K (hwTailP (eds t e))) t)"
  have r: "books K H r" unfolding r_def by (rule books_free_tail[OF assms(1) True]) simp
  have "neutral r (del_ed K info (ptr (hwTailP (eds s e))) e t)"
    using True by (simp add: del_ed_def tail Let_def neutral_simps r_def)
  then have n: "books K H (del_ed K info (ptr (hwTailP (eds s e))) e t)" "spares r (del_ed K info (ptr (hwTailP (eds s e))) e t)"
    using books_neutral r by (auto simp: spares_def neutral_def)
  have "spares t r" by (simp add: spares_def r_def upd_ed_def free_local_def)
  then show ?thesis using n spares_trans assms(2) by blast
next
  case False
  have st: "state (eds t e) \<in> ed_states" using booksD(4)[OF assms(1), of e] by (simp add: ed_fits_def)
  let ?c = "state (eds t e) AND NOT ED_URB_DEL" and ?f = "\<lambda>d. d\<lparr>state := state d AND NOT ED_URB_DEL, hwINFO := hwINFO d AND NOT OHCI_ED_SKIP\<rparr>"
  have d: "del_ed K info (ptr (hwTailP (eds s e))) e t = upd_ed e ?f t" using False by (simp add: del_ed_def)
  have c: "?c \<in> ed_states" "?c AND ED_DEL = 0" "state (eds t e) = ED_NEW \<longleftrightarrow> ?c = ED_NEW" using st False by (auto simp: ed_states_def)
  have "books K H (upd_ed e ?f t)" by (rule books_ed[OF assms(1) c(3,1)]) (use c(2) in auto)
  moreover have "spares t (upd_ed e ?f t)" using c(2) by (rule spares_ed) simp
  ultimately show ?thesis unfolding d using assms(2) spares_trans by blast
qed

lemma keeps_books_same:
  assumes "\<And>H. books K H s \<Longrightarrow> books K H t" "\<And>e. eds t e = eds s e"
  shows "keeps_books K s t"
  using assms spares_same by (simp add: keeps_books_def)

interpretation bk: driver_relation K "keeps_books K" for K
proof unfold_locales
  show "keeps_books K s t \<Longrightarrow> keeps_books K t r \<Longrightarrow> keeps_books K s r" for s t r
    unfolding keeps_books_def using spares_trans by blast
  show "keeps_books K s t" if "neutral s t" for s t
    using books_neutral[OF that] that by (simp add: keeps_books_def spares_def neutral_def)
  show "keeps_books K s (urb_rm_priv K u s)" for s u
    using books_rm_priv rm_priv_eds by (intro keeps_books_same) auto
  show "keeps_books K s t" if "td_fill K info data len u i s = Some t" for info data len u i s t
    unfolding keeps_books_def using books_td_fill[OF _ that] spares_td_fill[OF _ that] by blast
  show "keeps_books K s (upd_ed e (state_update (\<lambda>_. c)) s)" if "state (eds s e) \<noteq> ED_NEW" "c \<in> {ED_UNLINK, ED_OPER}" for s e c
    using that unfolding keeps_books_def
    by (auto simp: ed_states_def intro!: books_ed[where c = c] spares_ed[where c = c])
  show "keeps_books K s (upd_ed (p_ed p) (\<lambda>d. d\<lparr>state := state d OR ED_URB_DEL\<rparr>) s)" if "hcpriv (urbs s u) = Some p" for s u p
    unfolding keeps_books_def
  proof (intro impI allI conjI)
    fix H assume b: "books K H s"
    let ?c = "state (eds s (p_ed p)) OR ED_URB_DEL"
    have "state (eds s (p_ed p)) \<in> ed_states" "state (eds s (p_ed p)) \<noteq> ED_NEW" "\<not> doomed s (p_ed p)"
      using booksD(3)[OF b that] booksD(4)[OF b, of "p_ed p"] by (simp_all add: ed_fits_def priv_fits_def)
    then have c: "?c \<in> ed_states" "?c AND ED_DEL = 0" "?c \<noteq> ED_NEW" "state (eds s (p_ed p)) \<noteq> ED_NEW" by (auto simp: ed_states_def)
    show "books K H (upd_ed (p_ed p) (\<lambda>d. d\<lparr>state := state d OR ED_URB_DEL\<rparr>) s)"
      by (rule books_ed[OF b _ c(1)]) (use c in simp_all)
    show "spares s (upd_ed (p_ed p) (\<lambda>d. d\<lparr>state := state d OR ED_URB_DEL\<rparr>) s)" using c(2) by (rule spares_ed) simp
  qed
  show "keeps_books K s (del_ed K info (ptr (hwTailP (eds s e))) e t)" if "keeps_books K s t" for s t info e
    using that books_del_ed unfolding keeps_books_def by blast
  show "keeps_books K s (on_complete K u s)" for s u by (simp add: keeps_books_def honest_def)
  show "keeps_books K (s\<lparr>ed_lock := True\<rparr>) t \<Longrightarrow> keeps_books K s (t\<lparr>ed_lock := False\<rparr>)" for s t
    by (simp add: keeps_books_def spares_def)
qed

section \<open>Submitting\<close>

abbreviation heap_for :: "henv \<Rightarrow> hcd \<Rightarrow> alloc_in list \<Rightarrow> bool" where
  "heap_for K s es \<equiv> heap_ok (virt_to_bus K) (bus_to_virt K) (arenas (lm_of s)) es"

lemma heap_for_skip: "heap_for K s (e # es) \<Longrightarrow> heap_for K s es"
  by (rule heap_ok_mono[where as = "grow_iop (grow2 e) # grow_iop (grow1 e) # arenas (lm_of s)"]) (auto simp: Let_def)

lemma owned_hand: "owned K H s (Of_urb u) = owned K H' s (Of_urb u)" "owned K H s (Of_ed e) = owned K H' s (Of_ed e)"
  by simp_all

lemma owned_dma: "owned K H (s\<lparr>hcd_dma := d\<rparr>) = owned K H s"
  by (rule ext) (rename_tac i, case_tac i; simp)

text \<open>An allocated descriptor is in hand.\<close>

lemma books_alloc_local:
  assumes "books K H s" "heap_for K s (e # es)" "0 < n" "alloc_local K e n s = Some (d, t)"
  shows "heap_for K t es \<and> urbs t = urbs s \<and> eds t = eds s \<and> real_td K d \<and>
    books K (if d = 0 then H else bus_to_virt K d # H) t"
proof -
  obtain r l where a: "AllocLocalMem (bus_to_virt K) e n (lm_of s) = Inr (r, l)"
    and d: "d = (case r of None \<Rightarrow> 0 | Some a \<Rightarrow> virt_to_bus K a)" and t: "t = s\<lparr>hcd_dma := (hcd_dma s)\<lparr>dma_lm := l\<rparr>\<rparr>"
    using assms(4) by (auto simp: alloc_local_def split: sum.splits)
  note g = alloc_good[OF booksD(1)[OF assms(1)] assms(2) a assms(3)]
  note lv = alloc_live[OF booksD(1)[OF assms(1)] assms(2,3)]
  have same: "priv_fits K t p = priv_fits K s p" for p by (simp add: t priv_fits_def)
  show ?thesis
  proof (cases r)
    case None
    then have "live l = live (lm_of s)" using lv(1) a by simp
    then show ?thesis using assms(1) g None
      by (simp add: d real_td_def books_def same) (simp add: t owned_dma)
  next
    case (Some x)
    then have l: "x \<notin> live (lm_of s)" "live l = insert x (live (lm_of s))" using lv(2) a by auto
    note x = good_live[OF g(1), of x, unfolded l(2), OF insertI1]
    have "accounts (owned K (x # H) s) (live (lm_of s) \<union> set [x])"
    proof (rule accounts_add[OF booksD(2)[OF assms(1)], where k = In_hand])
      show "owned K (x # H) s i = owned K H s i" if "i \<noteq> In_hand" for i using that by (cases i) simp_all
    qed (use l in auto)
    then show ?thesis using assms(1) g x l(2) Some
      by (simp add: d real_td_def books_def same) (simp add: t owned_dma)
  qed
qed

text \<open>A descriptor in hand becomes an entry of \<open>td[]\<close> that was empty.\<close>

lemma books_store_td:
  assumes "books K (if d = 0 then H else bus_to_virt K d # H) s" "real_td K d"
    and p: "hcpriv (urbs s u) = Some p" "i < length (p_td p)" "p_td p ! i = 0"
  shows "books K H (upd_priv u (p_td_update (\<lambda>l. l[i := d])) s)"
proof -
  let ?H = "if d = 0 then H else bus_to_virt K d # H" and ?t = "upd_priv u (p_td_update (\<lambda>l. l[i := d])) s"
  have hp: "hcpriv (urbs ?t u) = Some (p\<lparr>p_td := (p_td p)[i := d]\<rparr>)" "v \<noteq> u \<Longrightarrow> urbs ?t v = urbs s v" "eds ?t = eds s" "hcd_dma ?t = hcd_dma s" for v
    using p(1) by (simp_all add: upd_priv_def upd_urb_def)
  have "accounts (owned K H ?t) (live (lm_of s))"
  proof (rule accounts_move[OF booksD(2)[OF assms(1)], where k = In_hand and m = "Of_urb u"])
    have "image_mset (bus_to_virt K) (mset (filter (\<lambda>t. t \<noteq> 0) ((p_td p)[i := d])) + mset (filter (\<lambda>t. t \<noteq> 0) [p_td p ! i])) =
        image_mset (bus_to_virt K) (mset (filter (\<lambda>t. t \<noteq> 0) (p_td p)) + mset (filter (\<lambda>t. t \<noteq> 0) [d]))"
      using mset_swap[OF p(2), of "\<lambda>t. t \<noteq> 0" d] by simp
    then show "mset (owned K H ?t In_hand) + mset (owned K H ?t (Of_urb u)) = mset (owned K ?H s In_hand) + mset (owned K ?H s (Of_urb u))"
      using p by (auto simp: hp urb_blocks_def split: if_splits)
    show "owned K H ?t j = owned K ?H s j" if "j \<noteq> In_hand" "j \<noteq> Of_urb u" for j using that by (cases j) (simp_all add: hp)
  qed simp
  moreover have "priv_fits K ?t q" if q: "hcpriv (urbs ?t v) = Some q" for v q
  proof (cases "v = u")
    case True
    have "set ((p_td p)[i := d]) \<subseteq> insert d (set (p_td p))" by (rule set_update_subset_insert)
    then show ?thesis using q True assms(2) booksD(3)[OF assms(1) p(1)] by (auto simp: priv_fits_def hp)
  next
    case False
    then show ?thesis using q booksD(3)[OF assms(1)] by (simp add: priv_fits_def hp)
  qed
  ultimately show ?thesis using assms(1) by (simp add: books_def hp)
qed

lemma books_alloc_tds:
  assumes "alloc_tds K es u is s = Some (b, t)" "books K H s" "heap_for K s (map es is @ rest)"
    and "hcpriv (urbs s u) = Some p" "distinct is" "\<forall>i \<in> set is. i < length (p_td p) \<and> p_td p ! i = 0"
  shows "books K H t \<and> (b \<longrightarrow> heap_for K t rest) \<and> eds t = eds s \<and> (\<forall>v. v \<noteq> u \<longrightarrow> urbs t v = urbs s v) \<and>
    (\<exists>q. urbs t u = (urbs s u)\<lparr>hcpriv := Some (p\<lparr>p_td := q\<rparr>)\<rparr>)"
  using assms
proof (induction K es u "is" s arbitrary: p rule: alloc_tds.induct)
  case (1 K es u s)
  then show ?case by (intro conjI exI[of _ "p_td p"]) auto
next
  case (2 K es u i "is" s)
  obtain d s1 where a: "alloc_local K (es i) sizeof_td s = Some (d, s1)" using "2.prems"(1) by (auto simp: Option.bind_eq_Some_conv)
  have h: "heap_for K s (es i # (map es is @ rest))" using "2.prems"(3) by simp
  note al = books_alloc_local[OF "2.prems"(2) h _ a, unfolded sizeof_td_def, simplified]
  let ?s = "upd_priv u (p_td_update (\<lambda>l. l[i := d])) s1" and ?p = "p\<lparr>p_td := (p_td p)[i := d]\<rparr>"
  have i: "i < length (p_td p)" "p_td p ! i = 0" using "2.prems"(6) by simp_all
  have b: "books K H ?s" by (rule books_store_td) (use al "2.prems"(4) i in auto)
  have s: "eds ?s = eds s" "\<forall>v. v \<noteq> u \<longrightarrow> urbs ?s v = urbs s v" "urbs ?s u = (urbs s u)\<lparr>hcpriv := Some ?p\<rparr>" "hcpriv (urbs ?s u) = Some ?p"
    "heap_for K ?s (map es is @ rest)"
    using al "2.prems"(4) by (simp_all add: upd_priv_def upd_urb_def)
  show ?case
  proof (cases "d = 0")
    case True
    then have "t = ?s" "\<not> b" using "2.prems"(1) a by simp_all
    then show ?thesis using b s(1-3) by blast
  next
    case False
    then have r: "alloc_tds K es u is ?s = Some (b, t)" using "2.prems"(1) a by simp
    have td_list: "p_td ?p = (p_td p)[i := d]" by simp
    have "\<forall>j \<in> set is. j < length (p_td ?p) \<and> p_td ?p ! j = 0" using "2.prems"(5,6) by (metis distinct.simps(2) list.set_intros(2) length_list_update nth_list_update_neq td_list)
    note ih = "2.IH"[OF a refl refl False r b s(5,4) _ this]
    have di: "distinct is" using "2.prems"(5) by simp
    obtain q where q: "urbs t u = (urbs ?s u)\<lparr>hcpriv := Some (?p\<lparr>p_td := q\<rparr>)\<rparr>" using ih[OF di] by blast
    have "urbs t u = (urbs s u)\<lparr>hcpriv := Some (p\<lparr>p_td := q\<rparr>)\<rparr>" unfolding q s(3) by simp
    moreover have "books K H t \<and> (b \<longrightarrow> heap_for K t rest) \<and> eds t = eds s" using ih[OF di] s(1) by simp
    moreover have "\<forall>v. v \<noteq> u \<longrightarrow> urbs t v = urbs s v" using ih[OF di] s(2) by simp
    ultimately show ?thesis by blast
  qed
qed

lemma books_fresh:
  assumes "books K H s" "hcpriv (urbs s u) = None" "state (eds s e) \<noteq> ED_NEW \<and> \<not> doomed s e" "0 \<le> n" "n < 65536"
  shows "books K H (upd_urb u (hcpriv_update (\<lambda>_. Some (fresh_priv e n))) s)"
proof -
  let ?t = "upd_urb u (hcpriv_update (\<lambda>_. Some (fresh_priv e n))) s"
  have len: "unat (word_of_int n :: u16) = nat n" using assms(4,5) by (simp add: unat_eq_nat_uint uint_word_of_int)
  have "owned K H ?t = owned K H s"
  proof
    fix i show "owned K H ?t i = owned K H s i"
      using assms(2) by (cases i) (auto simp: upd_urb_def urb_blocks_def fresh_priv_def)
  qed
  moreover have "priv_fits K ?t (fresh_priv e n)"
    using len assms(3) by (simp add: priv_fits_def fresh_priv_def upd_urb_def real_td_def)
  ultimately show ?thesis using assms(1) by (auto simp: books_def upd_urb_def priv_fits_def)
qed

lemma books_staged:
  assumes "books K H s" "hcpriv (urbs s u) = Some p" "portable p = px0" "heap_for K s [e1, e2]"
    and len: "unat (urb_transfer_buffer_length (urbs s u)) + 64 < 2 ^ 31"
    and prep: "Portable_PrepareUrbOnSubmit (bus_to_virt K) e1 e2 (urb.truncate (urbs s u)) (portable p) (hcd_dma s) = Inr (r, px, dm)"
  shows "books K H (upd_priv u (portable_update (\<lambda>_. px)) (s\<lparr>hcd_dma := dm\<rparr>))"
proof -
  let ?t = "upd_priv u (portable_update (\<lambda>_. px)) (s\<lparr>hcd_dma := dm\<rparr>)"
  have hp: "hcpriv (urbs ?t u) = Some (p\<lparr>portable := px\<rparr>)" "v \<noteq> u \<Longrightarrow> urbs ?t v = urbs s v" "eds ?t = eds s" "hcd_dma ?t = dm" for v
    using assms(2) by (simp_all add: upd_priv_def upd_urb_def)
  have "unat (urb_transfer_buffer_length (urb.truncate (urbs s u))) + 64 < 2 ^ 31" using len by (simp add: urb.defs)
  note b = prepare_blocks[OF booksD(1)[OF assms(1)] assms(4) this prep[unfolded assms(3)] refl]
  let ?new = "filter (\<lambda>a. a \<noteq> 0) [px_transfer_buffer px, px_setup_packet px]"
  have "accounts (owned K H ?t) (live (lm_of s) \<union> set ?new)"
  proof (rule accounts_add[OF booksD(2)[OF assms(1)] b(2,3), where k = "Of_urb u"])
    show "mset (owned K H ?t (Of_urb u)) = mset ?new + mset (owned K H s (Of_urb u))"
      using assms(2,3) by (simp add: hp urb_blocks_def px0_def)
    show "owned K H ?t i = owned K H s i" if "i \<noteq> Of_urb u" for i using that by (cases i) (simp_all add: hp)
  qed
  moreover have "priv_fits K ?t q" if q: "hcpriv (urbs ?t v) = Some q" for v q
    using q booksD(3)[OF assms(1)] assms(2) by (cases "v = u") (auto simp: priv_fits_def hp)
  ultimately show ?thesis using b(1,4) assms(1) by (simp add: books_def hp)
qed

text \<open>\<open>ep_add_ed\<close> gives the first empty descriptor to the endpoint.\<close>

lemma add_ed_state_view:
  "neutral ((if state (eds z e) = ED_NEW then upd_ed e (\<lambda>d. d\<lparr>hwTailP := td, state := ED_UNLINK\<rparr>) z else z)\<lparr>ed_lock := False\<rparr>)
     (add_ed_state K td up pipe i ld e z)"
  by (simp add: add_ed_state_def Let_def neutral_def upd_ed_def)

lemma books_tail_store:
  assumes "books K (bus_to_virt K td # H) s" "state (eds s e) = ED_NEW" "real_td K td" "td \<noteq> 0"
  shows "books K H (upd_ed e (\<lambda>d. d\<lparr>hwTailP := td, state := ED_UNLINK\<rparr>) s)"
proof -
  let ?t = "upd_ed e (\<lambda>d. d\<lparr>hwTailP := td, state := ED_UNLINK\<rparr>) s"
  have "accounts (owned K H ?t) (live (lm_of s))"
  proof (rule accounts_move[OF booksD(2)[OF assms(1)], where k = In_hand and m = "Of_ed e"])
    show "owned K H ?t i = owned K (bus_to_virt K td # H) s i" if "i \<noteq> In_hand" "i \<noteq> Of_ed e" for i
      using that by (cases i) (simp_all add: upd_ed_def)
  qed (use assms in \<open>simp_all add: upd_ed_def\<close>)
  then show ?thesis using assms by (auto simp: books_def priv_fits_def ed_fits_def ed_states_def upd_ed_def)
qed

lemma books_add_ed:
  assumes "add_ed K x u s = Some (e, t)" "books K H s" "heap_for K s (x # es)"
  shows "books K H t \<and> heap_for K t es \<and> urbs t = urbs s \<and> (e \<noteq> 0 \<longrightarrow> state (eds t e) \<noteq> ED_NEW \<and> \<not> doomed t e)"
proof -
  let ?up = "urb_devp (urbs s u)" and ?pipe = "urb_pipe (urbs s u)"
  let ?e = "dev_eds (devs s ?up) ! ed_index (penv.truncate K) ?pipe"
  obtain td s1 dev t1 where a: "(if state (eds s ?e) = ED_NEW then alloc_local K x sizeof_td s else Some (0, s)) = Some (td, s1)"
    and ep: "ep_add_ed (penv.truncate K) td ?up ?pipe (urb_interval (urbs s u)) 1 (devs s1 ?up) s1 = Some (e, dev, t1)"
    and t: "t = t1\<lparr>devs := (devs t1)(?up := dev)\<rparr>"
    using assms(1) unfolding add_ed_def Let_def by (cases "ed_lock s") (auto simp only: Option.bind_eq_Some_conv if_False if_True
      map_option_eq_Some split_paired_All prod.case prod.inject option.distinct)
  have s1: "heap_for K s1 es \<and> urbs s1 = urbs s \<and> eds s1 = eds s \<and> devs s1 = devs s \<and> real_td K td \<and>
      books K (if td = 0 then H else bus_to_virt K td # H) s1 \<and> (state (eds s ?e) \<noteq> ED_NEW \<longrightarrow> td = 0)"
  proof (cases "state (eds s ?e) = ED_NEW")
    case True
    then have al: "alloc_local K x sizeof_td s = Some (td, s1)" using a by simp
    have "devs s1 = devs s" using al by (auto simp: alloc_local_def split: sum.splits)
    then show ?thesis using books_alloc_local[OF assms(2,3) _ al] True by (simp add: sizeof_td_def)
  next
    case False
    then show ?thesis using a assms(2) heap_for_skip[OF assms(3)] by (simp add: real_td_def)
  qed
  let ?z = "s1\<lparr>ed_lock := True\<rparr>" and ?st = "add_ed_state (penv.truncate K) td ?up ?pipe (urb_interval (urbs s u)) 1 ?e (s1\<lparr>ed_lock := True\<rparr>)"
  let ?n = "(if state (eds ?z ?e) = ED_NEW then upd_ed ?e (\<lambda>d. d\<lparr>hwTailP := td, state := ED_UNLINK\<rparr>) ?z else ?z)\<lparr>ed_lock := False\<rparr>"
  have n: "neutral ?n ?st" by (rule add_ed_state_view)
  have books_n: "books K H ?n" if "state (eds s ?e) = ED_NEW \<longrightarrow> td \<noteq> 0"
    using that s1 books_tail_store[of K td H ?z ?e] by (cases "state (eds s ?e) = ED_NEW") auto
  have "neutral ?z (upd_ed ?e (hwINFO_update (\<lambda>_. OHCI_ED_SKIP)) ?z)" by (simp add: neutral_simps)
  then have skip: "books K H (upd_ed ?e (hwINFO_update (\<lambda>_. OHCI_ED_SKIP)) ?z)" if "td = 0"
    by (rule books_neutral) (use s1 that in simp)
  have dl: "lm_of t1 = lm_of s1" "urbs t1 = urbs s1" "books K H t1" "e \<noteq> 0 \<longrightarrow> state (eds t1 e) \<noteq> ED_NEW \<and> \<not> doomed t1 e"
    using ep s1 skip books_neutral[OF n books_n] neutral_state[OF n]
      add_ed_state_acct[of ?z "penv.truncate K" td ?up ?pipe "urb_interval (urbs s u)" 1 ?e] n
    by (auto simp: ep_add_ed_cases Let_def same_acct_def upd_ed_def neutral_def split: if_splits)
  have "neutral t1 t" by (simp add: t neutral_simps)
  then show ?thesis using books_neutral[OF _ dl(3)] dl s1 by (simp add: t)
qed

text \<open>What is asked of a submission: the IOP heap answers properly, the URB needs fewer than 65536
  descriptors (their number is kept in 16 bits), and its buffer ends below 2 GB.\<close>

definition fair_submit :: "henv \<Rightarrow> submit_in \<Rightarrow> addr \<Rightarrow> hcd \<Rightarrow> bool" where
  "fair_submit K a u s \<longleftrightarrow>
     heap_for K s (si_dummy a # map (si_tds a) [0..<nat (urb_size K (urbs s u))] @ [si_data a, si_setup a]) \<and>
     0 \<le> urb_size K (urbs s u) \<and> urb_size K (urbs s u) < 65536 \<and> unat (urb_transfer_buffer_length (urbs s u)) + 64 < 2 ^ 31"

lemma books_submit_locked:
  assumes "honest K" "submit_locked K a u e s = Some (r, t)" "books K H s" "hcpriv (urbs s u) = Some p" "portable p = px0"
    "heap_for K s [si_data a, si_setup a]" "unat (urb_transfer_buffer_length (urbs s u)) + 64 < 2 ^ 31"
  shows "books K H t"
proof -
  have "keeps_books K s (snd (r, t))"
  proof (rule bk.R_submit_locked[OF assms(2)])
    fix s1 p1 ret px dm
    assume n: "neutral s s1" and l: "urb_transfer_buffer_length (urbs s1 u) = urb_transfer_buffer_length (urbs s u)"
      and p1: "hcpriv (urbs s1 u) = Some p1"
      and prep: "Portable_PrepareUrbOnSubmit (bus_to_virt K) (si_data a) (si_setup a) (urb.truncate (urbs s1 u)) (portable p1) (hcd_dma s1) = Inr (ret, px, dm)"
    have "portable p1 = px0" using neutral_hcpriv(1)[OF n p1] assms(4,5) by (auto simp: view_priv_def)
    moreover have "heap_for K s1 [si_data a, si_setup a]" using n assms(6) by (simp add: neutral_def)
    ultimately show "keeps_books K s1 (upd_priv u (portable_update (\<lambda>_. px)) (s1\<lparr>hcd_dma := dm\<rparr>))"
      using assms(7) l by (intro keeps_books_same books_staged[OF _ p1 _ _ _ prep]) (simp_all add: upd_priv_def upd_urb_def)
  qed
  then show ?thesis using assms(1,3) by (simp add: keeps_books_def)
qed

lemma books_set_up:
  assumes "books K H s" "fair_submit K a u s" "hcpriv (urbs s u) = None"
    and "add_ed K (si_dummy a) u (usb_inc_dev_use u s) = Some (e, s2)" "e \<noteq> 0"
    and "alloc_tds K (si_tds a) u [0..<nat (urb_size K (urbs s u))] (upd_urb u (hcpriv_update (\<lambda>_. Some (fresh_priv e (urb_size K (urbs s u)))))
         (iso_reset K u (urb_pipe (urbs s u)) s2)) = Some (b, s5)"
  shows "books K H s5 \<and> (\<exists>p. hcpriv (urbs s5 u) = Some p \<and> portable p = px0) \<and> (b \<longrightarrow> heap_for K s5 [si_data a, si_setup a]) \<and>
    urb_transfer_buffer_length (urbs s5 u) = urb_transfer_buffer_length (urbs s u)"
proof -
  let ?s1 = "usb_inc_dev_use u s" and ?n = "urb_size K (urbs s u)"
  let ?rest = "map (si_tds a) [0..<nat ?n] @ [si_data a, si_setup a]"
  define s3 where "s3 = iso_reset K u (urb_pipe (urbs s u)) s2"
  define s4 where "s4 = upd_urb u (hcpriv_update (\<lambda>_. Some (fresh_priv e ?n))) s3"
  have n1: "neutral s ?s1" by (simp add: neutral_simps)
  have h: "heap_for K ?s1 (si_dummy a # ?rest)" using assms(2) n1 by (simp add: fair_submit_def neutral_def)
  have "urbs ?s1 = urbs s" by simp
  then have a2: "books K H s2" "heap_for K s2 ?rest" "urbs s2 = urbs s" "state (eds s2 e) \<noteq> ED_NEW \<and> \<not> doomed s2 e"
    using books_add_ed[OF assms(4) books_neutral[OF n1 assms(1)] h] assms(5) by simp_all
  have n3: "neutral s2 s3" by (simp add: s3_def iso_reset_def neutral_simps)
  have w3: "urb_transfer_buffer_length (urbs s3 u) = urb_transfer_buffer_length (urbs s u)" "hcpriv (urbs s3 u) = None"
    using assms(3) by (simp_all add: s3_def iso_reset_def upd_urb_def a2(3))
  have b4: "books K H s4"
    unfolding s4_def
    by (rule books_fresh[OF books_neutral[OF n3 a2(1)] w3(2)]) (use a2(4) neutral_state[OF n3, of e] assms(2) in \<open>simp_all add: fair_submit_def\<close>)
  have h4: "heap_for K s4 ?rest" using a2(2) n3 by (simp add: s4_def upd_urb_def neutral_def)
  have p4: "hcpriv (urbs s4 u) = Some (fresh_priv e ?n)" "urb_transfer_buffer_length (urbs s4 u) = urb_transfer_buffer_length (urbs s u)"
    using w3(1) by (simp_all add: s4_def upd_urb_def)
  have al: "alloc_tds K (si_tds a) u [0..<nat ?n] s4 = Some (b, s5)" using assms(6) by (simp add: s4_def s3_def)
  have "\<forall>i \<in> set [0..<nat ?n]. i < length (p_td (fresh_priv e ?n)) \<and> p_td (fresh_priv e ?n) ! i = 0" by (simp add: fresh_priv_def)
  note b5 = books_alloc_tds[OF al b4 h4 p4(1) distinct_upt this]
  then obtain q where "urbs s5 u = (urbs s4 u)\<lparr>hcpriv := Some ((fresh_priv e ?n)\<lparr>p_td := q\<rparr>)\<rparr>" by blast
  then show ?thesis using b5 p4(2) by (simp add: fresh_priv_def px0_def)
qed

lemma books_submit:
  assumes "honest K" "books K H s" "fair_submit K a u s" "sohci_submit_urb K a u s = Some (r, t)"
  shows "books K H t"
proof -
  let ?s1 = "usb_inc_dev_use u s"
  have n: "neutral q (dev_use_add k u q)" for q k by (simp add: neutral_simps)
  have h: "heap_for K ?s1 (si_dummy a # map (si_tds a) [0..<nat (urb_size K (urbs s u))] @ [si_data a, si_setup a])"
    using assms(3) n[of s 1] by (simp add: fair_submit_def neutral_def)
  note b1 = books_neutral[OF n assms(2), of 1]
  show ?thesis using assms(4)
  proof (cases rule: submit_cases)
    case reject
    then show ?thesis using assms(2) by simp
  next
    case hub
    then show ?thesis using bk.R_submit_to_hub[OF hub(2)] b1 assms(1) by (simp add: keeps_books_def)
  next
    case hung
    then show ?thesis using b1 by simp
  next
    case (no_ed s2)
    then show ?thesis using books_neutral[OF n] books_add_ed[OF no_ed(2) b1 h] by blast
  next
    case (no_priv e s2)
    have "neutral s2 (iso_reset K u (urb_pipe (urbs s u)) s2)" by (simp add: iso_reset_def neutral_simps)
    then show ?thesis using books_neutral[OF n] books_neutral books_add_ed[OF no_priv(2) b1 h] no_priv(5) by blast
  next
    case (no_td e s2 s5)
    show ?thesis unfolding no_td(6)
      by (rule books_rm_priv[OF books_neutral[OF n]]) (use books_set_up[OF assms(2,3) no_td(1-4)] in simp)
  next
    case (queued e s2 s5)
    note up = books_set_up[OF assms(2,3) queued(1-4)]
    let ?s6 = "(event (Dump_submit u) s5)\<lparr>ed_lock := True\<rparr>"
    obtain t' where t': "submit_locked K a u e ?s6 = Some (r, t')" "t = t'\<lparr>ed_lock := False\<rparr>"
      using queued(5) by (auto simp: locked_def split: if_splits)
    have "neutral s5 (event (Dump_submit u) s5)" by (simp add: neutral_simps)
    then have b6: "books K H ?s6" using up by (simp add: books_neutral)
    have s6: "urbs ?s6 = urbs s5" "hcd_dma ?s6 = hcd_dma s5" by (simp_all add: event_def)
    obtain p where "hcpriv (urbs ?s6 u) = Some p" "portable p = px0" using up s6(1) by auto
    from books_submit_locked[OF assms(1) t'(1) b6 this] show ?thesis
      using up assms(3) t'(2) s6 by (simp add: fair_submit_def)
  qed
qed

end
