(* ===== verification/Memory_Owned.thy ===== *)
theory Memory_Owned
  imports Ownership
begin

text \<open>
  The driver and the controller as a machine whose states keep the books of \<open>Ownership\<close>: what every
  reachable state says about the blocks of memory and about an URB in flight.
\<close>

section \<open>The machine\<close>

text \<open>The steps of the driver's machine. The controller writes the descriptors, the head pointers of
  the endpoints and the memory; a new device lies in memory where no endpoint is in use; a device is
  removed when its URBs have been returned; while the callers of \<open>sohci_unlink_urb\<close> and
  \<open>sohci_free_dev\<close> sleep, anything may happen that keeps the books.\<close>

definition calm :: "henv \<Rightarrow> (hcd \<Rightarrow> hcd) \<Rightarrow> bool" where
  "calm K f \<longleftrightarrow> (\<forall>H s. books K H s \<longrightarrow> books K H (f s))"

inductive mstep :: "henv \<Rightarrow> hcd \<Rightarrow> hcd \<Rightarrow> bool" for K where
  submit: "sohci_submit_urb K a u s = Some (r, t) \<Longrightarrow> fair_submit K a u s \<Longrightarrow> mstep K s t"
| unlink: "sohci_unlink_urb K b u s = Some (r, t) \<Longrightarrow> calm K (ui_sleep b) \<Longrightarrow> mstep K s t"
| interrupt: "hc_interrupt K hw s = Some t \<Longrightarrow> mstep K s t"
| timer: "hub_timer K hw HZ j junk u s = Some t \<Longrightarrow> mstep K s t"
| alloc_dev: "sohci_alloc_dev K ba up s = (r, t) \<Longrightarrow> (\<And>i. i < NUM_EDS \<Longrightarrow> state (eds s (ba + sizeof_ed * of_nat i)) = ED_NEW) \<Longrightarrow> mstep K s t"
| free_dev: "sohci_free_dev K sl up n s = Some t \<Longrightarrow> calm K sl \<Longrightarrow>
    (\<And>u p. hcpriv (urbs s u) = Some p \<Longrightarrow> p_ed p \<notin> set (dev_eds (devs s up))) \<Longrightarrow> mstep K s t"
| reset: "hc_reset hw s = (finished, t) \<Longrightarrow> mstep K s t"
| reinit: "mstep K s (hc_reinit_ohci s)"
| client: "(\<And>w. hcpriv (f w) = hcpriv w) \<Longrightarrow> mstep K s (upd_urb u f s)"
| controller: "mstep K s (s\<lparr>done_head := d, frame_no := n', tds := ts, eds := (\<lambda>e. (eds s e)\<lparr>hwHeadP := h e\<rparr>),
      hcd_dma := (hcd_dma s)\<lparr>dma_mem := m\<rparr>\<rparr>)"

definition mem_step :: "henv \<Rightarrow> hcd \<Rightarrow> hcd \<Rightarrow> bool" where
  "mem_step K s t \<longleftrightarrow> honest K \<and> mstep K s t"

definition unused :: "henv \<Rightarrow> hcd \<Rightarrow> bool" where
  "unused K s \<longleftrightarrow> (\<forall>u. hcpriv (urbs s u) = None) \<and> (\<forall>e. state (eds s e) = ED_NEW) \<and> good_lm K (lm_of s) \<and> AllocList (lm_of s) = []"

lemma unused_books: "unused K s \<Longrightarrow> books K [] s"
proof -
  assume u: "unused K s"
  then have "owned K [] s i = []" for i by (cases i) (simp_all add: unused_def)
  then show ?thesis using u by (simp add: books_def accounts_def unused_def ed_fits_def ed_states_def)
qed

lemma books_view:
  assumes "books K H s" "lm_of t = lm_of s" "\<And>u. hcpriv (urbs t u) = hcpriv (urbs s u)"
    "\<And>e. state (eds t e) = state (eds s e)" "\<And>e. state (eds s e) \<noteq> ED_NEW \<Longrightarrow> hwTailP (eds t e) = hwTailP (eds s e)"
  shows "books K H t"
proof -
  have "owned K H t = owned K H s"
  proof
    fix i show "owned K H t i = owned K H s i" using assms(3-5) by (cases i) auto
  qed
  then show ?thesis using assms by (auto simp: books_def priv_fits_def ed_fits_def)
qed

text \<open>The memory of devices is none of the allocator's business.\<close>

lemma good_iop [simp]: "good_heap v2b b2v (l\<lparr>iop_live := x\<rparr>) = good_heap v2b b2v l"
  by (simp add: good_heap_def lm_inv_def mb_blocks_def arena_bytes_def arenas_def)

lemma books_iop: "books K H s \<Longrightarrow> books K H (s\<lparr>hcd_dma := (hcd_dma s)\<lparr>dma_lm := (lm_of s)\<lparr>iop_live := x\<rparr>\<rparr>\<rparr>)"
  by (simp add: books_def owned_dma priv_fits_def)

lemma books_doom_ed:
  assumes "books K H s" "state (eds s e) \<noteq> ED_NEW" "\<forall>u p. hcpriv (urbs s u) = Some p \<longrightarrow> p_ed p \<noteq> e"
    and "(if state (eds s e) = ED_OPER then ep_unlink e s else Some s) = Some s1"
  defines "t \<equiv> upd_ed e (state_update (\<lambda>_. ED_DEL)) (ep_rm_ed e s1)"
  shows "books K H t" "hcpriv (urbs t u) = Some p \<Longrightarrow> \<exists>q. hcpriv (urbs s u) = Some q \<and> p_ed q = p_ed p"
proof -
  let ?r = "if state (eds s e) = ED_OPER then upd_ed e (state_update (\<lambda>_. ED_UNLINK)) s else s"
  have "neutral ?r s1" using assms(4) neutral_ep_unlink[of e s s1] by (auto simp: neutral_simps split: if_splits)
  then have n: "neutral ?r (ep_rm_ed e s1)" by (simp add: neutral_simps)
  have r: "books K H ?r" "urbs ?r = urbs s" "state (eds ?r e) \<noteq> ED_NEW"
    using assms(1,2) books_ed[OF assms(1), of e ED_UNLINK "state_update (\<lambda>_. ED_UNLINK)"] by (auto simp: ed_states_def upd_ed_def)
  have p: "\<exists>q. hcpriv (urbs s u) = Some q \<and> p_ed q = p_ed p" if "hcpriv (urbs (ep_rm_ed e s1) u) = Some p" for u p
    using neutral_hcpriv(1)[OF n that] r(2) by (auto simp: view_priv_def)
  show "hcpriv (urbs t u) = Some p \<Longrightarrow> \<exists>q. hcpriv (urbs s u) = Some q \<and> p_ed q = p_ed p"
    using p by (simp add: t_def upd_ed_def)
  show "books K H t" unfolding t_def
  proof (rule books_ed[OF books_neutral[OF n r(1)]])
    show "state (eds (ep_rm_ed e s1) e) = ED_NEW \<longleftrightarrow> ED_DEL = ED_NEW" using r(3) neutral_state[OF n, of e] by simp
    show "ED_DEL AND ED_DEL = 0 \<or> (\<forall>u p. hcpriv (urbs (ep_rm_ed e s1) u) = Some p \<longrightarrow> p_ed p \<noteq> e)" using p assms(3) by metis
  qed (simp_all add: ed_states_def)
qed

lemma books_free_eds:
  assumes "free_eds l c s = Some (n, t)" "books K H s" "\<And>u p. hcpriv (urbs s u) = Some p \<Longrightarrow> p_ed p \<notin> set l"
  shows "books K H t"
  using assms
proof (induction l c s rule: free_eds.induct)
  case (2 e es c s)
  show ?case
  proof (cases "state (eds s e) = ED_NEW")
    case True
    then show ?thesis using "2.IH"(2)[of] "2.prems" by simp
  next
    case False
    then obtain s1 where s1: "(if state (eds s e) = ED_OPER then ep_unlink e s else Some s) = Some s1"
      "free_eds es (Suc c) (upd_ed e (state_update (\<lambda>_. ED_DEL)) (ep_rm_ed e s1)) = Some (n, t)"
      using "2.prems"(1) by (auto simp: Option.bind_eq_Some_conv)
    have "\<forall>u p. hcpriv (urbs s u) = Some p \<longrightarrow> p_ed p \<noteq> e" using "2.prems"(3) by fastforce
    note d = books_doom_ed[OF "2.prems"(2) False this s1(1)]
    show ?thesis
    proof (rule "2.IH"(1)[OF False s1 d(1)])
      fix u p assume "hcpriv (urbs (upd_ed e (state_update (\<lambda>_. ED_DEL)) (ep_rm_ed e s1)) u) = Some p"
      then obtain q where "hcpriv (urbs s u) = Some q" "p_ed q = p_ed p" using d(2) by blast
      then show "p_ed p \<notin> set es" using "2.prems"(3)[of u q] by simp
    qed
  qed
qed simp

lemma books_free_dev:
  assumes "books K H s" "sohci_free_dev K sl up n s = Some t" "calm K sl"
    "\<And>u p. hcpriv (urbs s u) = Some p \<Longrightarrow> p_ed p \<notin> set (dev_eds (devs s up))"
  shows "books K H t"
proof (cases "dev_priv s up")
  case False
  then show ?thesis using assms(1,2) by (simp add: sohci_free_dev_def)
next
  case True
  let ?l = "dev_eds (devs s up)"
  obtain cnt s1 where s1: "(if 0 \<le> sint n then locked (free_eds ?l 0) s else Some (0, s)) = Some (cnt, s1)"
    and t: "t = (let s2 = (if 0 < cnt then sl s1 else s1) in
       s2\<lparr>hcd_dma := (hcd_dma s2)\<lparr>dma_lm := Portable_FreeDevice (virt_to_bus K) (Some (bus_to_virt K (?l ! 0))) (lm_of s2)\<rparr>\<rparr>)"
    using assms(2) True by (auto simp: sohci_free_dev_def Let_def)
  have "books K H s1"
  proof (cases "0 \<le> sint n")
    case True
    then obtain r where r: "free_eds ?l 0 (s\<lparr>ed_lock := True\<rparr>) = Some (cnt, r)" "s1 = r\<lparr>ed_lock := False\<rparr>"
      using s1 by (auto simp: locked_def split: if_splits)
    have "books K H r" by (rule books_free_eds[OF r(1)]) (use assms(1,4) in simp_all)
    then show ?thesis by (simp add: r(2))
  qed (use s1 assms(1) in simp)
  then have "books K H (if 0 < cnt then sl s1 else s1)" using assms(3) by (simp add: calm_def)
  then show ?thesis by (simp add: t Let_def Portable_FreeDevice_def books_iop)
qed

lemma books_alloc_dev:
  assumes "books K H s" "sohci_alloc_dev K ba up s = (r, t)" "\<And>i. i < NUM_EDS \<Longrightarrow> state (eds s (ba + sizeof_ed * of_nat i)) = ED_NEW"
  shows "books K H t"
proof -
  let ?lm = "(lm_of s)\<lparr>iop_live := ba # iop_live (lm_of s)\<rparr>" and ?l = "map (\<lambda>i. ba + sizeof_ed * of_nat i) [0..<NUM_EDS]"
  let ?t = "s\<lparr>hcd_dma := (hcd_dma s)\<lparr>dma_lm := ?lm\<rparr>\<rparr>"
  have new: "state (eds s e) = ED_NEW" if "e \<in> set ?l" for e using that assms(3) by auto
  have b: "books K H ?t" using assms(1) by (rule books_iop)
  show ?thesis
  proof (cases "ba = 0")
    case True
    then show ?thesis using assms(1,2) by (auto simp: sohci_alloc_dev_def Portable_AllocateDevice_def)
  next
    case False
    then have t: "t = ?t\<lparr>eds := (\<lambda>e. if e \<in> set ?l then ed_zero else eds s e), devs := (devs s)(up := \<lparr>dev_eds = ?l, ed_cnt = 0\<rparr>),
        dev_priv := (dev_priv s)(up := True)\<rparr>"
      using assms(2) by (simp add: sohci_alloc_dev_def Portable_AllocateDevice_def Let_def)
    show ?thesis
    proof (rule books_view[OF b])
      fix e
      show "state (eds t e) = state (eds ?t e)" "state (eds ?t e) \<noteq> ED_NEW \<Longrightarrow> hwTailP (eds t e) = hwTailP (eds ?t e)"
        using new[of e] by (auto simp: t ed_zero_def)
    qed (simp_all add: t)
  qed
qed

lemma mstep_books:
  assumes "mstep K s t" "honest K" "books K H s"
  shows "books K H t"
proof -
  have k: ?thesis if "keeps_books K s t" using that assms(2,3) by (simp add: keeps_books_def)
  show ?thesis using assms(1)
  proof (cases rule: mstep.cases)
    case (submit a u r)
    then show ?thesis using books_submit[OF assms(2,3)] by blast
  next
    case (unlink b u r)
    from bk.R_unlink_sleep[OF unlink(1)] show ?thesis
      using unlink(2) assms(2,3) by (auto simp: keeps_books_def calm_def)
  next
    case (interrupt hw)
    then show ?thesis using bk.R_hc_interrupt k by blast
  next
    case (timer hw HZ j junk u)
    then show ?thesis using bk.R_hub_timer k by blast
  next
    case (alloc_dev ba up r)
    then show ?thesis using books_alloc_dev[OF assms(3)] by blast
  next
    case (free_dev sl up n)
    then show ?thesis using books_free_dev[OF assms(3)] by blast
  next
    case (reset hw finished)
    then show ?thesis using bk.R_hc_reset[of K s hw] k by simp
  next
    case reinit
    then show ?thesis by (intro books_view[OF assms(3)]) (simp_all add: hc_reinit_ohci_def)
  next
    case (client f u)
    then show ?thesis by (intro books_view[OF assms(3)]) (simp_all add: upd_urb_def)
  next
    case (controller d n' ts h m)
    then show ?thesis by (intro books_view[OF assms(3)]) simp_all
  qed
qed

interpretation memory: safe_machine "mem_step K" "unused K" "books K []" for K
  by unfold_locales (auto simp: mem_step_def intro: unused_books mstep_books)

section \<open>A run\<close>

text \<open>One arena, an endpoint that has not been used, an URB of no bytes: the submission allocates an
  empty descriptor for the endpoint and a descriptor for the URB, and \<open>td_fill\<close> swaps them.\<close>

definition own_alloc :: alloc_in where
  "own_alloc = ok_alloc\<lparr>grow1 := ok_grow 0, grow2 := ok_grow 0\<rparr>"

definition own_in :: submit_in where
  "own_in = plain_in\<lparr>si_dummy := own_alloc, si_tds := (\<lambda>_. own_alloc), si_data := own_alloc, si_setup := own_alloc\<rparr>"

definition own_urb :: hurb where
  "own_urb = bulk_urb\<lparr>hcpriv := None, urb_transfer_buffer_length := 0, urb_setup_packet := 0\<rparr>"

definition own_hcd :: hcd where
  "own_hcd = bulk_hcd\<lparr>disabled := 0, rh_devnum := 1, eds := (\<lambda>_. ed0\<lparr>state := ED_NEW\<rparr>), urbs := (\<lambda>_. own_urb),
     devs := (\<lambda>_. \<lparr>dev_eds = replicate 32 0x10, ed_cnt = 0\<rparr>)\<rparr>"

lemma own_fields:
  "urb_dev own_urb = Some \<lparr>devnum = 2, dev_bus = True\<rparr>" "hcpriv own_urb = None" "urb_pipe own_urb = 0xC0000000"
  "urb_transfer_buffer_length own_urb = 0" "urb_setup_packet own_urb = 0" "urb_devp own_urb = 0x9000" "urb_transfer_flags own_urb = 0"
  "urbs own_hcd v = own_urb" "eds own_hcd e = ed0\<lparr>state := ED_NEW\<rparr>" "disabled own_hcd = 0" "rh_devnum own_hcd = 1"
  "devs own_hcd d = \<lparr>dev_eds = replicate 32 0x10, ed_cnt = 0\<rparr>" "hcd_dma own_hcd = stage_dma" "ed_lock own_hcd = False"
  "ed_bulktail own_hcd = 0"
  by (simp_all add: own_urb_def own_hcd_def) (simp_all add: bulk_urb_def bulk_hcd_def idle_hc_def ohci_zero_def ohci_ed.defs ohci.defs urb.defs stage_urb_def)

lemma own_pipe:
  "usb_pipedevice ps2_henv 0xC0000000 = 0" "usb_pipetype ps2_henv 0xC0000000 = 3" "macro ps2_henv = linux_macro"
  "ed_index (penv.truncate ps2_henv) 0xC0000000 = 1" "bus_to_virt ps2_henv = id_b2v" "virt_to_bus ps2_henv = of_int"
  "usb_iso_asap ps2_henv = 2" "usb_pipetype (penv.truncate ps2_henv) 0xC0000000 = 3"
  by (simp_all add: ed_index_def ps2_henv_def penv.defs kenv.defs linux_env_def id_b2v_def fun_eq_iff)

lemma own_size: "urb_size ps2_henv own_urb = 1"
  by (simp add: urb_size_def Let_def own_fields own_pipe signed_divide_int_def)

lemma own_arena: "good_lm ps2_henv one_arena"
proof -
  have u: "uint (of_int x :: u32) = x" if "x \<in> {0x10000..<0x20000}" for x :: int
    using that by (simp add: uint_word_of_int)
  have "(of_int x :: u32) AND 0xfffffff0 = of_int x" if x: "x \<in> {0x10000..<0x20000}" "16 dvd x" for x :: int
  proof -
    have "x = push_bit 4 (drop_bit 4 x)" using x(2) by (simp add: push_bit_eq_mult drop_bit_eq_div)
    then have "(of_int x :: u32) = push_bit 4 (of_int (drop_bit 4 x))" by (metis of_int_push_bit)
    moreover have "push_bit 4 w AND 0xfffffff0 = push_bit 4 w" for w :: u32
    proof -
      have m: "(0xfffffff0 :: u32) = NOT (mask 4)" by (simp add: mask_eq_exp_minus_1)
      show ?thesis unfolding m by (auto intro!: bit_eqI simp: bit_simps)
    qed
    ultimately show ?thesis by simp
  qed
  moreover have "(of_int x :: u32) \<noteq> 0" if "x \<in> {0x10000..<0x20000}" for x :: int using u[OF that] that by auto
  moreover have "block_range (arena_block (bus_to_virt ps2_henv) 0x10000) = {0x10000..<0x20000}"
    by (simp add: own_pipe arena_block_def block_range_def run_defs)
  ultimately have "good_arena of_int id_b2v 0x10000"
    using u by (simp add: good_arena_def own_pipe id_b2v_def[abs_def])
  then show ?thesis using one_arena_inv
    by (simp add: good_heap_def own_pipe) (simp add: one_arena_def local_mem_init_def arenas_def mb_blocks_def)
qed

lemma own_fair: "fair_submit ps2_henv own_in 1 own_hcd"
  by (simp add: fair_submit_def own_fields own_size own_in_def own_alloc_def plain_in_def fresh_arena_def Let_def ok_grow_def)

lemma own_unused: "unused ps2_henv own_hcd"
  using own_arena by (simp add: unused_def own_fields stage_dma_def) (simp add: one_arena_def local_mem_init_def)

lemma own_honest: "honest ps2_henv"
  by (simp add: honest_def ps2_henv_def penv.defs spares_def)

lemma own_allocs:
  "AllocLocalMem id_b2v own_alloc 32 one_arena = Inr (Some 0x1FF00, staged_lm1)"
  "AllocLocalMem id_b2v own_alloc 32 staged_lm1 = Inr (Some 0x1FE00, staged_lm2)"
  by (simp_all add: AllocLocalMem_def alloc_grow_def alloc_scan_def size256_def extract_Cons_code own_alloc_def
      signed_divide_int_def staged_lm1_def staged_lm2_def run_defs)


text \<open>The state in front of \<open>submit_locked\<close>, and behind it.\<close>

definition own_ed :: ed where
  "own_ed = ed0\<lparr>hwINFO := ed_info (penv.truncate ps2_henv) 0xC0000000, hwTailP := 0x1FF00, hwHeadP := 0x1FF00, state := ED_UNLINK, ed_type := BULK\<rparr>"

lemma own_add_ed:
  "\<exists>t. add_ed ps2_henv own_alloc 1 (usb_inc_dev_use 1 own_hcd) = Some (0x10, t) \<and> urbs t = urbs own_hcd \<and>
     eds t = (eds own_hcd)(0x10 := own_ed) \<and> lm_of t = staged_lm1 \<and> \<not> ed_lock t \<and> ed_bulktail t = 0"
proof -
  have dm: "dma_lm stage_dma = one_arena" by (simp add: stage_dma_def)
  show ?thesis
    by (simp add: add_ed_def Let_def dev_use_add_def own_fields own_pipe sizeof_td_def alloc_local_def own_allocs ep_add_ed_def upd_ed_def dm own_ed_def)
      (simp add: ed0_def)
qed


lemma own_td_submit:
  assumes "urb_dev (urbs s 1) = Some dv" "urb_pipe (urbs s 1) = 0xC0000000" "urb_transfer_buffer_length (urbs s 1) = 0"
    "hcpriv (urbs s 1) = Some p" "p_ed p = 0x10" "p_length p = 1" "p_td p = [0x1FE00]" "eds s 0x10 = d" "hwTailP d = 0x1FF00" "ed_type d = BULK"
  shows "\<exists>n t. td_submit_urb ps2_henv 1 s = Some (n, t) \<and> lm_of t = lm_of s \<and> eds t 0x10 = d\<lparr>hwTailP := 0x1FE00\<rparr> \<and>
     hcpriv (urbs t 1) = Some (p\<lparr>td_cnt := 0, p_td := [0x1FF00]\<rparr>)"
  by (simp add: td_submit_urb_def own_pipe bulk_loop.simps td_fill_def upd_ed_def upd_priv_def upd_urb_def upd_td_def ptr_def Let_def writel_def assms)

lemma own_submit:
  "\<exists>t. sohci_submit_urb ps2_henv own_in 1 own_hcd = Some (Sub_ok, t) \<and> lm_of t = staged_lm2 \<and>
     eds t 0x10 = own_ed\<lparr>hwTailP := 0x1FE00, state := ED_OPER\<rparr> \<and>
     hcpriv (urbs t 1) = Some \<lparr>p_ed = 0x10, p_length = 1, td_cnt = 0, p_state = 0, portable = px0, p_td = [0x1FF00]\<rparr>"
proof -
  obtain r where a: "add_ed ps2_henv own_alloc 1 (usb_inc_dev_use 1 own_hcd) = Some (0x10, r)"
    and r: "urbs r = urbs own_hcd" "eds r = (eds own_hcd)(0x10 := own_ed)" "dma_lm (hcd_dma r) = staged_lm1" "\<not> ed_lock r" "ed_bulktail r = 0"
    using own_add_ed by blast
  let ?p = "\<lparr>p_ed = 0x10, p_length = 1, td_cnt = 0, p_state = 0, portable = px0, p_td = [0x1FE00]\<rparr>"
  define q where "q = upd_priv 1 (p_td_update (\<lambda>l. l[0 := 0x1FE00])) (upd_urb 1 (hcpriv_update (\<lambda>_. Some (fresh_priv 0x10 1))) r
     \<lparr>hcd_dma := (hcd_dma r)\<lparr>dma_lm := staged_lm2\<rparr>\<rparr>)"
  have al: "alloc_tds ps2_henv (\<lambda>_. own_alloc) 1 [0] (upd_urb 1 (hcpriv_update (\<lambda>_. Some (fresh_priv 0x10 1))) r) = Some (True, q)"
    by (simp add: alloc_local_def sizeof_td_def own_pipe upd_urb_def r own_allocs q_def)
  define z where "z = (event (Dump_submit 1) q)\<lparr>ed_lock := True\<rparr>"
  have z: "urbs z = (urbs own_hcd)(1 := own_urb\<lparr>hcpriv := Some ?p\<rparr>)" "eds z = (eds own_hcd)(0x10 := own_ed)" "lm_of z = staged_lm2" "ed_bulktail z = 0"
    by (simp_all add: z_def q_def r upd_priv_def upd_urb_def event_def own_fields fresh_priv_def px0_def o_def)
  have e: "state own_ed = ED_UNLINK" "ed_type own_ed = BULK" "hwTailP own_ed = 0x1FF00" by (simp_all add: own_ed_def)
  have pr: "Portable_PrepareUrbOnSubmit b2v e1 e2 (urb.truncate (own_urb\<lparr>hcpriv := c\<rparr>)) px d = Inr (None, px, d)" for b2v e1 e2 px d c
    by (simp add: Portable_PrepareUrbOnSubmit_def prepare_data_def prepare_setup_def urb.defs own_fields)
  let ?z3 = "upd_urb 1 (\<lambda>w. w\<lparr>urb_actual_length := 0, urb_status := EINPROGRESS\<rparr>) (upd_priv 1 (portable_update (\<lambda>_. px0)) z)"
  obtain z4 where z4: "ep_link 0x10 ?z3 = Some z4" "urbs z4 = urbs ?z3" "eds z4 0x10 = own_ed\<lparr>state := ED_OPER, hwNextED := 0, ed_prev := 0\<rparr>" "lm_of z4 = staged_lm2"
    by (simp add: ep_link_def Let_def link_last_def upd_ed_def writel_def z e upd_urb_def upd_priv_def)
  have "\<exists>t. submit_locked ps2_henv own_in 1 0x10 z = Some (Sub_ok, t) \<and> lm_of t = staged_lm2 \<and>
      eds t 0x10 = own_ed\<lparr>hwTailP := 0x1FE00, state := ED_OPER\<rparr> \<and> hcpriv (urbs t 1) = Some (?p\<lparr>p_td := [0x1FF00]\<rparr>)"
  proof -
    let ?z5 = "upd_urb 1 (urb_status_update (\<lambda>_. EINPROGRESS)) z4"
    have z5: "urbs ?z5 1 = own_urb\<lparr>urb_actual_length := 0, urb_status := EINPROGRESS, hcpriv := Some ?p\<rparr>" "eds ?z5 = eds z4" "lm_of ?z5 = lm_of z4"
      by (simp_all add: upd_urb_def z4(2) upd_priv_def z o_def px0_def)
    have "own_ed\<lparr>state := ED_OPER, hwNextED := 0, ed_prev := 0, hwTailP := 0x1FE00\<rparr> = own_ed\<lparr>hwTailP := 0x1FE00, state := ED_OPER\<rparr>"
      by (simp add: own_ed_def ed0_def)
    then obtain n t where t: "td_submit_urb ps2_henv 1 ?z5 = Some (n, t)" "lm_of t = staged_lm2"
        "eds t 0x10 = own_ed\<lparr>hwTailP := 0x1FE00, state := ED_OPER\<rparr>" "hcpriv (urbs t 1) = Some (?p\<lparr>p_td := [0x1FF00]\<rparr>)"
      using own_td_submit[of ?z5, unfolded z5 z4(3,4), of _ ?p, OF _ _ _ _ _ _ _ refl] by (auto simp: own_fields e)
    have m: "z\<lparr>hcd_dma := hcd_dma z\<rparr> = z" by simp
    show ?thesis using t z4(1) by (simp add: submit_locked_def Let_def own_fields own_pipe e z pr m upd_priv_def upd_urb_def)
  qed
  then obtain t where t: "submit_locked ps2_henv own_in 1 0x10 z = Some (Sub_ok, t)" "lm_of t = staged_lm2"
    "eds t 0x10 = own_ed\<lparr>hwTailP := 0x1FE00, state := ED_OPER\<rparr>" "hcpriv (urbs t 1) = Some (?p\<lparr>p_td := [0x1FF00]\<rparr>)" by blast
  have l: "locked (submit_locked ps2_henv own_in 1 0x10) (event (Dump_submit 1) q) = Some (Sub_ok, t\<lparr>ed_lock := False\<rparr>)"
    using t(1) r(4) by (simp add: locked_def z_def) (simp add: q_def upd_priv_def upd_urb_def event_def)
  have i: "si_dummy own_in = own_alloc" "si_tds own_in = (\<lambda>_. own_alloc)" "si_kmalloc own_in" by (simp_all add: own_in_def plain_in_def)
  have u: "urbs (usb_inc_dev_use 1 own_hcd) = urbs own_hcd" "disabled (usb_inc_dev_use 1 own_hcd) = 0" "rh_devnum (usb_inc_dev_use 1 own_hcd) = 1"
    by (simp_all add: dev_use_add_def own_fields)
  have "sohci_submit_urb ps2_henv own_in 1 own_hcd = Some (Sub_ok, t\<lparr>ed_lock := False\<rparr>)"
    using a al l by (simp add: sohci_submit_urb_def Let_def own_fields own_pipe own_size i u fresh_priv_def r del: alloc_tds.simps)
  then show ?thesis using t(2-4) by simp
qed

lemma own_run:
  obtains t where "reach (mem_step ps2_henv) (unused ps2_henv) t" "live (lm_of t) = {0x1FF00, 0x1FE00}"
    "eds t 0x10 = own_ed\<lparr>hwTailP := 0x1FE00, state := ED_OPER\<rparr>"
    "hcpriv (urbs t 1) = Some \<lparr>p_ed = 0x10, p_length = 1, td_cnt = 0, p_state = 0, portable = px0, p_td = [0x1FF00]\<rparr>"
proof -
  obtain t where t: "sohci_submit_urb ps2_henv own_in 1 own_hcd = Some (Sub_ok, t)" "lm_of t = staged_lm2"
    "eds t 0x10 = own_ed\<lparr>hwTailP := 0x1FE00, state := ED_OPER\<rparr>"
    "hcpriv (urbs t 1) = Some \<lparr>p_ed = 0x10, p_length = 1, td_cnt = 0, p_state = 0, portable = px0, p_td = [0x1FF00]\<rparr>"
    using own_submit by blast
  have "mem_step ps2_henv own_hcd t" unfolding mem_step_def using own_honest mstep.submit[OF t(1) own_fair] by blast
  then have "reach (mem_step ps2_henv) (unused ps2_henv) t" using reach.start[of "unused ps2_henv", OF own_unused] by (rule reach.next_step[rotated])
  moreover have "live (lm_of t) = {0x1FF00, 0x1FE00}" by (simp add: t(2) staged_lm2_def one_arena_def local_mem_init_def insert_commute)
  ultimately show ?thesis using that t(3,4) by blast
qed

section \<open>What holds in every reachable state\<close>

text \<open>C3. No block of the I/O processor's memory leaks, is freed twice, or is used after it was freed:
  in every state that submissions, unlinking, interrupts, completion handlers, the controller, new
  and removed devices can reach, in any order and with every kind of pipe, each allocated block has exactly one
  owner, the private part of an URB or the end of an endpoint's queue, and owns nothing but allocated
  blocks. When all URBs have been returned, what is left is one empty descriptor per endpoint in
  use.\<close>

theorem memory_owned:
  assumes "reach (mem_step K) (unused K) s"
  shows "(\<forall>a \<in> live (lm_of s). \<exists>!i. a \<in> set (owned K [] s i)) \<and>
    (\<forall>i. distinct (owned K [] s i) \<and> set (owned K [] s i) \<subseteq> live (lm_of s)) \<and>
    ((\<forall>u. hcpriv (urbs s u) = None) \<longrightarrow>
       live (lm_of s) = {bus_to_virt K (hwTailP (eds s e)) | e. state (eds s e) \<noteq> ED_NEW \<and> hwTailP (eds s e) \<noteq> 0})"
proof -
  have acc: "accounts (owned K [] s) (live (lm_of s))" using memory.reach_inv[OF assms] by (rule booksD)
  have "live (lm_of s) = {bus_to_virt K (hwTailP (eds s e)) | e. state (eds s e) \<noteq> ED_NEW \<and> hwTailP (eds s e) \<noteq> 0}"
    if "\<forall>u. hcpriv (urbs s u) = None"
  proof -
    have "live (lm_of s) = (\<Union>i. set (owned K [] s i))" using acc by (simp add: accounts_def)
    also have "\<dots> = (\<Union>e. set (owned K [] s (Of_ed e)))"
    proof (intro equalityI UN_least)
      show "set (owned K [] s i) \<subseteq> (\<Union>e. set (owned K [] s (Of_ed e)))" for i using that by (cases i) auto
    qed blast
    finally show ?thesis by (auto split: if_splits)
  qed
  moreover have "\<exists>!i. a \<in> set (owned K [] s i)" if "a \<in> live (lm_of s)" for a
    using that acc accounts_apart[OF acc] by (auto simp: accounts_def)
  moreover have "distinct (owned K [] s i) \<and> set (owned K [] s i) \<subseteq> live (lm_of s)" for i
    using acc accounts_owned[OF acc] by (auto simp: accounts_def)
  ultimately show ?thesis by blast
qed

theorem memory_owned_witness:
  "\<exists>t. reach (mem_step ps2_henv) (unused ps2_henv) t \<and> live (lm_of t) = {0x1FF00, 0x1FE00} \<and>
     owned ps2_henv [] t (Of_urb 1) = [0x1FF00] \<and> owned ps2_henv [] t (Of_ed 0x10) = [0x1FE00] \<and>
     (\<exists>!i. 0x1FF00 \<in> set (owned ps2_henv [] t i))"
proof -
  obtain t where t: "reach (mem_step ps2_henv) (unused ps2_henv) t" "live (lm_of t) = {0x1FF00, 0x1FE00}"
    "eds t 0x10 = own_ed\<lparr>hwTailP := 0x1FE00, state := ED_OPER\<rparr>"
    "hcpriv (urbs t 1) = Some \<lparr>p_ed = 0x10, p_length = 1, td_cnt = 0, p_state = 0, portable = px0, p_td = [0x1FF00]\<rparr>"
    by (rule own_run)
  have "owned ps2_henv [] t (Of_urb 1) = [0x1FF00]" "owned ps2_henv [] t (Of_ed 0x10) = [0x1FE00]"
    by (simp_all add: t(3,4) urb_blocks_def own_pipe id_b2v_def px0_def)
  moreover have "\<exists>!i. 0x1FF00 \<in> set (owned ps2_henv [] t i)" using memory_owned[OF t(1)] by (simp only: t(2)) blast
  ultimately show ?thesis using t(1,2) by blast
qed

text \<open>C10. Whoever holds an URB in flight can rely on its private part: in every such state its endpoint
  is in use, in one of four states, \<open>td[]\<close> has the length that it counts, and its descriptors are distinct, and each
  is aligned to 16 bytes, lies in a block of its own that is allocated, and is not the empty
  descriptor at the end of the endpoint's queue.\<close>

theorem urb_in_flight:
  assumes "reach (mem_step K) (unused K) s" "hcpriv (urbs s u) = Some p"
  shows "state (eds s (p_ed p)) \<in> {ED_UNLINK, ED_OPER, ED_UNLINK OR ED_URB_DEL, ED_OPER OR ED_URB_DEL} \<and>
    length (p_td p) = unat (p_length p) \<and> distinct (filter (\<lambda>t. t \<noteq> 0) (p_td p)) \<and>
    (\<forall>t \<in> set (p_td p). t \<noteq> 0 \<longrightarrow> ptr t = t \<and> bus_to_virt K t \<in> live (lm_of s) \<and> t \<noteq> hwTailP (eds s (p_ed p)))"
proof -
  have b: "books K [] s" by (rule memory.reach_inv[OF assms(1)])
  note fit = booksD(3)[OF b assms(2), unfolded priv_fits_def]
  have "ptr t = t \<and> bus_to_virt K t \<in> live (lm_of s) \<and> t \<noteq> hwTailP (eds s (p_ed p))" if t: "t \<in> set (p_td p)" "t \<noteq> 0" for t
  proof -
    have o: "bus_to_virt K t \<in> set (owned K [] s (Of_urb u))" using t assms(2) by (simp add: urb_blocks_def)
    have l: "bus_to_virt K t \<in> live (lm_of s)" by (rule accounts_owned[OF booksD(2)[OF b] o])
    have "ptr t = t" using real_live[OF booksD(1)[OF b]] fit t l by blast
    moreover have "t \<noteq> hwTailP (eds s (p_ed p))"
    proof
      assume "t = hwTailP (eds s (p_ed p))"
      then have "bus_to_virt K t \<in> set (owned K [] s (Of_ed (p_ed p)))" using fit t(2) by simp
      from accounts_apart[OF booksD(2)[OF b] o this] show False by simp
    qed
    ultimately show ?thesis using l by blast
  qed
  moreover have "distinct (filter (\<lambda>t. t \<noteq> 0) (p_td p))"
  proof -
    have "distinct (urb_blocks K p)" using booksD(2)[OF b] assms(2) by (simp add: accounts_def) (metis owned.simps(2) option.case(2))
    then show ?thesis by (simp add: urb_blocks_def distinct_map)
  qed
  ultimately show ?thesis using fit booksD(4)[OF b, of "p_ed p"] by (auto simp: ed_fits_def ed_states_def)
qed

theorem urb_in_flight_witness:
  "\<exists>t. reach (mem_step ps2_henv) (unused ps2_henv) t \<and> hcpriv (urbs t 1) \<noteq> None \<and> 0x1FF00 \<in> live (lm_of t) \<and> hwTailP (eds t 0x10) \<noteq> 0x1FF00"
proof -
  obtain t where t: "reach (mem_step ps2_henv) (unused ps2_henv) t" "live (lm_of t) = {0x1FF00, 0x1FE00}"
    "eds t 0x10 = own_ed\<lparr>hwTailP := 0x1FE00, state := ED_OPER\<rparr>"
    "hcpriv (urbs t 1) = Some \<lparr>p_ed = 0x10, p_length = 1, td_cnt = 0, p_state = 0, portable = px0, p_td = [0x1FF00]\<rparr>"
    by (rule own_run)
  from urb_in_flight[OF t(1,4)] t(1,4) show ?thesis by (intro exI[of _ t]) (simp add: own_pipe id_b2v_def)
qed

end
