(* ===== verification/Spec2Isabelle.thy ===== *)
theory Spec2Isabelle
  imports Proc_Entries Dumper_Live Del_List Debug_Print Memory_Owned
begin

text \<open>
  A verification library for SideDumper, the USB packet dumper of PS2 Linux, and for the OHCI host
  controller driver it is hooked into.

  \<^bold>\<open>The program.\<close> \<open>portable-ohci-core.c\<close> is an OHCI driver. The PlayStation 2's controller
  reaches only the memory of the I/O processor, so \<open>portable-ohci-ps2.c\<close> gives the driver an
  allocator for that memory and copies the buffers of every URB into it and back.
  \<open>side_dumper_core.c\<close> is called by the driver when an URB is submitted (\<open>SideDumper_OnSubmit\<close>) and
  when it is returned (\<open>SideDumper_OnReturn\<close>). For an enabled device it prints the URB into the
  kernel log, at once or, for asynchronous devices, through a queue that a kernel thread empties.
  \<open>side_dumper_procfs.c\<close> lets the user set which devices are dumped, and how, through text files.

  \<^bold>\<open>Theories and code.\<close>
    \<^item> \<open>Prelude\<close>, \<open>Machine\<close>, \<open>Kernel_Env\<close>, \<open>Urb\<close>: lemmas on lists and words; the contracts of state
      machines (\<open>safe_machine\<close>, \<open>trace_refinement\<close>); the macros of \<open>linux/usb.h\<close> and \<open>linux_env\<close>, their
      concrete values; the fields of \<open>struct urb\<close> and the memory they point to.
    \<^item> \<open>Alloc_Interface\<close>, \<open>Local_Mem\<close>: the interface of an allocator of disjoint blocks, and
      \<open>AllocLocalMem\<close>, \<open>FreeLocalMem\<close>, \<open>GrowLocalMem\<close> and the allocation of the controller and of devices
      (\<open>portable-ohci-ps2.c\<close>), which satisfy it. \<open>Portable_Urb\<close>: staging of an URB's buffers.
    \<^item> \<open>Settings\<close>, \<open>Strtoul\<close>, \<open>Procfs\<close>, \<open>Proc_Entries\<close>: the settings of the sixteen devices, the texts
      that are read and written, and the entries of the proc file system (\<open>side_dumper_procfs.c\<close>).
    \<^item> \<open>Dump_Base\<close>, \<open>Dump_Desc\<close>, \<open>Dump_Urb\<close>: the text of an URB, its bytes, descriptors and setup packet.
      \<open>Dumper_Queue\<close>, \<open>Dumper_Safety\<close>, \<open>Dumper_Live\<close>: the work queue, the worker thread and the entry
      points, as interleaved steps of the processes (\<open>side_dumper_core.c\<close>).
    \<^item> \<open>Ohci_Base\<close>, \<open>Root_Hub\<close>, \<open>Hc_Control\<close>: registers and controller state, the virtual root hub, reset,
      start, release and power management (\<open>portable-ohci-core.c\<close>).
    \<^item> \<open>Ohci_Sched\<close>, \<open>Ohci_Ed\<close>, \<open>Ed_Chains\<close>, \<open>Int_Tree\<close>: the interrupt schedule, the lists of
      endpoint descriptors and the tree of the interrupt table.
    \<^item> \<open>Ohci_Td\<close>, \<open>Td_Queue\<close>: transfer descriptors, how a transfer becomes a queue of them. \<open>Ohci_Urb\<close>,
      \<open>Done_List\<close>, \<open>Del_List\<close>, \<open>Submit\<close>: the life of an URB from \<open>sohci_submit_urb\<close> to
      \<open>sohci_return_urb\<close>, unlinking, the interrupt handler, devices.
    \<^item> \<open>Debug_Print\<close>: the printing that is compiled with \<open>DEBUG\<close>; it reads registers and changes nothing.
    \<^item> \<open>Driver_Frame\<close>: the contract of a relation between states that all operations of the driver
      respect when their elementary steps do (\<open>driver_relation\<close>). \<open>Driver\<close> uses it for the shape of the state
      and the lock; \<open>Block_Owners\<close>, \<open>Ownership\<close>, \<open>Memory_Owned\<close> for the ownership of memory.

  \<^bold>\<open>State.\<close> \<open>ohci_t\<close> is the record \<open>ohci\<close>, extended by \<open>ohci_ed\<close> (EDs, the lock, the table of devices)
  and \<open>hcd\<close> (TDs, URBs with their private parts, toggles, use counts, devices, the DMA memory). EDs
  and TDs are entries of maps from bus addresses, so sharing and in-place updates are those of the
  code. The trace \<open>io\<close> has every access to a register, every completion and every call of the dumper;
  the controller is a parameter, any function from the trace to the value read. The dumper's
  \<open>g_Inst\<close> is the record \<open>dumper\<close>, with the processes that use it \<open>sys\<close>. Words have the
  width of the code's types, and errors are values: an \<open>errno\<close>, or the left of a sum for what the code
  would do outside its memory. \<open>None\<close> as the result of an operation of the driver says that it does not return.

  \<^bold>\<open>What is shown.\<close> For the allocator, that blocks never overlap, in any reachable state, and what
  each operation does to them; for the staging, which bytes are copied where, and that nothing
  leaks. For the dumper's queue, the invariant of all interleavings, that what is delivered and thrown
  away, and when, is what an abstract queue allows (a refinement of labelled traces), and that the worker
  and the removal come to an end when they do. For the dumps, the reads and writes inside and outside
  their buffers and when they end. For the proc files, which devices a text enables and that the list
  of settings survives being printed and written back. For the driver, that its lists
  of EDs and the queue of TDs of an endpoint are the abstract lists they stand for (linking an
  interrupt endpoint is insertion into a sorted list, deleting descriptors a filter), that loads add up,
  that the descriptors of a bulk transfer tile its buffer and those of a large control transfer never suffice,
  that finished URBs are returned in order and once, what the error paths of a submission leave behind,
  the shape of the state under all operations, and that each allocated block always has exactly one
  owner and a descriptor in flight is never freed memory.

  \<^bold>\<open>Bounds and loops.\<close> There is no fuel. Loops that end are recursive functions with a measure;
  loops that may not (walks along chains, the polling of the allocator's lists aside) are partial
  functions, and the theorems say when they return. A controller reset polls at most 50 and 30 times.

  \<^bold>\<open>Assumptions.\<close> \<open>virt_to_bus\<close> and \<open>bus_to_virt\<close> are inverse to each other on descriptors, which
  are aligned to 16 bytes. The fields of \<open>linux/usb.h\<close> and \<open>simple_strtoul\<close> are parameters, with the kernel's
  definitions as the instance of the witnesses. A lock that is held is never taken: that is so on a
  multiprocessor, while a uniprocessor kernel has no such lock. In \<open>hc_interrupt\<close> \<open>intrstatus\<close> is read before
  \<open>intrenable\<close> (C leaves that open). Toggles and halts are kept per device number.
  The kernel's \<open>memcmp\<close> stops at the first byte that differs. A read behind a copied transfer finds
  the bytes \<open>behind_copy\<close>, any bytes, until the end of memory. A completion handler that frees and renews the
  private part of an URB that is about to be submitted again makes the code use freed memory: no result.
  \<open>usb_disconnect\<close> clears the pointer it is given. \<open>portstatus[-1]\<close> is the register before
  \<open>portstatus[0]\<close>. \<open>sync_and_flush\<close> only orders stores. Completion handlers are arbitrary functions on
  the state; where it matters they are asked to keep its shape (\<open>good_client\<close>) or the books of memory
  (\<open>honest\<close>). For the ownership of memory the IOP heap answers with arenas that are new, aligned to 16
  bytes and translated exactly, an URB has fewer than 65536 descriptors, a device is removed after its URBs
  have been returned, and the EDs of a new one lie where no endpoint is in use (\<open>fair_submit\<close>, \<open>mstep\<close>).

  \<^bold>\<open>Not modelled.\<close> The calls of the printing under \<open>DEBUG\<close>, which is undefined in the file.
  \<open>module_init\<close>, \<open>module_exit\<close> and
  the tables of function pointers: they only name the operations. The declarations of
  \<open>side_dumper_procfs.h\<close>, the installation script and the notes on the tools: there is nothing to execute.
  The branches for other platforms than the PlayStation 2 (\<open>CONFIG_PS2\<close> is defined).
\<close>

end
